(* ===== verification/Prelude.thy ===== *)
theory Prelude
  imports Main "HOL-Library.Word"
begin

text \<open>
  Shared vocabulary of the development: bytes and machine words, the ways an operation of the
  C++ code can fail, checked loads and stores on a memory region, C's truncating division, and
  the generic lemmas on lists, words and relations that the component theories use.
\<close>

unbundle bit_operations_syntax

named_theorems res_simps \<open>unfolding rules of the result combinators\<close>
named_theorems mem_simps \<open>rules of checked loads and stores\<close>

section \<open>Bytes, words and failures\<close>

type_synonym byte = "8 word"
type_synonym ushort = "16 word"
type_synonym uint32 = "32 word"

text \<open>
  How a C++ operation stops being defined: a failed \<^verbatim>\<open>assert\<close> (the build does not define
  \<^verbatim>\<open>NDEBUG\<close>, so it aborts the process), an access outside the memory the code owns, a null
  pointer dereference, and a use of an object after its \<^verbatim>\<open>delete\<close>.
\<close>

datatype err = AssertFail | OutOfBounds | NullDeref | UseAfterFree

type_synonym 'a res = "err + 'a"

definition res_bind :: "'a res \<Rightarrow> ('a \<Rightarrow> 'b res) \<Rightarrow> 'b res" where
  "res_bind r k = (case r of Inl e \<Rightarrow> Inl e | Inr x \<Rightarrow> k x)"

definition c_assert :: "bool \<Rightarrow> 'a res \<Rightarrow> 'a res" where
  "c_assert b k = (if b then k else Inl AssertFail)"

definition ok :: "'a res \<Rightarrow> bool" where
  "ok r = (case r of Inl _ \<Rightarrow> False | Inr _ \<Rightarrow> True)"

lemma res_bind_Inl [simp, res_simps]: "res_bind (Inl e) k = Inl e"
  by (simp add: res_bind_def)

lemma res_bind_Inr [simp, res_simps]: "res_bind (Inr x) k = k x"
  by (simp add: res_bind_def)

lemma res_bind_eq_Inr:
  "res_bind r k = Inr y \<longleftrightarrow> (\<exists>x. r = Inr x \<and> k x = Inr y)"
  by (cases r) auto

lemma res_bind_assoc: "res_bind (res_bind r f) g = res_bind r (\<lambda>x. res_bind (f x) g)"
  by (cases r) auto

lemma c_assert_True [simp, res_simps]: "c_assert True k = k"
  by (simp add: c_assert_def)

lemma c_assert_False [simp, res_simps]: "c_assert False k = Inl AssertFail"
  by (simp add: c_assert_def)

lemma c_assert_eq_Inr [simp]: "c_assert b k = Inr y \<longleftrightarrow> b \<and> k = Inr y"
  by (simp add: c_assert_def)

lemma ok_simps [simp, res_simps]: "ok (Inr x)" "\<not> ok (Inl e)"
  by (simp_all add: ok_def)

lemma ok_iff: "ok r \<longleftrightarrow> (\<exists>x. r = Inr x)"
  by (cases r) auto

section \<open>Memory regions\<close>

text \<open>
  A region is the list of bytes the pointer may legally address. \<open>load\<close> and \<open>store\<close> are the
  reads and writes of \<^verbatim>\<open>memcpy\<close> and \<^verbatim>\<open>std::copy\<close>: outside the region they fail.
\<close>

definition load :: "'a list \<Rightarrow> nat \<Rightarrow> nat \<Rightarrow> 'a list res" where
  "load m off n = (if off + n \<le> length m then Inr (take n (drop off m)) else Inl OutOfBounds)"

definition overwrite :: "'a list \<Rightarrow> nat \<Rightarrow> 'a list \<Rightarrow> 'a list" where
  "overwrite m off xs = take off m @ xs @ drop (off + length xs) m"

definition store :: "'a list \<Rightarrow> nat \<Rightarrow> 'a list \<Rightarrow> 'a list res" where
  "store m off xs = (if off + length xs \<le> length m then Inr (overwrite m off xs) else Inl OutOfBounds)"

lemma load_ok [mem_simps]: "off + n \<le> length m \<Longrightarrow> load m off n = Inr (take n (drop off m))"
  by (simp add: load_def)

lemma load_eq_Inr:
  "load m off n = Inr xs \<longleftrightarrow> off + n \<le> length m \<and> xs = take n (drop off m)"
  by (auto simp: load_def)

lemma store_ok [mem_simps]:
  "off + length xs \<le> length m \<Longrightarrow> store m off xs = Inr (overwrite m off xs)"
  by (simp add: store_def)

lemma store_eq_Inr:
  "store m off xs = Inr m' \<longleftrightarrow> off + length xs \<le> length m \<and> m' = overwrite m off xs"
  by (auto simp: store_def)

lemma length_overwrite [simp]:
  "off + length xs \<le> length m \<Longrightarrow> length (overwrite m off xs) = length m"
  by (simp add: overwrite_def)

lemma overwrite_Nil [simp]: "overwrite m off [] = m"
  by (simp add: overwrite_def)

lemma take_overwrite [mem_simps]: "off \<le> length m \<Longrightarrow> n \<le> off \<Longrightarrow> take n (overwrite m off xs) = take n m"
  by (simp add: overwrite_def)

lemma drop_overwrite_after [mem_simps]:
  "off + length xs \<le> length m \<Longrightarrow> off + length xs \<le> n \<Longrightarrow> drop n (overwrite m off xs) = drop n m"
  by (simp add: overwrite_def)

lemma overwrite_at [mem_simps]:
  "off + length xs \<le> length m \<Longrightarrow> take (length xs) (drop off (overwrite m off xs)) = xs"
  by (simp add: overwrite_def)

lemma drop_take_overwrite_append [mem_simps]:
  assumes "r \<le> off" and "off + length xs \<le> length m"
  shows "take (off + length xs - r) (drop r (overwrite m off xs)) = take (off - r) (drop r m) @ xs"
proof -
  have "drop r (overwrite m off xs) = drop r (take off m) @ xs @ drop (off + length xs) m"
    using assms by (simp add: overwrite_def)
  moreover have "length (drop r (take off m)) = off - r"
    using assms by simp
  ultimately show ?thesis
    using assms by (simp add: take_drop)
qed

section \<open>C integer division\<close>

text \<open>C's \<^verbatim>\<open>/\<close> and \<^verbatim>\<open>%\<close> truncate towards zero.\<close>

definition c_div :: "int \<Rightarrow> int \<Rightarrow> int" where
  "c_div a b = sgn a * sgn b * (\<bar>a\<bar> div \<bar>b\<bar>)"

definition c_mod :: "int \<Rightarrow> int \<Rightarrow> int" where
  "c_mod a b = a - b * c_div a b"

lemma c_div_nonneg [simp]: "0 \<le> a \<Longrightarrow> 0 < b \<Longrightarrow> c_div a b = a div b"
  by (cases "a = 0") (simp_all add: c_div_def)

lemma c_mod_nonneg [simp]: "0 \<le> a \<Longrightarrow> 0 < b \<Longrightarrow> c_mod a b = a mod b"
  by (simp add: c_mod_def minus_mult_div_eq_mod)

lemma c_div_mod: "b * c_div a b + c_mod a b = a"
  by (simp add: c_mod_def)

section \<open>Little-endian integers\<close>

text \<open>
  \<^verbatim>\<open>memcpy\<close> of a \<^verbatim>\<open>short\<close> or an \<^verbatim>\<open>int\<close> on the target (x86-64) stores the low byte first.
\<close>

definition le16 :: "ushort \<Rightarrow> byte list" where
  "le16 w = [ucast w, ucast (drop_bit 8 w)]"

definition le32 :: "uint32 \<Rightarrow> byte list" where
  "le32 w = [ucast w, ucast (drop_bit 8 w), ucast (drop_bit 16 w), ucast (drop_bit 24 w)]"

definition un_le16 :: "byte list \<Rightarrow> ushort" where
  "un_le16 bs = ucast (bs ! 0) OR push_bit 8 (ucast (bs ! 1))"

lemma length_le16 [simp]: "length (le16 w) = 2"
  by (simp add: le16_def)

lemma length_le32 [simp]: "length (le32 w) = 4"
  by (simp add: le32_def)

lemma un_le16_le16 [simp]: "un_le16 (le16 w @ bs) = w"
proof (rule bit_word_eqI)
  fix n assume "n < LENGTH(16)"
  then show "bit (un_le16 (le16 w @ bs)) n \<longleftrightarrow> bit w n"
    by (auto simp: un_le16_def le16_def bit_or_iff bit_push_bit_iff bit_ucast_iff bit_drop_bit_eq)
qed

section \<open>Lists\<close>

lemma take_drop_append_same [simp]:
  "length xs = n \<Longrightarrow> take n (xs @ ys) = xs" "length xs = n \<Longrightarrow> drop n (xs @ ys) = ys"
  by simp_all

lemma drop_drop_eq_append:
  assumes "drop p m = xs @ ys"
  shows "drop (p + length xs) m = ys"
proof -
  have "drop (p + length xs) m = drop (length xs) (drop p m)"
    by (simp add: add.commute)
  then show ?thesis by (simp add: assms)
qed

lemma drop_eq_append_length:
  assumes "drop p m = xs @ ys" and "xs \<noteq> []"
  shows "p + length xs + length ys = length m"
proof -
  from assms have "length (drop p m) = length xs + length ys" by simp
  with assms(2) show ?thesis
    by (cases "p \<le> length m") auto
qed

end
