(* ===== verification/FrameFormat.thy ===== *)
theory FrameFormat
  imports Prelude
begin

text \<open>
  The wire format of \<^verbatim>\<open>websocket/WSProtocol.h\<close> and the masking loops of \<^verbatim>\<open>WSProtocol.cpp\<close>. The
  header is the bit-field struct \<^verbatim>\<open>WSHead\<close>, copied byte for byte to the wire; on the target (GCC,
  x86-64) bit-fields are allocated from the low bit up and the struct has two bytes.
\<close>

section \<open>The frame header\<close>

record WSHead =
  FIN :: "1 word"
  RSV :: "3 word"
  Opcode :: "4 word"
  maskBit :: "1 word"
  PayloadLen :: "7 word"

datatype OpCode =
    eContinueFrame
  | eTextFrame
  | eBlobFrame
  | eCloseFrame
  | ePingFrame
  | ePongFrame

fun opcode_val :: "OpCode \<Rightarrow> 4 word" where
  "opcode_val eContinueFrame = 0x0"
| "opcode_val eTextFrame = 0x1"
| "opcode_val eBlobFrame = 0x2"
| "opcode_val eCloseFrame = 0x8"
| "opcode_val ePingFrame = 0x9"
| "opcode_val ePongFrame = 0xA"

definition MASK_CODE :: uint32 where
  "MASK_CODE = 0x80200802"

text \<open>The two bytes of the struct, and the struct read back from two bytes.\<close>

definition head_store :: "WSHead \<Rightarrow> byte list" where
  "head_store h =
     [ucast (FIN h) OR push_bit 1 (ucast (RSV h)) OR push_bit 4 (ucast (Opcode h)),
      ucast (maskBit h) OR push_bit 1 (ucast (PayloadLen h))]"

definition head_load :: "byte list \<Rightarrow> WSHead" where
  "head_load bs =
     \<lparr>FIN = ucast (bs ! 0), RSV = ucast (drop_bit 1 (bs ! 0)), Opcode = ucast (drop_bit 4 (bs ! 0)),
      maskBit = ucast (bs ! 1), PayloadLen = ucast (drop_bit 1 (bs ! 1))\<rparr>"

lemma length_head_store [simp]: "length (head_store h) = 2"
  by (simp add: head_store_def)

lemma head_load_store [simp]: "head_load (head_store h @ bs) = h"
proof -
  have b1: "bit (w :: 1 word) n \<Longrightarrow> n = 0" for w n
    using bit_imp_le_length [of w n] by simp
  have b3: "bit (w :: 3 word) n \<Longrightarrow> n < 3" for w n
    using bit_imp_le_length [of w n] by simp
  have b4: "bit (w :: 4 word) n \<Longrightarrow> n < 4" for w n
    using bit_imp_le_length [of w n] by simp
  let ?b0 = "ucast (FIN h) OR push_bit 1 (ucast (RSV h)) OR push_bit 4 (ucast (Opcode h)) :: byte"
  let ?b1 = "ucast (maskBit h) OR push_bit 1 (ucast (PayloadLen h)) :: byte"
  have "ucast ?b0 = FIN h"
    by (rule bit_word_eqI) (auto simp: bit_or_iff bit_push_bit_iff bit_ucast_iff simp del: push_bit_Suc)
  moreover have "ucast (drop_bit 1 ?b0) = RSV h"
    by (rule bit_word_eqI)
      (auto simp: bit_or_iff bit_push_bit_iff bit_ucast_iff bit_drop_bit_eq simp del: push_bit_Suc dest: b1)
  moreover have "ucast (drop_bit 4 ?b0) = Opcode h"
    by (rule bit_word_eqI)
      (auto simp: bit_or_iff bit_push_bit_iff bit_ucast_iff bit_drop_bit_eq simp del: push_bit_Suc dest: b1 b3)
  moreover have "ucast ?b1 = maskBit h"
    by (rule bit_word_eqI) (auto simp: bit_or_iff bit_push_bit_iff bit_ucast_iff simp del: push_bit_Suc)
  moreover have "ucast (drop_bit 1 ?b1) = PayloadLen h"
    by (rule bit_word_eqI)
      (auto simp: bit_or_iff bit_push_bit_iff bit_ucast_iff bit_drop_bit_eq simp del: push_bit_Suc dest: b1)
  ultimately show ?thesis
    by (simp add: head_load_def head_store_def)
qed

lemma head_store_load:
  assumes "length bs = 2"
  shows "head_store (head_load bs) = bs"
proof -
  obtain a b where bs: "bs = [a, b]"
    using assms by (auto simp: length_Suc_conv numeral_2_eq_2)
  have "ucast (ucast a :: 1 word) OR push_bit 1 (ucast (ucast (drop_bit 1 a) :: 3 word))
      OR push_bit 4 (ucast (ucast (drop_bit 4 a) :: 4 word)) = a" (is "?l = a")
  proof (rule bit_word_eqI)
    fix n assume "n < LENGTH(8)"
    then show "bit ?l n = bit a n"
      by (cases "n < 4")
        (auto simp: bit_or_iff bit_push_bit_iff bit_ucast_iff bit_drop_bit_eq simp del: push_bit_Suc)
  qed
  moreover have "ucast (ucast b :: 1 word) OR push_bit 1 (ucast (ucast (drop_bit 1 b) :: 7 word)) = b"
    by (rule bit_word_eqI)
      (auto simp: bit_or_iff bit_push_bit_iff bit_ucast_iff bit_drop_bit_eq simp del: push_bit_Suc)
  ultimately show ?thesis
    by (simp add: bs head_load_def head_store_def)
qed

section \<open>Masking\<close>

text \<open>
  The table \<^verbatim>\<open>static short mask[4]\<close> and the loop \<^verbatim>\<open>data[i] = data[i] ^ mask[i % 4]\<close>, which the two
  functions share; the operands are promoted to \<^verbatim>\<open>int\<close> and the result is stored as a byte.
\<close>

definition mask_table :: "ushort list" where
  "mask_table = [ucast (MASK_CODE AND 0xff), ucast (drop_bit 8 MASK_CODE AND 0xff),
     ucast (drop_bit 16 MASK_CODE AND 0xff), ucast (drop_bit 24 MASK_CODE AND 0xff)]"

definition mask_step :: "byte \<Rightarrow> nat \<Rightarrow> byte" where
  "mask_step b i = ucast ((ucast b :: uint32) XOR ucast (mask_table ! (i mod 4)))"

function mask_loop :: "byte list \<Rightarrow> nat \<Rightarrow> nat \<Rightarrow> byte list" where
  "mask_loop data len i =
     (if i < len then mask_loop (data[i := mask_step (data ! i) i]) len (Suc i) else data)"
  by pat_completeness auto
termination
  by (relation "measure (\<lambda>(data, len, i). len - i)") auto

declare mask_loop.simps [simp del]

text \<open>
  \<open>data\<close> is the region behind the pointer, \<open>len\<close> the argument of the call. A length that runs
  past the region is a write outside it.
\<close>

definition computeMask :: "byte list \<Rightarrow> int \<Rightarrow> byte list res" where
  "computeMask data len =
     c_assert (0 < len)
       (if nat len \<le> length data then Inr (mask_loop data (nat len) 0) else Inl OutOfBounds)"

definition computeUnMask :: "byte list \<Rightarrow> int \<Rightarrow> byte list res" where
  "computeUnMask data len =
     c_assert (0 < len)
       (if nat len \<le> length data then Inr (mask_loop data (nat len) 0) else Inl OutOfBounds)"

text \<open>The loop in closed form: every byte is exclusive-or-ed with the key byte of its position.\<close>

definition xmask :: "byte list \<Rightarrow> byte list" where
  "xmask xs = map (\<lambda>i. mask_step (xs ! i) i) [0 ..< length xs]"

lemma length_xmask [simp]: "length (xmask xs) = length xs"
  by (simp add: xmask_def)

lemma nth_xmask [simp]: "i < length xs \<Longrightarrow> xmask xs ! i = mask_step (xs ! i) i"
  by (simp add: xmask_def)

lemma xmask_Nil [simp]: "xmask [] = []"
  by (simp add: xmask_def)

lemma xmask_eq_Nil [simp]: "xmask xs = [] \<longleftrightarrow> xs = []"
  by (simp add: xmask_def)

lemma mask_step_twice [simp]: "mask_step (mask_step b i) i = b"
proof -
  define k where "k = (ucast (mask_table ! (i mod 4)) :: uint32)"
  have "ucast ((ucast (ucast (ucast b XOR k) :: byte) :: uint32) XOR k) = b"
    by (rule bit_word_eqI) (auto simp: bit_xor_iff bit_ucast_iff simp del: push_bit_Suc)
  then show ?thesis by (simp add: mask_step_def k_def)
qed

lemma xmask_xmask [simp]: "xmask (xmask xs) = xs"
  by (rule nth_equalityI) simp_all

lemma mask_loop_from:
  assumes "i \<le> n" and "n \<le> length xs"
  shows "mask_loop xs n i = take i xs @ map (\<lambda>j. mask_step (xs ! j) j) [i ..< n] @ drop n xs"
  using assms
proof (induction "n - i" arbitrary: i xs)
  case 0
  then show ?case by (simp add: mask_loop.simps)
next
  case (Suc k)
  then have i: "i < n" and k: "k = n - Suc i" by auto
  let ?ys = "xs[i := mask_step (xs ! i) i]"
  have "mask_loop xs n i = mask_loop ?ys n (Suc i)"
    using i by (simp add: mask_loop.simps [of xs])
  also have "\<dots> = take (Suc i) ?ys @ map (\<lambda>j. mask_step (?ys ! j) j) [Suc i ..< n] @ drop n ?ys"
    using Suc.hyps(1) [of "Suc i" ?ys] k i Suc.prems by simp
  also have "take (Suc i) ?ys = take i xs @ [mask_step (xs ! i) i]"
    using i Suc.prems by (simp add: take_Suc_conv_app_nth)
  also have "map (\<lambda>j. mask_step (?ys ! j) j) [Suc i ..< n] = map (\<lambda>j. mask_step (xs ! j) j) [Suc i ..< n]"
    by simp
  finally show ?case
    using i by (simp add: upt_conv_Cons)
qed

lemma mask_loop_eq: "n \<le> length xs \<Longrightarrow> mask_loop xs n 0 = xmask (take n xs) @ drop n xs"
  by (simp add: mask_loop_from xmask_def min_def)

lemma computeMask_eq:
  "computeMask xs len =
     (if len \<le> 0 then Inl AssertFail
      else if nat len \<le> length xs then Inr (xmask (take (nat len) xs) @ drop (nat len) xs)
      else Inl OutOfBounds)"
  by (simp add: computeMask_def c_assert_def mask_loop_eq)

lemma computeUnMask_eq:
  "computeUnMask xs len =
     (if len \<le> 0 then Inl AssertFail
      else if nat len \<le> length xs then Inr (xmask (take (nat len) xs) @ drop (nat len) xs)
      else Inl OutOfBounds)"
  by (simp add: computeUnMask_def c_assert_def mask_loop_eq)

text \<open>A slice taken at a multiple of four is masked with the same key phase.\<close>

lemma xmask_slice:
  assumes "off mod 4 = 0"
  shows "take n (drop off (xmask xs)) = xmask (take n (drop off xs))"
proof (rule nth_equalityI)
  fix i assume "i < length (take n (drop off (xmask xs)))"
  then have "off \<le> length xs" and "i < n" and "i < length xs - off" by auto
  moreover have "(off + i) mod 4 = i mod 4"
    using assms mod_add_left_eq [of off 4 i] by simp
  ultimately show "take n (drop off (xmask xs)) ! i = xmask (take n (drop off xs)) ! i"
    by (simp add: mask_step_def)
qed simp

end
