(* ===== verification/FrameEncode.thy ===== *)
theory FrameEncode
  imports FrameFormat
begin

text \<open>
  \<^verbatim>\<open>WSProtocol::encodeFrame\<close>: the payload is masked in place in the caller's buffer and cut into
  frames, each handed to the callback \<^verbatim>\<open>func\<close> in order. The model returns the caller's buffer
  after the call and the list of frames passed to \<^verbatim>\<open>func\<close>, each of length \<^verbatim>\<open>bufflen\<close>.

  \<open>header0\<close> stands for the indeterminate content of the local \<^verbatim>\<open>WSHead header\<close>, which the function
  does not initialise: what a branch does not assign keeps the value found on the stack.
\<close>

section \<open>The code\<close>

definition SLICE_SIZE :: nat where "SLICE_SIZE = 500"
definition SHORT_LENGTH :: nat where "SHORT_LENGTH = 126"
definition LONG_LENGTH :: nat where "LONG_LENGTH = 127"

text \<open>Frames as the three \<^verbatim>\<open>memcpy\<close> sequences lay them out: with and without the 16-bit length.\<close>

definition short_frame :: "WSHead \<Rightarrow> byte list \<Rightarrow> byte list" where
  "short_frame h body = head_store h @ le32 MASK_CODE @ body"

definition long_frame :: "WSHead \<Rightarrow> ushort \<Rightarrow> byte list \<Rightarrow> byte list" where
  "long_frame h l body = head_store h @ le16 l @ le32 MASK_CODE @ body"

text \<open>
  The slicing loop; \<open>payload\<close> is already masked and \<open>header\<close> carries over from one round to the
  next. The last round returns from the function. With \<open>lastlen < 126\<close> it copies from
  \<open>payload + (i - 1) * SLICE_SIZE\<close>, with \<open>lastlen \<ge> 126\<close> from \<open>payload + i * SLICE_SIZE\<close>.
\<close>

function slice_loop :: "byte list \<Rightarrow> nat \<Rightarrow> nat \<Rightarrow> nat \<Rightarrow> WSHead \<Rightarrow> byte list list" where
  "slice_loop payload slices lastlen i header =
     (if i < slices then
        let header = header\<lparr>PayloadLen := of_nat SHORT_LENGTH\<rparr> in
        if i = 0 then
          let header = header\<lparr>FIN := 0\<rparr> in
          long_frame header (of_nat SLICE_SIZE) (take SLICE_SIZE (drop (i * SLICE_SIZE) payload))
            # slice_loop payload slices lastlen (i + 1) header
        else if i + 1 < slices then
          let header = header\<lparr>FIN := 0, Opcode := opcode_val eContinueFrame\<rparr> in
          long_frame header (of_nat SLICE_SIZE) (take SLICE_SIZE (drop (i * SLICE_SIZE) payload))
            # slice_loop payload slices lastlen (i + 1) header
        else
          let header = header\<lparr>FIN := 1, Opcode := opcode_val eContinueFrame\<rparr> in
          if lastlen < 126
          then [short_frame (header\<lparr>PayloadLen := of_nat lastlen\<rparr>)
                  (take lastlen (drop ((i - 1) * SLICE_SIZE) payload))]
          else [long_frame header (of_nat lastlen) (take lastlen (drop (i * SLICE_SIZE) payload))]
      else [])"
  by pat_completeness auto
termination
  by (relation "measure (\<lambda>(payload, slices, lastlen, i, header). slices - i)") auto

declare slice_loop.simps [simp del]

text \<open>The text and binary branch, by the length of the payload.\<close>

definition encode_data ::
    "WSHead \<Rightarrow> byte list \<Rightarrow> int \<Rightarrow> OpCode \<Rightarrow> (byte list \<times> byte list list) res" where
  "encode_data header0 payload len type =
     (let header = header0\<lparr>FIN := 0, RSV := 0, maskBit := 1, Opcode := opcode_val type\<rparr> in
      if len < int SHORT_LENGTH then
        res_bind (computeMask payload len) (\<lambda>p.
          Inr (p, [short_frame (header\<lparr>FIN := 1, PayloadLen := of_int len\<rparr>) (take (nat len) p)]))
      else if len < int SLICE_SIZE then
        res_bind (computeMask payload len) (\<lambda>p.
          Inr (p, [long_frame (header\<lparr>FIN := 1, PayloadLen := of_nat SHORT_LENGTH\<rparr>) (of_int len)
                     (take (nat len) p)]))
      else
        let lastlen = nat len mod SLICE_SIZE;
            slices = nat len div SLICE_SIZE + (if 0 < lastlen then 1 else 0)
        in res_bind (computeMask payload len) (\<lambda>p. Inr (p, slice_loop p slices lastlen 0 header)))"

definition encode_control :: "WSHead \<Rightarrow> byte list \<Rightarrow> int \<Rightarrow> (byte list \<times> byte list list) res" where
  "encode_control header payload len =
     res_bind (computeMask payload len) (\<lambda>p.
       Inr (p, [short_frame (header\<lparr>PayloadLen := ucast (of_int len :: byte)\<rparr>) (take (nat len) p)]))"

fun encodeFrame ::
    "WSHead \<Rightarrow> byte list \<Rightarrow> int \<Rightarrow> OpCode \<Rightarrow> (byte list \<times> byte list list) res" where
  "encodeFrame header0 payload len eTextFrame = encode_data header0 payload len eTextFrame"
| "encodeFrame header0 payload len eBlobFrame = encode_data header0 payload len eBlobFrame"
| "encodeFrame header0 payload len ePingFrame =
     encode_control (header0\<lparr>FIN := 1, maskBit := 1, Opcode := opcode_val ePingFrame\<rparr>) payload len"
| "encodeFrame header0 payload len ePongFrame =
     encode_control (header0\<lparr>FIN := 1, maskBit := 1, Opcode := opcode_val ePongFrame\<rparr>) payload len"
| "encodeFrame header0 payload len eCloseFrame =
     encode_control (header0\<lparr>FIN := 1, Opcode := opcode_val eCloseFrame\<rparr>) payload len"
| "encodeFrame header0 payload len eContinueFrame = Inr (payload, [])"

section \<open>Frames as values\<close>

text \<open>
  A frame is its header fields and its unmasked data. \<open>wire\<close> gives its bytes: \<open>wide\<close> says that the
  length travels in the extra 16-bit field.
\<close>

record frame =
  f_fin :: bool
  f_rsv :: "3 word"
  f_op :: "4 word"
  f_wide :: bool
  f_data :: "byte list"

definition frame_head :: "frame \<Rightarrow> WSHead" where
  "frame_head f =
     \<lparr>FIN = (if f_fin f then 1 else 0), RSV = f_rsv f, Opcode = f_op f, maskBit = 1,
      PayloadLen = (if f_wide f then of_nat SHORT_LENGTH else of_nat (length (f_data f)))\<rparr>"

definition wire :: "frame \<Rightarrow> byte list" where
  "wire f =
     (if f_wide f
      then long_frame (frame_head f) (of_nat (length (f_data f))) (xmask (f_data f))
      else short_frame (frame_head f) (xmask (f_data f)))"

text \<open>
  The frames a decoder can take apart: some data, a length that fits its field, and the 16-bit
  field in every frame that is not the last of its message.
\<close>

definition wf_frame :: "frame \<Rightarrow> bool" where
  "wf_frame f \<longleftrightarrow> f_data f \<noteq> [] \<and> length (f_data f) < (if f_wide f then 2 ^ 16 else SHORT_LENGTH) \<and>
     (f_fin f \<or> f_wide f)"

lemma length_short_frame [simp]: "length (short_frame h b) = 6 + length b"
  by (simp add: short_frame_def)

lemma length_long_frame [simp]: "length (long_frame h l b) = 8 + length b"
  by (simp add: long_frame_def)

lemma length_wire: "length (wire f) = (if f_wide f then 8 else 6) + length (f_data f)"
  by (simp add: wire_def)

section \<open>What is sent, as frames\<close>

text \<open>
  \<open>slices n op data\<close>: the message cut every \<open>SLICE_SIZE\<close> bytes into \<open>n\<close> middle frames, the first
  with the opcode \<open>op\<close>, then the final frame with \<open>rest\<close>.
\<close>

definition data_frame :: "bool \<Rightarrow> bool \<Rightarrow> 4 word \<Rightarrow> byte list \<Rightarrow> frame" where
  "data_frame fin wide op d = \<lparr>f_fin = fin, f_rsv = 0, f_op = op, f_wide = wide, f_data = d\<rparr>"

definition middle_slices :: "4 word \<Rightarrow> byte list \<Rightarrow> nat \<Rightarrow> frame list" where
  "middle_slices op data n =
     map (\<lambda>i. data_frame False True (if i = 0 then op else 0)
                (take SLICE_SIZE (drop (i * SLICE_SIZE) data))) [0 ..< n]"

text \<open>The last slice carries \<open>take lastlen\<close> of what the code copies for it.\<close>

definition last_slice :: "byte list \<Rightarrow> nat \<Rightarrow> nat \<Rightarrow> frame" where
  "last_slice data lastlen i =
     (if lastlen < 126
      then data_frame True False 0 (take lastlen (drop ((i - 1) * SLICE_SIZE) data))
      else data_frame True True 0 (take lastlen (drop (i * SLICE_SIZE) data)))"

definition message_frames :: "4 word \<Rightarrow> byte list \<Rightarrow> frame list" where
  "message_frames op data =
     (let len = length data in
      if len < SHORT_LENGTH then [data_frame True False op data]
      else if len < SLICE_SIZE then [data_frame True True op data]
      else
        let lastlen = len mod SLICE_SIZE; slices = len div SLICE_SIZE + (if 0 < lastlen then 1 else 0)
        in if slices = 1 then middle_slices op data 1
           else middle_slices op data (slices - 1) @ [last_slice data lastlen (slices - 1)])"

section \<open>The encoder produces these frames\<close>

lemmas slice_consts = SLICE_SIZE_def SHORT_LENGTH_def

lemma wire_data_frame:
  "wire (data_frame fin wide op d) =
     (if wide
      then long_frame \<lparr>FIN = (if fin then 1 else 0), RSV = 0, Opcode = op, maskBit = 1,
             PayloadLen = of_nat SHORT_LENGTH\<rparr> (of_nat (length d)) (xmask d)
      else short_frame \<lparr>FIN = (if fin then 1 else 0), RSV = 0, Opcode = op, maskBit = 1,
             PayloadLen = of_nat (length d)\<rparr> (xmask d))"
  by (simp add: wire_def frame_head_def data_frame_def)

lemma xmask_slices_plain:
  "take n (drop (i * SLICE_SIZE) (xmask xs)) = xmask (take n (drop (i * SLICE_SIZE) xs))"
  by (rule xmask_slice) (simp add: slice_consts)

lemma xmask_slices:
  assumes "i * SLICE_SIZE + n \<le> length xs"
  shows "take n (drop (i * SLICE_SIZE) (xmask xs @ r)) = xmask (take n (drop (i * SLICE_SIZE) xs))"
proof -
  have "take n (drop (i * SLICE_SIZE) (xmask xs @ r)) = take n (drop (i * SLICE_SIZE) (xmask xs))"
    using assms by simp
  also have "\<dots> = xmask (take n (drop (i * SLICE_SIZE) xs))"
    by (rule xmask_slices_plain)
  finally show ?thesis .
qed

lemma slice_loop_tail:
  assumes "1 \<le> i" and "i < n" and "(n - 1) * SLICE_SIZE + lastlen \<le> length data"
    and "RSV h = 0" and "maskBit h = 1" and "lastlen < SLICE_SIZE"
  shows "slice_loop (xmask data @ r) n lastlen i h =
     map (\<lambda>i. wire (data_frame False True 0 (take SLICE_SIZE (drop (i * SLICE_SIZE) data)))) [i ..< n - 1]
       @ [wire (last_slice data lastlen (n - 1))]"
  using assms
proof (induction "n - i" arbitrary: i h)
  case 0
  then show ?case by simp
next
  case (Suc k)
  have h: "h\<lparr>PayloadLen := l, FIN := f, Opcode := oc\<rparr> =
      \<lparr>FIN = f, RSV = 0, Opcode = oc, maskBit = 1, PayloadLen = l\<rparr>" for l f oc
    using Suc.prems by (cases h) simp
  show ?case
  proof (cases "i + 1 < n")
    case True
    have len: "length (take SLICE_SIZE (drop (i * SLICE_SIZE) data)) = SLICE_SIZE"
    proof -
      have "(i + 1) * SLICE_SIZE \<le> (n - 1) * SLICE_SIZE"
        using True by (intro mult_le_mono1) simp
      with Suc.prems show ?thesis by simp
    qed
    then have masked: "take SLICE_SIZE (drop (i * SLICE_SIZE) (xmask data @ r))
        = xmask (take SLICE_SIZE (drop (i * SLICE_SIZE) data))"
      by (intro xmask_slices) (simp add: slice_consts)
    let ?h = "h\<lparr>PayloadLen := of_nat SHORT_LENGTH, FIN := 0, Opcode := 0\<rparr>"
    have "slice_loop (xmask data @ r) n lastlen i h =
        long_frame ?h (of_nat SLICE_SIZE) (take SLICE_SIZE (drop (i * SLICE_SIZE) (xmask data @ r)))
        # slice_loop (xmask data @ r) n lastlen (i + 1) ?h"
      using Suc.prems True by (simp add: slice_loop.simps [of _ _ _ i] Let_def)
    also have "long_frame ?h (of_nat SLICE_SIZE) (take SLICE_SIZE (drop (i * SLICE_SIZE) (xmask data @ r)))
        = wire (data_frame False True 0 (take SLICE_SIZE (drop (i * SLICE_SIZE) data)))"
      by (simp only: wire_data_frame len h masked if_True if_False)
    also have "slice_loop (xmask data @ r) n lastlen (i + 1) ?h =
        map (\<lambda>i. wire (data_frame False True 0 (take SLICE_SIZE (drop (i * SLICE_SIZE) data)))) [i + 1 ..< n - 1]
          @ [wire (last_slice data lastlen (n - 1))]"
      using Suc.hyps(2) Suc.prems True by (intro Suc.hyps(1)) auto
    finally show ?thesis
      using True by (simp add: upt_conv_Cons)
  next
    case False
    with Suc.prems have i: "n = Suc i" by simp
    have last: "length (take lastlen (drop (i * SLICE_SIZE) data)) = lastlen"
      using Suc.prems i by simp
    have at: "i * SLICE_SIZE + lastlen \<le> length data" using Suc.prems i by simp
    have "(i - 1) * SLICE_SIZE \<le> i * SLICE_SIZE" by (rule mult_le_mono1) simp
    with at have before: "(i - 1) * SLICE_SIZE + lastlen \<le> length data" by linarith
    have prev: "length (take lastlen (drop ((i - 1) * SLICE_SIZE) data)) = lastlen"
      using before by (simp only: length_take length_drop min_def) auto
    show ?thesis
      using Suc.prems i prev last before
      by (simp add: slice_loop.simps [of _ _ _ i] Let_def last_slice_def wire_data_frame h
          xmask_slices_plain del: length_take)
  qed
qed

lemma slice_loop_all:
  assumes "SLICE_SIZE \<le> length data"
    and "lastlen = length data mod SLICE_SIZE"
    and "n = length data div SLICE_SIZE + (if 0 < lastlen then 1 else 0)"
    and "RSV h = 0" and "maskBit h = 1" and "Opcode h = op" and "length data \<ge> SHORT_LENGTH"
  shows "slice_loop (xmask data @ r) n lastlen 0 h = map wire (message_frames op data)"
proof -
  have len: "length data = (length data div SLICE_SIZE) * SLICE_SIZE + lastlen"
    using assms(2) by simp
  have lt: "lastlen < SLICE_SIZE" using assms(2) by (simp add: slice_consts)
  have div: "1 \<le> length data div SLICE_SIZE"
    using assms(1) by (simp add: slice_consts)
  then have n: "0 < n" using assms(3) by simp
  let ?h = "h\<lparr>PayloadLen := of_nat SHORT_LENGTH, FIN := 0\<rparr>"
  have h: "?h = \<lparr>FIN = 0, RSV = 0, Opcode = op, maskBit = 1, PayloadLen = of_nat SHORT_LENGTH\<rparr>"
    using assms by (cases h) simp
  have first: "slice_loop (xmask data @ r) n lastlen 0 h =
      wire (data_frame False True op (take SLICE_SIZE data)) # slice_loop (xmask data @ r) n lastlen 1 ?h"
    using n assms(1) xmask_slices [of 0 SLICE_SIZE data r]
    by (simp add: slice_loop.simps [of _ _ _ 0] Let_def wire_data_frame h)
  have msg: "message_frames op data = (if n = 1 then middle_slices op data 1
      else middle_slices op data (n - 1) @ [last_slice data lastlen (n - 1)])"
    using assms by (simp add: message_frames_def Let_def not_less)
  show ?thesis
  proof (cases "n = 1")
    case True
    then have "slice_loop (xmask data @ r) n lastlen 1 ?h = []"
      by (simp add: slice_loop.simps)
    with first True show ?thesis
      by (simp add: msg middle_slices_def)
  next
    case False
    with n have n1: "1 < n" by simp
    have "(n - 1) * SLICE_SIZE + lastlen \<le> length data"
    proof (cases "0 < lastlen")
      case True
      then show ?thesis using len assms(3) by simp
    next
      case False
      then have "(n - 1) * SLICE_SIZE \<le> length data div SLICE_SIZE * SLICE_SIZE"
        using assms(3) by (intro mult_le_mono1) simp
      with False len show ?thesis by simp
    qed
    then have rest: "slice_loop (xmask data @ r) n lastlen 1 ?h =
        map (\<lambda>i. wire (data_frame False True 0 (take SLICE_SIZE (drop (i * SLICE_SIZE) data)))) [1 ..< n - 1]
          @ [wire (last_slice data lastlen (n - 1))]"
      using n1 assms lt by (intro slice_loop_tail) auto
    have upt: "[0 ..< n - 1] = 0 # [1 ..< n - 1]"
      using n1 by (simp add: upt_conv_Cons)
    show ?thesis
      unfolding first rest msg middle_slices_def upt using False by simp
  qed
qed

lemma encodeFrame_data:
  assumes "type = eTextFrame \<or> type = eBlobFrame"
    and "0 < n" and "n \<le> length payload"
  shows "encodeFrame header0 payload (int n) type =
     Inr (xmask (take n payload) @ drop n payload,
          map wire (message_frames (opcode_val type) (take n payload)))"
proof -
  let ?d = "take n payload"
  let ?p = "xmask ?d @ drop n payload"
  let ?h = "header0\<lparr>FIN := 0, RSV := 0, maskBit := 1, Opcode := opcode_val type\<rparr>"
  have type: "encodeFrame header0 payload (int n) type = encode_data header0 payload (int n) type"
    using assms(1) by auto
  have mask: "computeMask payload (int n) = Inr ?p"
    using assms by (simp add: computeMask_eq)
  have len: "length ?d = n" using assms(3) by (simp only: length_take min_absorb2)
  have take: "take n ?p = xmask ?d" using assms(3) by simp
  have h: "header0\<lparr>RSV := 0, maskBit := 1, Opcode := oc, FIN := 1, PayloadLen := l\<rparr>
      = \<lparr>FIN = 1, RSV = 0, Opcode = oc, maskBit = 1, PayloadLen = l\<rparr>" for oc l
    by (cases header0) simp
  consider (short) "n < SHORT_LENGTH" | (long) "SHORT_LENGTH \<le> n" "n < SLICE_SIZE" | (sliced) "SLICE_SIZE \<le> n"
    using not_less by blast
  then show ?thesis
  proof cases
    case short
    then show ?thesis
      by (simp add: type encode_data_def mask take len message_frames_def wire_data_frame h
          del: take_append length_take)
  next
    case long
    then show ?thesis
      by (simp add: type encode_data_def mask take len message_frames_def wire_data_frame h
          del: take_append length_take)
  next
    case sliced
    then have ge: "SHORT_LENGTH \<le> n" by (simp add: slice_consts)
    show ?thesis
      using sliced ge slice_loop_all [of ?d "n mod SLICE_SIZE" _ ?h "opcode_val type" "drop n payload"]
      by (simp add: type encode_data_def mask Let_def len del: length_take)
  qed
qed

text \<open>
  Ping and pong frames: the RSV bits are whatever the stack held. Close frames leave the mask bit
  to the stack as well, although the payload is always masked.
\<close>

definition control_frame :: "3 word \<Rightarrow> 4 word \<Rightarrow> byte list \<Rightarrow> frame" where
  "control_frame rsv op d = \<lparr>f_fin = True, f_rsv = rsv, f_op = op, f_wide = False, f_data = d\<rparr>"

lemma encode_control_eq:
  assumes "0 < n" and "n \<le> length payload" and "n < SHORT_LENGTH"
  shows "encode_control h payload (int n) =
     Inr (xmask (take n payload) @ drop n payload,
          [short_frame (h\<lparr>PayloadLen := of_nat n\<rparr>) (xmask (take n payload))])"
proof -
  have "ucast (word_of_nat n :: byte) = (word_of_nat n :: 7 word)"
    using assms(3) by (simp add: unsigned_of_nat take_bit_nat_eq_self slice_consts)
  then show ?thesis
    using assms by (simp add: encode_control_def computeMask_eq)
qed

lemma encodeFrame_ping_pong:
  assumes "type = ePingFrame \<or> type = ePongFrame"
    and "0 < n" and "n \<le> length payload" and "n < SHORT_LENGTH"
  shows "encodeFrame header0 payload (int n) type =
     Inr (xmask (take n payload) @ drop n payload,
          [wire (control_frame (RSV header0) (opcode_val type) (take n payload))])"
  using assms
  by (cases header0) (auto simp: encode_control_eq wire_def control_frame_def frame_head_def)

lemma encodeFrame_close:
  assumes "0 < n" and "n \<le> length payload" and "n < SHORT_LENGTH"
  shows "encodeFrame header0 payload (int n) eCloseFrame =
     Inr (xmask (take n payload) @ drop n payload,
          [short_frame ((frame_head (control_frame (RSV header0) (opcode_val eCloseFrame) (take n payload)))
             \<lparr>maskBit := maskBit header0\<rparr>) (xmask (take n payload))])"
  using assms by (cases header0) (simp add: encode_control_eq control_frame_def frame_head_def)

text \<open>The assert of \<^verbatim>\<open>computeMask\<close>: a message or control frame without payload aborts.\<close>

lemma encodeFrame_empty:
  "len \<le> 0 \<Longrightarrow> type \<noteq> eContinueFrame \<Longrightarrow> encodeFrame header0 payload len type = Inl AssertFail"
  by (cases type)
    (simp_all add: encode_data_def encode_control_def computeMask_eq slice_consts Let_def)

end
