(* ===== verification/FrameDecode.thy ===== *)
theory FrameDecode
  imports FrameEncode
begin

text \<open>
  \<^verbatim>\<open>WSProtocol::decodeFrame\<close> and the state of a \<^verbatim>\<open>WSProtocol\<close> object. The loop reads a header at
  the \<^verbatim>\<open>data\<close> pointer, takes a complete frame or one fragment, and goes on until \<^verbatim>\<open>len\<close> is used up.
  It never compares the lengths it reads with \<^verbatim>\<open>len\<close>, so the model carries the memory region
  behind the pointer and fails when the code leaves it.
\<close>

section \<open>The code\<close>

definition MAX_FRAMESIZE :: nat where "MAX_FRAMESIZE = 1024 * 1024 * 4"

text \<open>
  \<open>frameBuff\<close> is the content of the 4 MiB reassembly buffer by address; addresses from
  \<open>MAX_FRAMESIZE\<close> on are outside it. The constructor leaves its content indeterminate.
\<close>

record WSProtocol =
  frameBuff :: "nat \<Rightarrow> byte"
  framePos :: nat

definition new_WSProtocol :: "(nat \<Rightarrow> byte) \<Rightarrow> WSProtocol" where
  "new_WSProtocol junk = \<lparr>frameBuff = junk, framePos = 0\<rparr>"

definition frameBuff_write :: "WSProtocol \<Rightarrow> byte list \<Rightarrow> WSProtocol res" where
  "frameBuff_write p xs =
     (if framePos p + length xs \<le> MAX_FRAMESIZE
      then Inr (p\<lparr>frameBuff := (\<lambda>i. if framePos p \<le> i \<and> i < framePos p + length xs
                                   then xs ! (i - framePos p) else frameBuff p i),
                  framePos := framePos p + length xs\<rparr>)
      else Inl OutOfBounds)"

definition frameBuff_read :: "WSProtocol \<Rightarrow> byte list" where
  "frameBuff_read p = map (frameBuff p) [0 ..< framePos p]"

text \<open>
  One state of the loop: the region, the offset of \<^verbatim>\<open>data\<close> in it, the remaining \<^verbatim>\<open>len\<close>, the object,
  and what \<^verbatim>\<open>func\<close> has been called with so far.
\<close>

record dec_state =
  d_mem :: "byte list"
  d_pos :: nat
  d_len :: int
  d_proto :: WSProtocol
  d_out :: "byte list list"

datatype dec_next = Continue dec_state | Break dec_state | Abort err

definition emit :: "byte list \<Rightarrow> dec_state \<Rightarrow> dec_state" where
  "emit xs s = s\<lparr>d_out := d_out s @ [xs]\<rparr>"

text \<open>Unmasking \<open>n\<close> bytes at offset \<open>off\<close> in place, if the header asks for it.\<close>

definition unmask_at :: "WSHead \<Rightarrow> nat \<Rightarrow> nat \<Rightarrow> dec_state \<Rightarrow> dec_state res" where
  "unmask_at h off n s =
     (if maskBit h = 1
      then res_bind (load (d_mem s) off n) (\<lambda>xs.
           res_bind (computeUnMask xs (int n)) (\<lambda>ys. Inr (s\<lparr>d_mem := overwrite (d_mem s) off ys\<rparr>)))
      else Inr s)"

text \<open>
  Where a header with FIN = 1 puts the payload: its offset, its length, and the bytes consumed. For
  \<open>PayloadLen = 127\<close> neither branch runs: \<^verbatim>\<open>payl\<close> stays \<^verbatim>\<open>NULL\<close> and nothing is consumed.
\<close>

definition final_layout :: "WSHead \<Rightarrow> dec_state \<Rightarrow> (nat option \<times> nat \<times> nat) res" where
  "final_layout h s =
     (if unat (PayloadLen h) < SHORT_LENGTH
      then Inr (Some (d_pos s + 6), unat (PayloadLen h), unat (PayloadLen h) + 6)
      else if unat (PayloadLen h) = SHORT_LENGTH
      then res_bind (load (d_mem s) (d_pos s + 2) 2) (\<lambda>bs.
             Inr (Some (d_pos s + 8), unat (un_le16 bs), unat (un_le16 bs) + 8))
      else Inr (None, 0, 0))"

definition advance :: "nat \<Rightarrow> dec_state \<Rightarrow> dec_state" where
  "advance n s = s\<lparr>d_pos := d_pos s + n, d_len := d_len s - int n\<rparr>"

definition next_round :: "dec_state \<Rightarrow> dec_next" where
  "next_round s = (if d_len s \<le> 0 then Break s else Continue s)"

definition abort_or :: "dec_state res \<Rightarrow> dec_next" where
  "abort_or r = (case r of Inl e \<Rightarrow> Abort e | Inr s \<Rightarrow> next_round s)"

definition unmask_final :: "WSHead \<Rightarrow> nat option \<Rightarrow> nat \<Rightarrow> dec_state \<Rightarrow> dec_state res" where
  "unmask_final h payl n s =
     (case payl of
        None \<Rightarrow> c_assert (maskBit h \<noteq> 1) (Inr s)
      | Some off \<Rightarrow> unmask_at h off n s)"

definition payload_bytes :: "dec_state \<Rightarrow> nat option \<Rightarrow> nat \<Rightarrow> byte list res" where
  "payload_bytes s payl n = (case payl of None \<Rightarrow> Inr [] | Some off \<Rightarrow> load (d_mem s) off n)"

text \<open>FIN = 1: a frame that is complete, or the last fragment of a message.\<close>

definition decode_final :: "WSHead \<Rightarrow> dec_state \<Rightarrow> dec_next" where
  "decode_final h s = abort_or
     (res_bind (final_layout h s) (\<lambda>(payl, n, used).
      res_bind (unmask_final h payl n (advance used s)) (\<lambda>s.
      res_bind (payload_bytes s payl n) (\<lambda>xs.
        if Opcode h = opcode_val eContinueFrame
        then res_bind (frameBuff_write (d_proto s) xs) (\<lambda>p.
               Inr (emit (frameBuff_read p) (s\<lparr>d_proto := p\<rparr>)))
        else Inr (emit xs s)))))"

text \<open>FIN = 0: a fragment, appended to the reassembly buffer; a first fragment clears it before.\<close>

definition decode_fragment :: "WSHead \<Rightarrow> dec_state \<Rightarrow> dec_next" where
  "decode_fragment h s = abort_or
     (c_assert (unat (PayloadLen h) = SHORT_LENGTH)
       (let s = (if Opcode h = opcode_val eTextFrame \<or> Opcode h = opcode_val eBlobFrame
                 then s\<lparr>d_proto := \<lparr>frameBuff = (\<lambda>i. 0), framePos = 0\<rparr>\<rparr> else s) in
        res_bind (load (d_mem s) (d_pos s + 2) 2) (\<lambda>bs.
        res_bind (load (d_mem s) (d_pos s + 4) 4) (\<lambda>mask.
        let n = unat (un_le16 bs); off = d_pos s + 8 in
        res_bind (unmask_at h off n s) (\<lambda>s.
        res_bind (load (d_mem s) off n) (\<lambda>xs.
        res_bind (frameBuff_write (d_proto s) xs) (\<lambda>p.
          Inr (advance (n + 8) (s\<lparr>d_proto := p\<rparr>)))))))))"

definition decode_iter :: "dec_state \<Rightarrow> dec_next" where
  "decode_iter s =
     (case load (d_mem s) (d_pos s) 2 of
        Inl e \<Rightarrow> Abort e
      | Inr bs \<Rightarrow>
          let header = head_load bs in
          if FIN header = 1 then decode_final header s else decode_fragment header s)"

text \<open>
  The loop may run forever, so it is a partial function: \<open>None\<close> means that the call does not
  return.
\<close>

partial_function (option) decode_loop :: "dec_state \<Rightarrow> dec_state res option" where
  "decode_loop s =
     (case decode_iter s of
        Continue t \<Rightarrow> decode_loop t
      | Break t \<Rightarrow> Some (Inr t)
      | Abort e \<Rightarrow> Some (Inl e))"

definition decodeFrame :: "WSProtocol \<Rightarrow> byte list \<Rightarrow> int \<Rightarrow> dec_state res option" where
  "decodeFrame p mem len =
     (if len < int MAX_FRAMESIZE
      then decode_loop \<lparr>d_mem = mem, d_pos = 0, d_len = len, d_proto = p, d_out = []\<rparr>
      else Some (Inl AssertFail))"

end
