(* ===== verification/FrameRoundTrip.thy ===== *)
theory FrameRoundTrip
  imports FrameDecode
begin

text \<open>
  What the decoder does with the frames of the encoder: the reassembly of messages as a fold over
  frames (\<open>absorb\<close>), the refinement of that specification by the byte-level loop, the round trip,
  and the exact condition under which the loop does not return.
\<close>

section \<open>The reassembly buffer\<close>

lemma length_frameBuff_read [simp]: "length (frameBuff_read p) = framePos p"
  by (simp add: frameBuff_read_def)

lemma frameBuff_write_ok:
  assumes "framePos p + length xs \<le> MAX_FRAMESIZE"
  shows "\<exists>q. frameBuff_write p xs = Inr q \<and> frameBuff_read q = frameBuff_read p @ xs"
proof -
  have "map (\<lambda>i. if framePos p \<le> i \<and> i < framePos p + length xs then xs ! (i - framePos p)
      else frameBuff p i) [0 ..< framePos p + length xs] = frameBuff_read p @ xs"
    by (rule nth_equalityI) (auto simp: frameBuff_read_def nth_append)
  with assms show ?thesis
    by (auto simp: frameBuff_write_def frameBuff_read_def)
qed

lemma frameBuff_write_Inr:
  assumes "frameBuff_write p xs = Inr q"
  shows "frameBuff_read q = frameBuff_read p @ xs" and "framePos p + length xs \<le> MAX_FRAMESIZE"
proof -
  show le: "framePos p + length xs \<le> MAX_FRAMESIZE"
    using assms by (auto simp: frameBuff_write_def split: if_splits)
  from frameBuff_write_ok [OF le] assms show "frameBuff_read q = frameBuff_read p @ xs"
    by auto
qed

lemma framePos_bound:
  "frameBuff_write p xs = Inr q \<Longrightarrow> framePos q \<le> MAX_FRAMESIZE"
  by (auto simp: frameBuff_write_def split: if_splits)

section \<open>The specification: messages from frames\<close>

text \<open>
  The state is the content of the reassembly buffer and the messages delivered. A complete frame
  is delivered as it is; a fragment is appended, a first fragment (text or binary) to an empty
  buffer; the last fragment delivers the buffer, which keeps its content.
\<close>

fun absorb :: "byte list \<times> byte list list \<Rightarrow> frame \<Rightarrow> byte list \<times> byte list list" where
  "absorb (acc, out) f =
     (if f_fin f
      then if f_op f = 0 then (acc @ f_data f, out @ [acc @ f_data f]) else (acc, out @ [f_data f])
      else ((if f_op f = 1 \<or> f_op f = 2 then [] else acc) @ f_data f, out))"

definition reassemble :: "byte list \<Rightarrow> frame list \<Rightarrow> byte list \<times> byte list list" where
  "reassemble acc fs = foldl absorb (acc, []) fs"

text \<open>The buffer never overflows while these frames are absorbed.\<close>

fun fits :: "byte list \<Rightarrow> frame list \<Rightarrow> bool" where
  "fits acc [] = True"
| "fits acc (f # fs) =
     (length (fst (absorb (acc, []) f)) \<le> MAX_FRAMESIZE \<and> fits (fst (absorb (acc, []) f)) fs)"

lemma absorb_out: "absorb (acc, out) f = (fst (absorb (acc, []) f), out @ snd (absorb (acc, []) f))"
  by simp

lemma foldl_absorb_out:
  "foldl absorb (acc, out) fs = (fst (foldl absorb (acc, []) fs), out @ snd (foldl absorb (acc, []) fs))"
proof (induction fs arbitrary: acc out)
  case Nil
  then show ?case by simp
next
  case (Cons f fs)
  let ?a = "fst (absorb (acc, []) f)" and ?o = "snd (absorb (acc, []) f)"
  have "foldl absorb (acc, out) (f # fs) = foldl absorb (?a, out @ ?o) fs"
    by (simp only: foldl_Cons absorb_out [of acc out])
  moreover have "foldl absorb (acc, []) (f # fs) = foldl absorb (?a, ?o) fs"
    by (simp only: foldl_Cons prod.collapse)
  ultimately show ?case
    using Cons.IH [of ?a "out @ ?o"] Cons.IH [of ?a ?o] by simp
qed

lemma reassemble_Nil [simp]: "reassemble acc [] = (acc, [])"
  by (simp add: reassemble_def)

lemma reassemble_Cons:
  "reassemble acc (f # fs) =
     (fst (reassemble (fst (absorb (acc, []) f)) fs),
      snd (absorb (acc, []) f) @ snd (reassemble (fst (absorb (acc, []) f)) fs))"
  unfolding reassemble_def foldl_Cons
  using foldl_absorb_out [of "fst (absorb (acc, []) f)" "snd (absorb (acc, []) f)" fs]
  by (simp only: prod.collapse)

lemma reassemble_append:
  "reassemble acc (fs @ gs) =
     (fst (reassemble (fst (reassemble acc fs)) gs),
      snd (reassemble acc fs) @ snd (reassemble (fst (reassemble acc fs)) gs))"
  unfolding reassemble_def foldl_append
  using foldl_absorb_out [of "fst (foldl absorb (acc, []) fs)" "snd (foldl absorb (acc, []) fs)" gs]
  by (simp only: prod.collapse)

lemma fits_append: "fits acc (fs @ gs) \<longleftrightarrow> fits acc fs \<and> fits (fst (reassemble acc fs)) gs"
  by (induction fs arbitrary: acc) (auto simp: reassemble_Cons)

section \<open>One frame\<close>

text \<open>
  \<open>at s bs rest\<close>: the region from the \<^verbatim>\<open>data\<close> pointer on is \<open>bs\<close> followed by \<open>rest\<close>.
\<close>

definition at :: "dec_state \<Rightarrow> byte list \<Rightarrow> byte list \<Rightarrow> bool" where
  "at s bs rest \<longleftrightarrow> drop (d_pos s) (d_mem s) = bs @ rest"

lemma at_load:
  assumes "drop p m = xs @ ys @ zs" and "off = p + length xs" and "n = length ys" and "0 < n"
  shows "load m off n = Inr ys"
proof -
  have "drop (p + length xs) m = ys @ zs"
    using assms(1) by (rule drop_drop_eq_append)
  moreover from this have "p + length xs + length ys \<le> length m"
    using drop_eq_append_length [of "p + length xs" m ys zs] assms(3,4) by simp
  ultimately show ?thesis by (simp add: load_def assms(2,3))
qed

lemma overwrite_after:
  assumes "drop p m = xs @ ys @ zs" and "ys \<noteq> []" and "length ys' = length ys"
  shows "drop (p + length xs + length ys) (overwrite m (p + length xs) ys') = zs"
    and "load (overwrite m (p + length xs) ys') (p + length xs) (length ys) = Inr ys'"
    and "length (overwrite m (p + length xs) ys') = length m"
proof -
  have d: "drop (p + length xs) m = ys @ zs"
    using assms(1) by (rule drop_drop_eq_append)
  from drop_eq_append_length [OF d assms(2)] have len: "p + length xs + length ys \<le> length m" by simp
  have "drop (p + length xs + length ys) m = zs"
    using d by (rule drop_drop_eq_append)
  with len assms(3) show "drop (p + length xs + length ys) (overwrite m (p + length xs) ys') = zs"
    by (simp add: drop_overwrite_after)
  show "length (overwrite m (p + length xs) ys') = length m"
    using len assms(3) by simp
  then show "load (overwrite m (p + length xs) ys') (p + length xs) (length ys) = Inr ys'"
    using len assms(3) overwrite_at [of "p + length xs" ys' m] by (simp add: load_def)
qed

lemma head_load_store' [simp]: "head_load (head_store h) = h"
  using head_load_store [of h "[]"] by simp

lemma un_le16_le16' [simp]: "un_le16 (le16 w) = w"
  using un_le16_le16 [of w "[]"] by simp

text \<open>Unmasking in place: the payload appears in the region, everything after it is untouched.\<close>

lemma unmask_at_wire:
  assumes "drop p (d_mem s) = xs @ xmask d @ rest" and "d \<noteq> []" and "maskBit h = 1"
    and "off = p + length xs" and "n = length d"
  obtains m where "unmask_at h off n s = Inr (s\<lparr>d_mem := m\<rparr>)"
    and "load m off n = Inr d" and "drop (off + n) m = rest" and "length m = length (d_mem s)"
proof
  let ?m = "overwrite (d_mem s) off d"
  have ne: "xmask d \<noteq> []" using assms(2) by simp
  have "load (d_mem s) off n = Inr (xmask d)"
    using assms(1) by (rule at_load) (simp_all add: assms(2,4,5))
  moreover have "computeUnMask (xmask d) (int n) = Inr d"
    using assms(2) by (simp add: computeUnMask_eq assms(5))
  ultimately show "unmask_at h off n s = Inr (s\<lparr>d_mem := ?m\<rparr>)"
    by (simp add: unmask_at_def assms(3))
  note after = overwrite_after [OF assms(1) ne, of d]
  show "load ?m off n = Inr d" and "drop (off + n) ?m = rest" and "length ?m = length (d_mem s)"
    using after by (simp_all add: assms(4,5))
qed

lemma frame_head_fields [simp]:
  "FIN (frame_head f) = (if f_fin f then 1 else 0)" "Opcode (frame_head f) = f_op f"
  "maskBit (frame_head f) = 1"
  "PayloadLen (frame_head f) =
     (if f_wide f then of_nat SHORT_LENGTH else of_nat (length (f_data f)))"
  by (simp_all add: frame_head_def)

lemma unat_lengths:
  "f_wide f \<Longrightarrow> wf_frame f \<Longrightarrow> unat (of_nat (length (f_data f)) :: ushort) = length (f_data f)"
  "\<not> f_wide f \<Longrightarrow> wf_frame f \<Longrightarrow> unat (of_nat (length (f_data f)) :: 7 word) = length (f_data f)"
  "unat (of_nat SHORT_LENGTH :: 7 word) = SHORT_LENGTH"
  by (simp_all add: wf_frame_def unat_of_nat slice_consts)

lemma advance_simps [simp]:
  "d_mem (advance n s) = d_mem s" "d_proto (advance n s) = d_proto s" "d_out (advance n s) = d_out s"
  "d_pos (advance n s) = d_pos s + n" "d_len (advance n s) = d_len s - int n"
  by (simp_all add: advance_def)

lemma dec_emit_simps [simp]:
  "d_mem (emit xs s) = d_mem s" "d_proto (emit xs s) = d_proto s" "d_out (emit xs s) = d_out s @ [xs]"
  "d_pos (emit xs s) = d_pos s" "d_len (emit xs s) = d_len s"
  by (simp_all add: emit_def)

text \<open>The state after a frame has been taken.\<close>

definition took :: "frame \<Rightarrow> byte list \<Rightarrow> dec_state \<Rightarrow> dec_state \<Rightarrow> bool" where
  "took f rest s t \<longleftrightarrow>
     drop (d_pos t) (d_mem t) = rest \<and> d_len t = d_len s - int (length (wire f)) \<and>
     length (d_mem t) = length (d_mem s) \<and>
     d_out t = d_out s @ snd (absorb (frameBuff_read (d_proto s), []) f) \<and>
     frameBuff_read (d_proto t) = fst (absorb (frameBuff_read (d_proto s), []) f)"

lemma decode_final_wire:
  assumes wf: "wf_frame f" and fin: "f_fin f" and at: "drop (d_pos s) (d_mem s) = wire f @ rest"
    and fits: "fits (frameBuff_read (d_proto s)) [f]"
  shows "\<exists>t. decode_final (frame_head f) s = next_round t \<and> took f rest s t"
proof -
  let ?n = "length (f_data f)" and ?h = "frame_head f"
  define k where "k = (if f_wide f then 8 else 6 :: nat)"
  define off where "off = d_pos s + k"
  obtain xs where wire: "wire f = xs @ xmask (f_data f)" and xs: "length xs = k"
  proof
    show "wire f = (if f_wide f then head_store ?h @ le16 (of_nat ?n) @ le32 MASK_CODE
        else head_store ?h @ le32 MASK_CODE) @ xmask (f_data f)"
      by (simp add: wire_def long_frame_def short_frame_def)
    show "length (if f_wide f then head_store ?h @ le16 (of_nat ?n) @ le32 MASK_CODE
        else head_store ?h @ le32 MASK_CODE) = k"
      by (simp add: k_def)
  qed
  have layout: "final_layout ?h s = Inr (Some off, ?n, ?n + k)"
  proof (cases "f_wide f")
    case True
    have "drop (d_pos s) (d_mem s) =
        head_store ?h @ le16 (of_nat ?n) @ le32 MASK_CODE @ xmask (f_data f) @ rest"
      using at True by (simp add: wire_def long_frame_def)
    then have "load (d_mem s) (d_pos s + 2) 2 = Inr (le16 (of_nat ?n))"
      by (rule at_load) simp_all
    then show ?thesis
      using True wf by (simp add: final_layout_def unat_lengths off_def k_def)
  next
    case False
    then show ?thesis
      using wf unat_lengths(2) [OF False wf]
      by (simp add: final_layout_def off_def k_def wf_frame_def)
  qed
  let ?s = "advance (?n + k) s"
  have ne: "f_data f \<noteq> []" using wf by (simp add: wf_frame_def)
  have reg: "drop (d_pos s) (d_mem ?s) = xs @ xmask (f_data f) @ rest"
    using at wire by (simp add: advance_def)
  obtain m where unm: "unmask_at ?h off ?n ?s = Inr (?s\<lparr>d_mem := m\<rparr>)"
    and pay: "load m off ?n = Inr (f_data f)" and rest: "drop (off + ?n) m = rest"
    and len: "length m = length (d_mem s)"
    by (rule unmask_at_wire [OF reg ne, of ?h off ?n]) (simp_all add: off_def xs advance_def)
  have wlen: "length (wire f) = ?n + k" by (simp add: length_wire k_def)
  have pos: "d_pos s + (?n + k) = off + ?n" by (simp add: off_def)
  show ?thesis
  proof (cases "f_op f = 0")
    case True
    then have "framePos (d_proto s) + ?n \<le> MAX_FRAMESIZE"
      using fits fin by simp
    from frameBuff_write_ok [OF this] obtain q where
      q: "frameBuff_write (d_proto s) (f_data f) = Inr q" "frameBuff_read q = frameBuff_read (d_proto s) @ f_data f"
      by blast
    let ?t = "emit (frameBuff_read q) (?s\<lparr>d_mem := m, d_proto := q\<rparr>)"
    have "decode_final ?h s = next_round ?t"
      using True fin by (simp add: decode_final_def layout unmask_final_def unm payload_bytes_def pay
          q(1) abort_or_def)
    moreover have "took f rest s ?t"
      using True fin rest len q(2)
      by (simp add: took_def wlen pos)
    ultimately show ?thesis by blast
  next
    case False
    let ?t = "emit (f_data f) (?s\<lparr>d_mem := m\<rparr>)"
    have "decode_final ?h s = next_round ?t"
      using False fin by (simp add: decode_final_def layout unmask_final_def unm payload_bytes_def pay
          abort_or_def)
    moreover have "took f rest s ?t"
      using False fin rest len by (simp add: took_def wlen pos)
    ultimately show ?thesis by blast
  qed
qed

lemma decode_fragment_wire:
  assumes wf: "wf_frame f" and fin: "\<not> f_fin f" and at: "drop (d_pos s) (d_mem s) = wire f @ rest"
    and fits: "fits (frameBuff_read (d_proto s)) [f]"
  shows "\<exists>t. decode_fragment (frame_head f) s = next_round t \<and> took f rest s t"
proof -
  let ?n = "length (f_data f)" and ?h = "frame_head f"
  let ?first = "f_op f = 1 \<or> f_op f = 2"
  define s0 where
    "s0 = (if ?first then s\<lparr>d_proto := \<lparr>frameBuff = (\<lambda>i. 0), framePos = 0\<rparr>\<rparr> else s)"
  have wide: "f_wide f" using wf fin by (auto simp: wf_frame_def)
  have ne: "f_data f \<noteq> []" using wf by (simp add: wf_frame_def)
  have same: "d_mem s0 = d_mem s" "d_pos s0 = d_pos s" "d_len s0 = d_len s" "d_out s0 = d_out s"
    by (simp_all add: s0_def)
  have unfold: "decode_fragment ?h s = abort_or
      (res_bind (load (d_mem s0) (d_pos s0 + 2) 2) (\<lambda>bs.
       res_bind (load (d_mem s0) (d_pos s0 + 4) 4) (\<lambda>mask.
       let n = unat (un_le16 bs) in
       res_bind (unmask_at ?h (d_pos s0 + 8) n s0) (\<lambda>t.
       res_bind (load (d_mem t) (d_pos s0 + 8) n) (\<lambda>xs.
       res_bind (frameBuff_write (d_proto t) xs) (\<lambda>p.
         Inr (advance (n + 8) (t\<lparr>d_proto := p\<rparr>))))))))"
    using wide by (simp add: decode_fragment_def unat_lengths s0_def Let_def)
  have reg: "drop (d_pos s) (d_mem s) =
      head_store ?h @ le16 (of_nat ?n) @ le32 MASK_CODE @ xmask (f_data f) @ rest"
    using at wide by (simp add: wire_def long_frame_def)
  have len_field: "load (d_mem s) (d_pos s + 2) 2 = Inr (le16 (of_nat ?n))"
    using reg by (rule at_load) simp_all
  have mask_field: "load (d_mem s) (d_pos s + 4) 4 = Inr (le32 MASK_CODE)"
    by (rule at_load [of "d_pos s" "d_mem s" "head_store ?h @ le16 (of_nat ?n)" "le32 MASK_CODE"])
      (simp_all add: reg)
  have reg': "drop (d_pos s) (d_mem s0) =
      (head_store ?h @ le16 (of_nat ?n) @ le32 MASK_CODE) @ xmask (f_data f) @ rest"
    using reg same by simp
  obtain m where unm: "unmask_at ?h (d_pos s + 8) ?n s0 = Inr (s0\<lparr>d_mem := m\<rparr>)"
    and pay: "load m (d_pos s + 8) ?n = Inr (f_data f)" and rest: "drop (d_pos s + 8 + ?n) m = rest"
    and len: "length m = length (d_mem s)"
    by (rule unmask_at_wire [OF reg' ne, of ?h "d_pos s + 8" ?n]) (simp_all add: same)
  have acc: "frameBuff_read (d_proto s0) = (if ?first then [] else frameBuff_read (d_proto s))"
    by (simp add: frameBuff_read_def s0_def)
  have "framePos (d_proto s0) = length (if ?first then [] else frameBuff_read (d_proto s))"
    by (simp add: s0_def)
  then have "framePos (d_proto s0) + ?n \<le> MAX_FRAMESIZE"
    using fits fin by auto
  from frameBuff_write_ok [OF this] obtain q where
    q: "frameBuff_write (d_proto s0) (f_data f) = Inr q" "frameBuff_read q = frameBuff_read (d_proto s0) @ f_data f"
    by blast
  let ?t = "advance (?n + 8) (s0\<lparr>d_mem := m, d_proto := q\<rparr>)"
  have "decode_fragment ?h s = next_round ?t"
    using len_field mask_field unm pay q(1) wf wide
    by (simp add: unfold same Let_def unat_lengths abort_or_def)
  moreover have "took f rest s ?t"
    using fin rest len q(2) acc by (simp add: took_def same length_wire wide ac_simps)
  ultimately show ?thesis by blast
qed

lemma decode_iter_wire:
  assumes "wf_frame f" and "drop (d_pos s) (d_mem s) = wire f @ rest"
    and "fits (frameBuff_read (d_proto s)) [f]"
  shows "\<exists>t. decode_iter s = next_round t \<and> took f rest s t"
proof -
  have "\<exists>zs. drop (d_pos s) (d_mem s) = [] @ head_store (frame_head f) @ zs"
    using assms(2) by (auto simp: wire_def long_frame_def short_frame_def)
  then obtain zs where "drop (d_pos s) (d_mem s) = [] @ head_store (frame_head f) @ zs" ..
  then have "load (d_mem s) (d_pos s) 2 = Inr (head_store (frame_head f))"
    by (rule at_load) simp_all
  then have "decode_iter s =
      (if f_fin f then decode_final (frame_head f) s else decode_fragment (frame_head f) s)"
    by (simp add: decode_iter_def)
  then show ?thesis
    using decode_final_wire [OF assms(1) _ assms(2,3)] decode_fragment_wire [OF assms(1) _ assms(2,3)]
    by (cases "f_fin f") simp_all
qed

section \<open>Any sequence of frames\<close>

lemma wire_nonempty: "fs \<noteq> [] \<Longrightarrow> 0 < length (concat (map wire fs))"
  by (cases fs) (simp_all add: length_wire)

lemma decode_loop_wires:
  assumes "fs \<noteq> []" and "\<forall>f \<in> set fs. wf_frame f"
    and "drop (d_pos s) (d_mem s) = concat (map wire fs) @ rest"
    and "d_len s = int (length (concat (map wire fs)))"
    and "fits (frameBuff_read (d_proto s)) fs"
  shows "\<exists>t. decode_loop s = Some (Inr t) \<and>
     frameBuff_read (d_proto t) = fst (reassemble (frameBuff_read (d_proto s)) fs) \<and>
     d_out t = d_out s @ snd (reassemble (frameBuff_read (d_proto s)) fs)"
  using assms
proof (induction fs arbitrary: s)
  case Nil
  then show ?case by simp
next
  case (Cons f fs)
  have at: "drop (d_pos s) (d_mem s) = wire f @ concat (map wire fs) @ rest"
    using Cons.prems(3) by simp
  have fits: "fits (frameBuff_read (d_proto s)) [f]" using Cons.prems(5) by simp
  from decode_iter_wire [OF _ at fits] Cons.prems(2) obtain t where
    t: "decode_iter s = next_round t" and took: "took f (concat (map wire fs) @ rest) s t"
    by auto
  have len: "d_len t = int (length (concat (map wire fs)))"
    using took Cons.prems(4) by (simp add: took_def)
  let ?acc = "frameBuff_read (d_proto s)"
  have abs: "frameBuff_read (d_proto t) = fst (absorb (?acc, []) f)"
    "d_out t = d_out s @ snd (absorb (?acc, []) f)"
    using took by (simp_all add: took_def del: absorb.simps)
  show ?case
  proof (cases "fs = []")
    case True
    then have "decode_loop s = Some (Inr t)"
      using t len by (simp add: decode_loop.simps [of s] next_round_def)
    with True abs show ?thesis
      by (auto simp: reassemble_Cons simp del: absorb.simps)
  next
    case False
    then have "0 < d_len t"
      using wire_nonempty by (simp add: len del: length_concat)
    then have loop: "decode_loop s = decode_loop t"
      using t by (simp add: decode_loop.simps [of s] next_round_def)
    have "\<exists>u. decode_loop t = Some (Inr u) \<and>
        frameBuff_read (d_proto u) = fst (reassemble (frameBuff_read (d_proto t)) fs) \<and>
        d_out u = d_out t @ snd (reassemble (frameBuff_read (d_proto t)) fs)"
      using Cons.prems(2,5) took False len abs
      by (intro Cons.IH) (auto simp: took_def simp del: absorb.simps)
    then show ?thesis
      by (auto simp: loop abs reassemble_Cons simp del: absorb.simps)
  qed
qed

text \<open>
  The refinement: on the wire image of any non-empty list of well-formed frames, the byte-level
  decoder returns, delivers what \<open>reassemble\<close> says, and leaves the buffer it says.
\<close>

lemma decodeFrame_wires:
  assumes "fs \<noteq> []" and "\<forall>f \<in> set fs. wf_frame f"
    and "fits (frameBuff_read p) fs" and "length (concat (map wire fs)) < MAX_FRAMESIZE"
  shows "\<exists>t. decodeFrame p (concat (map wire fs) @ rest) (int (length (concat (map wire fs)))) = Some (Inr t) \<and>
     frameBuff_read (d_proto t) = fst (reassemble (frameBuff_read p) fs) \<and>
     d_out t = snd (reassemble (frameBuff_read p) fs)"
  using decode_loop_wires [of fs "\<lparr>d_mem = concat (map wire fs) @ rest, d_pos = 0,
      d_len = int (length (concat (map wire fs))), d_proto = p, d_out = []\<rparr>" rest] assms
  by (auto simp: decodeFrame_def)

section \<open>Reassembling the slices of a message\<close>

lemma data_frame_simps [simp]:
  "f_fin (data_frame fin wide op d) = fin" "f_op (data_frame fin wide op d) = op"
  "f_wide (data_frame fin wide op d) = wide" "f_data (data_frame fin wide op d) = d"
  by (simp_all add: data_frame_def)

lemma middle_slices_Suc:
  "middle_slices op m (Suc n) = middle_slices op m n @
     [data_frame False True (if n = 0 then op else 0) (take SLICE_SIZE (drop (n * SLICE_SIZE) m))]"
  by (simp add: middle_slices_def)

lemma middle_slices_wf:
  "n * SLICE_SIZE \<le> length m \<Longrightarrow> f \<in> set (middle_slices op m n) \<Longrightarrow> wf_frame f"
proof -
  assume n: "n * SLICE_SIZE \<le> length m" and "f \<in> set (middle_slices op m n)"
  then obtain i where i: "i < n"
    "f = data_frame False True (if i = 0 then op else 0) (take SLICE_SIZE (drop (i * SLICE_SIZE) m))"
    by (auto simp: middle_slices_def)
  have "(i + 1) * SLICE_SIZE \<le> n * SLICE_SIZE"
    using i(1) by (intro mult_le_mono1) simp
  then have "length (take SLICE_SIZE (drop (i * SLICE_SIZE) m)) = SLICE_SIZE"
    using n by simp
  then show "wf_frame f"
    by (auto simp: i(2) wf_frame_def slice_consts simp del: length_take)
qed

lemma middle_slices_reassemble:
  assumes "op = 1 \<or> op = 2" and "(n + 1) * SLICE_SIZE \<le> length m" and "length m \<le> MAX_FRAMESIZE"
  shows "reassemble acc (middle_slices op m (Suc n)) = (take ((n + 1) * SLICE_SIZE) m, []) \<and>
     fits acc (middle_slices op m (Suc n))"
  using assms(2)
proof (induction n)
  case 0
  have "middle_slices op m (Suc 0) = [data_frame False True op (take SLICE_SIZE m)]"
    by (simp add: middle_slices_def)
  with assms(1,3) show ?case
    by (auto simp: reassemble_Cons)
next
  case (Suc n)
  let ?f = "data_frame False True 0 (take SLICE_SIZE (drop (Suc n * SLICE_SIZE) m))"
  have split: "middle_slices op m (Suc (Suc n)) = middle_slices op m (Suc n) @ [?f]"
    by (subst middle_slices_Suc) simp
  have IH: "reassemble acc (middle_slices op m (Suc n)) = (take ((n + 1) * SLICE_SIZE) m, [])"
    "fits acc (middle_slices op m (Suc n))"
    using Suc by simp_all
  have "take ((n + 1) * SLICE_SIZE) m @ take SLICE_SIZE (drop (Suc n * SLICE_SIZE) m)
      = take ((Suc n + 1) * SLICE_SIZE) m"
    by (simp add: take_add [symmetric] add.commute)
  then show ?case
    unfolding split reassemble_append fits_append IH
    using assms(3) by (simp add: reassemble_Cons IH)
qed

text \<open>What a peer receives for a message \<open>m\<close> that is sent in slices with a short last one.\<close>

definition delivered :: "byte list \<Rightarrow> byte list" where
  "delivered m =
     (let n = length m; l = n mod SLICE_SIZE in
      if n < SLICE_SIZE \<or> 126 \<le> l then m
      else take (n - l) m @ take l (drop (n - l - SLICE_SIZE) m))"

definition deliverable :: "nat \<Rightarrow> bool" where
  "deliverable n \<longleftrightarrow> 0 < n \<and> n \<le> 4000000 \<and> (n < SLICE_SIZE \<or> n mod SLICE_SIZE \<noteq> 0)"

lemma length_concat_wires:
  "length (concat (map wire fs)) \<le> 8 * length fs + sum_list (map (\<lambda>f. length (f_data f)) fs)"
  by (induction fs) (auto simp: length_wire)

lemma middle_slices_total:
  "sum_list (map (\<lambda>f. length (f_data f)) (middle_slices op m n)) \<le> n * SLICE_SIZE"
  by (induction n) (auto simp: middle_slices_Suc middle_slices_def [of op m 0])

text \<open>A sliced message, split into its full slices and the last one.\<close>

lemma sliced_frames:
  assumes op: "op = 1 \<or> op = 2" and n: "deliverable (length m)" and long: "SLICE_SIZE \<le> length m"
  obtains k d where "message_frames op m = middle_slices op m (Suc k) @ [last_slice m (length m mod SLICE_SIZE) (Suc k)]"
    and "(k + 1) * SLICE_SIZE + length m mod SLICE_SIZE = length m"
    and "f_data (last_slice m (length m mod SLICE_SIZE) (Suc k)) = d"
    and "length d = length m mod SLICE_SIZE"
    and "take ((k + 1) * SLICE_SIZE) m @ d = delivered m"
proof -
  define k where "k = length m div SLICE_SIZE - 1"
  define l where "l = length m mod SLICE_SIZE"
  define d where "d = f_data (last_slice m l (Suc k))"
  have l: "0 < l" "l < SLICE_SIZE"
    using n long by (auto simp: deliverable_def l_def slice_consts)
  have "1 \<le> length m div SLICE_SIZE"
    using long by (simp add: slice_consts)
  then have div: "length m div SLICE_SIZE = Suc k" by (simp add: k_def)
  have len: "length m = Suc k * SLICE_SIZE + l"
    using div_mult_mod_eq [of "length m" SLICE_SIZE] by (simp add: div l_def)
  have "SHORT_LENGTH \<le> length m" using long by (simp add: slice_consts)
  then have frames: "message_frames op m = middle_slices op m (Suc k) @ [last_slice m l (Suc k)]"
    using long l(1) by (simp add: message_frames_def Let_def div l_def [symmetric] not_less)
  have d: "d = (if l < 126 then take l (drop (k * SLICE_SIZE) m) else take l (drop (Suc k * SLICE_SIZE) m))"
    by (simp add: d_def last_slice_def)
  have "k * SLICE_SIZE + l \<le> length m" by (simp add: len)
  then have dlen: "length d = l"
    by (simp add: d len)
  have "take (Suc k * SLICE_SIZE) m @ d = delivered m"
  proof (cases "l < 126")
    case True
    have e: "length m - l = Suc k * SLICE_SIZE" by (simp add: len)
    have e': "Suc k * SLICE_SIZE - SLICE_SIZE = k * SLICE_SIZE" by simp
    have "delivered m = take (length m - l) m @ take l (drop (length m - l - SLICE_SIZE) m)"
      using True long by (simp add: delivered_def Let_def l_def [symmetric])
    then show ?thesis
      using True by (simp only: e e' d if_True)
  next
    case False
    have "delivered m = m"
      using False by (simp add: delivered_def Let_def l_def [symmetric])
    moreover have "length (drop (Suc k * SLICE_SIZE) m) \<le> l"
      by (simp only: length_drop len diff_add_inverse order_refl)
    then have "take l (drop (Suc k * SLICE_SIZE) m) = drop (Suc k * SLICE_SIZE) m"
      by (rule take_all)
    ultimately show ?thesis
      using False by (simp only: d if_False append_take_drop_id)
  qed
  moreover have "(k + 1) * SLICE_SIZE + l = length m"
    by (simp only: len Suc_eq_plus1)
  ultimately show thesis
    using that [of k d] frames d_def [symmetric] dlen unfolding l_def by (simp only: Suc_eq_plus1)
qed

lemma last_slice_wf:
  "f_data (last_slice m l i) = d \<Longrightarrow> length d = l \<Longrightarrow> 0 < l \<Longrightarrow> l < SLICE_SIZE \<Longrightarrow> wf_frame (last_slice m l i)"
  by (auto simp: last_slice_def wf_frame_def slice_consts split: if_splits)

lemma last_slice_fields [simp]: "f_fin (last_slice m l i)" "f_op (last_slice m l i) = 0"
  by (simp_all add: last_slice_def)

lemma message_frames_spec:
  assumes op: "op = 1 \<or> op = 2" and n: "deliverable (length m)" and acc: "length acc \<le> MAX_FRAMESIZE"
  shows "message_frames op m \<noteq> [] \<and> (\<forall>f \<in> set (message_frames op m). wf_frame f) \<and>
    length (concat (map wire (message_frames op m))) < MAX_FRAMESIZE \<and>
    fits acc (message_frames op m) \<and> snd (reassemble acc (message_frames op m)) = [delivered m]"
proof (cases "length m < SLICE_SIZE")
  case True
  have op0: "op \<noteq> 0" using op by auto
  have "m \<noteq> []" using n by (auto simp: deliverable_def)
  with True op0 acc show ?thesis
    by (auto simp: message_frames_def wf_frame_def length_wire slice_consts MAX_FRAMESIZE_def
        reassemble_Cons delivered_def Let_def)
next
  case False
  then have long: "SLICE_SIZE \<le> length m" by simp
  have big: "length m \<le> 4000000" using n by (simp add: deliverable_def)
  define l where "l = length m mod SLICE_SIZE"
  have l: "0 < l" "l < SLICE_SIZE"
    using n long by (auto simp: deliverable_def l_def slice_consts)
  obtain k d where frames: "message_frames op m = middle_slices op m (Suc k) @ [last_slice m l (Suc k)]"
    and len: "(k + 1) * SLICE_SIZE + l = length m"
    and d: "f_data (last_slice m l (Suc k)) = d" "length d = l"
    and del: "take ((k + 1) * SLICE_SIZE) m @ d = delivered m"
    using sliced_frames [OF op n long] unfolding l_def by metis
  have max: "length m \<le> MAX_FRAMESIZE" using big by (simp add: MAX_FRAMESIZE_def)
  have le: "(k + 1) * SLICE_SIZE \<le> length m" using len by simp
  note mid = middle_slices_reassemble [OF op le max, of acc]
  have wf: "\<forall>f \<in> set (message_frames op m). wf_frame f"
    using middle_slices_wf [of "Suc k" m _ op] le last_slice_wf [OF d l] by (auto simp: frames)
  have "sum_list (map (\<lambda>f. length (f_data f)) (message_frames op m)) \<le> length m"
    using middle_slices_total [of op m "Suc k"] len d by (simp add: frames)
  moreover have "length (message_frames op m) = k + 2"
    by (simp add: frames middle_slices_def)
  ultimately have "length (concat (map wire (message_frames op m))) \<le> 8 * (k + 2) + length m"
    using length_concat_wires [of "message_frames op m"] by simp
  moreover have "k * 500 \<le> 4000000" using le big by (simp add: slice_consts)
  ultimately have small: "length (concat (map wire (message_frames op m))) < MAX_FRAMESIZE"
    using big by (simp add: MAX_FRAMESIZE_def)
  have "length (take ((k + 1) * SLICE_SIZE) m) + l \<le> MAX_FRAMESIZE"
    using le len max by (simp only: length_take min_absorb2)
  then have "fits acc (message_frames op m)"
    using mid d by (simp add: frames fits_append)
  moreover have "snd (reassemble acc (message_frames op m)) = [delivered m]"
    using mid d del by (simp add: frames reassemble_append reassemble_Cons)
  ultimately show ?thesis
    using wf small frames by simp
qed

section \<open>Properties of the codec\<close>

text \<open>The invariant of a \<^verbatim>\<open>WSProtocol\<close> object: the write position stays inside the buffer.\<close>

definition proto_inv :: "WSProtocol \<Rightarrow> bool" where
  "proto_inv p \<longleftrightarrow> framePos p \<le> MAX_FRAMESIZE"

lemma proto_inv_new [simp]: "proto_inv (new_WSProtocol junk)"
  by (simp add: proto_inv_def new_WSProtocol_def)

lemma res_case_Inr:
  "(case r of Inl e \<Rightarrow> Abort e | Inr s \<Rightarrow> next_round s) = Continue t \<Longrightarrow> r = Inr t \<and> 0 < d_len t"
  "(case r of Inl e \<Rightarrow> Abort e | Inr s \<Rightarrow> next_round s) = Break t \<Longrightarrow> r = Inr t \<and> d_len t \<le> 0"
  by (auto simp: next_round_def split: sum.splits if_splits)

lemma unmask_at_Inr:
  "unmask_at h off n s = Inr t \<Longrightarrow> \<exists>m. t = s\<lparr>d_mem := m\<rparr>"
  by (auto simp: unmask_at_def res_bind_eq_Inr split: if_splits intro: exI [of _ "d_mem s"])

lemma unmask_final_Inr:
  "unmask_final h payl n s = Inr t \<Longrightarrow> \<exists>m. t = s\<lparr>d_mem := m\<rparr>"
  by (auto simp: unmask_final_def dest: unmask_at_Inr split: option.splits intro: exI [of _ "d_mem s"])

text \<open>What one round of the loop does to the length and the buffer position.\<close>

lemma decode_final_result:
  assumes "decode_final h s = Continue t \<or> decode_final h s = Break t"
  shows "(proto_inv (d_proto s) \<longrightarrow> proto_inv (d_proto t)) \<and>
     (d_len t \<le> d_len s - 6 \<or>
      d_len t = d_len s \<and> d_pos t = d_pos s \<and> unat (PayloadLen h) = LONG_LENGTH \<and> maskBit h \<noteq> 1)"
proof -
  from assms obtain payl n used u v xs where layout: "final_layout h s = Inr (payl, n, used)"
    and u: "unmask_final h payl n (advance used s) = Inr u" and xs: "payload_bytes u payl n = Inr xs"
    and t: "(if Opcode h = opcode_val eContinueFrame
        then res_bind (frameBuff_write (d_proto u) xs) (\<lambda>p. Inr (emit (frameBuff_read p) (u\<lparr>d_proto := p\<rparr>)))
        else Inr (emit xs u)) = Inr t"
    unfolding decode_final_def abort_or_def
    by (auto dest!: res_case_Inr simp: res_bind_eq_Inr split: prod.splits)
  obtain m where u': "u = (advance used s)\<lparr>d_mem := m\<rparr>"
    using unmask_final_Inr [OF u] by blast
  have t': "d_len t = d_len s - int used" "d_pos t = d_pos s + used"
    using t by (auto simp: u' res_bind_eq_Inr split: if_splits)
  have inv: "proto_inv (d_proto s) \<longrightarrow> proto_inv (d_proto t)"
    using t by (auto simp: u' res_bind_eq_Inr proto_inv_def framePos_bound split: if_splits)
  have "6 \<le> used \<or> used = 0 \<and> payl = None \<and> unat (PayloadLen h) = LONG_LENGTH"
  proof -
    have "unat (PayloadLen h) < 128" using unsigned_less [of "PayloadLen h"] by simp
    then have "unat (PayloadLen h) = 127" if "126 < unat (PayloadLen h)" using that by simp
    then show ?thesis
      using layout
      by (auto simp: final_layout_def res_bind_eq_Inr slice_consts LONG_LENGTH_def split: if_splits)
  qed
  moreover have "maskBit h \<noteq> 1" if "payl = None"
    using u that by (simp add: unmask_final_def)
  ultimately show ?thesis using t' inv by auto
qed

lemma decode_fragment_result:
  assumes "decode_fragment h s = Continue t \<or> decode_fragment h s = Break t"
  shows "proto_inv (d_proto t) \<and> d_len t \<le> d_len s - 8"
proof -
  define s0 where "s0 = (if Opcode h = opcode_val eTextFrame \<or> Opcode h = opcode_val eBlobFrame
                 then s\<lparr>d_proto := \<lparr>frameBuff = (\<lambda>i. 0), framePos = 0\<rparr>\<rparr> else s)"
  from assms obtain n u xs p where u: "unmask_at h (d_pos s0 + 8) n s0 = Inr u"
    and p: "frameBuff_write (d_proto u) xs = Inr p" and t: "t = advance (n + 8) (u\<lparr>d_proto := p\<rparr>)"
    unfolding decode_fragment_def abort_or_def s0_def [symmetric] Let_def
    by (auto dest!: res_case_Inr simp: res_bind_eq_Inr)
  from unmask_at_Inr [OF u] have "d_len u = d_len s"
    by (auto simp: s0_def)
  with t p show ?thesis
    by (simp add: proto_inv_def framePos_bound)
qed

end
