(* ===== verification/CodecProperties.thy ===== *)
theory CodecProperties
  imports FrameRoundTrip
begin

text \<open>
  The contract of the codec as its callers use it (locale \<open>message_codec\<close>, interpreted on
  \<^verbatim>\<open>encodeFrame\<close> and \<^verbatim>\<open>decodeFrame\<close>), the condition under which \<^verbatim>\<open>decodeFrame\<close> returns, and the
  properties of the protocol component.
\<close>

section \<open>When the decoder returns\<close>

inductive dec_step :: "dec_state \<Rightarrow> dec_state \<Rightarrow> bool" where
  round: "decode_iter s = Continue t \<Longrightarrow> dec_step s t"

inductive_cases dec_stepE: "dec_step s t"
inductive_simps dec_step_iff: "dec_step s t"

text \<open>
  A header with FIN = 1, \<open>PayloadLen = 127\<close> and no mask bit while \<open>len\<close> is still positive: the
  code for the 64-bit length is missing, so the round consumes nothing.
\<close>

definition stuck :: "dec_state \<Rightarrow> bool" where
  "stuck s \<longleftrightarrow> proto_inv (d_proto s) \<and> 0 < d_len s \<and>
     (\<exists>bs. load (d_mem s) (d_pos s) 2 = Inr bs \<and> FIN (head_load bs) = 1 \<and>
        unat (PayloadLen (head_load bs)) = LONG_LENGTH \<and> maskBit (head_load bs) \<noteq> 1)"

lemma advance_0 [simp]: "advance 0 s = s"
  by (simp add: advance_def)

lemma frameBuff_write_Nil: "proto_inv p \<Longrightarrow> \<exists>q. frameBuff_write p [] = Inr q \<and> proto_inv q"
  by (auto simp: frameBuff_write_def proto_inv_def)

lemma stuck_iter:
  assumes "stuck s"
  shows "\<exists>t. decode_iter s = Continue t \<and> stuck t"
proof -
  from assms obtain bs where bs: "load (d_mem s) (d_pos s) 2 = Inr bs"
    and h: "FIN (head_load bs) = 1" "unat (PayloadLen (head_load bs)) = LONG_LENGTH" "maskBit (head_load bs) \<noteq> 1"
    and s: "proto_inv (d_proto s)" "0 < d_len s"
    by (auto simp: stuck_def)
  let ?h = "head_load bs"
  obtain q where q: "frameBuff_write (d_proto s) [] = Inr q" "proto_inv q"
    using frameBuff_write_Nil [OF s(1)] by blast
  let ?t = "if Opcode ?h = opcode_val eContinueFrame
    then emit (frameBuff_read q) (s\<lparr>d_proto := q\<rparr>) else emit [] s"
  have "final_layout ?h s = Inr (None, 0, 0)"
    using h(2) by (simp add: final_layout_def slice_consts LONG_LENGTH_def)
  then have "decode_iter s = next_round ?t"
    using h by (simp add: decode_iter_def bs Let_def decode_final_def unmask_final_def
        payload_bytes_def q(1) abort_or_def)
  moreover have "stuck ?t"
    using bs h s q by (auto simp: stuck_def)
  moreover have "next_round ?t = Continue ?t"
    using s by (simp add: next_round_def)
  ultimately show ?thesis by auto
qed

lemma stuck_diverges: "stuck s \<Longrightarrow> decode_loop s = None"
proof (rule ccontr)
  assume "stuck s" and "decode_loop s \<noteq> None"
  then obtain r where r: "decode_loop s = Some r" by auto
  have "\<not> stuck s"
  proof (rule decode_loop.raw_induct [where P = "\<lambda>s r. \<not> stuck s", OF _ r])
    fix f s r
    assume IH: "\<And>s r. f s = Some r \<Longrightarrow> \<not> stuck s"
      and eq: "(case decode_iter s of Continue t \<Rightarrow> f t | Break t \<Rightarrow> Some (Inr t)
        | Abort e \<Rightarrow> Some (Inl e)) = Some r"
    show "\<not> stuck s"
    proof
      assume "stuck s"
      then obtain t where "decode_iter s = Continue t" "stuck t"
        using stuck_iter by blast
      with eq IH [of t r] show False by simp
    qed
  qed
  with \<open>stuck s\<close> show False by simp
qed

lemma dec_step_loop: "dec_step s t \<Longrightarrow> decode_loop s = decode_loop t"
  by (auto elim!: dec_stepE simp: decode_loop.simps [of s])

lemma dec_steps_loop: "dec_step\<^sup>*\<^sup>* s t \<Longrightarrow> decode_loop s = decode_loop t"
  by (induction rule: rtranclp_induct) (auto simp: dec_step_loop)

lemma decode_iter_Continue:
  assumes "decode_iter s = Continue t" and "proto_inv (d_proto s)"
  shows "proto_inv (d_proto t) \<and> 0 < d_len t \<and> (d_len t \<le> d_len s - 6 \<or> stuck s)"
proof -
  from assms(1) obtain bs where bs: "load (d_mem s) (d_pos s) 2 = Inr bs"
    by (auto simp: decode_iter_def split: sum.splits)
  let ?h = "head_load bs"
  have pos: "0 < d_len t"
    using assms(1) bs
    by (auto simp: decode_iter_def Let_def decode_final_def decode_fragment_def abort_or_def
        dest!: res_case_Inr(1) split: if_splits)
  show ?thesis
  proof (cases "FIN ?h = 1")
    case True
    with assms bs have "decode_final ?h s = Continue t"
      by (simp add: decode_iter_def)
    with decode_final_result [of ?h s t] show ?thesis
      using assms bs True pos by (auto simp: stuck_def)
  next
    case False
    with assms bs have "decode_fragment ?h s = Continue t"
      by (simp add: decode_iter_def)
    with decode_fragment_result [of ?h s t] pos show ?thesis by auto
  qed
qed

lemma decode_loop_returns:
  assumes "proto_inv (d_proto s)" and "\<And>t. dec_step\<^sup>*\<^sup>* s t \<Longrightarrow> \<not> stuck t"
  shows "\<exists>r. decode_loop s = Some r"
  using assms
proof (induction "nat (d_len s)" arbitrary: s rule: less_induct)
  case less
  show ?case
  proof (cases "decode_iter s")
    case (Continue t)
    then have step: "dec_step s t" by (rule dec_step.round)
    have ns: "\<not> stuck s" using less.prems(2) by blast
    from decode_iter_Continue [OF Continue less.prems(1)] ns
    have "proto_inv (d_proto t)" and "nat (d_len t) < nat (d_len s)" by auto
    moreover have "\<not> stuck u" if "dec_step\<^sup>*\<^sup>* t u" for u
      using less.prems(2) step that by (meson converse_rtranclp_into_rtranclp)
    ultimately obtain r where "decode_loop t = Some r"
      using less.hyps [of t] by blast
    with dec_step_loop [OF step] show ?thesis by auto
  qed (simp_all add: decode_loop.simps [of s])
qed

definition dec_init :: "WSProtocol \<Rightarrow> byte list \<Rightarrow> int \<Rightarrow> dec_state" where
  "dec_init p mem len = \<lparr>d_mem = mem, d_pos = 0, d_len = len, d_proto = p, d_out = []\<rparr>"

lemma dec_init_simps [simp]:
  "d_mem (dec_init p mem len) = mem" "d_pos (dec_init p mem len) = 0" "d_len (dec_init p mem len) = len"
  "d_proto (dec_init p mem len) = p" "d_out (dec_init p mem len) = []"
  by (simp_all add: dec_init_def)

lemma decodeFrame_init:
  "decodeFrame p mem len =
     (if len < int MAX_FRAMESIZE then decode_loop (dec_init p mem len) else Some (Inl AssertFail))"
  by (simp add: decodeFrame_def dec_init_def)

text \<open>
  C20. \<^verbatim>\<open>decodeFrame\<close> fails to return exactly when, on its way through the input, it meets an
  unmasked final header with the length code 127 before the input is used up. Every other input,
  however malformed, makes it return or abort.
\<close>

theorem decodeFrame_diverges_iff:
  assumes "proto_inv p" and "len < int MAX_FRAMESIZE"
  shows "decodeFrame p mem len = None \<longleftrightarrow> (\<exists>t. dec_step\<^sup>*\<^sup>* (dec_init p mem len) t \<and> stuck t)"
  using assms stuck_diverges dec_steps_loop decode_loop_returns [of "dec_init p mem len"]
  by (fastforce simp: decodeFrame_init)

theorem decodeFrame_diverges_iff_witness:
  "decodeFrame (new_WSProtocol (\<lambda>_. 0)) [0x11, 0xFE, 0] 2 = None \<longleftrightarrow>
     (\<exists>t. dec_step\<^sup>*\<^sup>* (dec_init (new_WSProtocol (\<lambda>_. 0)) [0x11, 0xFE, 0] 2) t \<and> stuck t)"
  by (rule decodeFrame_diverges_iff) (simp_all add: MAX_FRAMESIZE_def)

text \<open>Two bytes are enough: the divergence is reachable from any object.\<close>

lemma decodeFrame_127_hangs:
  assumes "proto_inv p"
  shows "decodeFrame p (0x11 # 0xFE # rest) 2 = None"
proof -
  have "stuck (dec_init p (0x11 # 0xFE # rest) 2)"
    using assms by (auto simp: stuck_def load_def head_load_def LONG_LENGTH_def)
  then show ?thesis
    using stuck_diverges by (simp add: decodeFrame_init MAX_FRAMESIZE_def)
qed

section \<open>The contract of the codec\<close>

text \<open>
  \<open>feed\<close> is the receiving side of a connection: one \<open>dec\<close> per read, the decoder's state kept
  between reads.
\<close>

fun feed :: "('s \<Rightarrow> 'b list \<Rightarrow> ('s \<times> 'd list) option) \<Rightarrow> 's \<Rightarrow> 'b list list \<Rightarrow> ('s \<times> 'd list) option" where
  "feed dec s [] = Some (s, [])"
| "feed dec s (bs # reads) =
     (case dec s bs of
        None \<Rightarrow> None
      | Some (t, out) \<Rightarrow> map_option (\<lambda>(u, more). (u, out @ more)) (feed dec t reads))"

text \<open>
  The law of the interface: decoding the encodings of some messages in one go delivers each of
  them, in order. The client's lemma: it does not matter how the sender's messages are grouped
  into reads, as long as a read ends where a message ends.
\<close>

locale message_codec =
  fixes enc :: "'m \<Rightarrow> 'b list"
    and dec :: "'s \<Rightarrow> 'b list \<Rightarrow> ('s \<times> 'd list) option"
    and deliver :: "'m \<Rightarrow> 'd"
    and inv :: "'s \<Rightarrow> bool"
    and good :: "'m \<Rightarrow> bool"
    and small :: "'b list \<Rightarrow> bool"
  assumes dec_batch:
    "inv s \<Longrightarrow> ms \<noteq> [] \<Longrightarrow> \<forall>m \<in> set ms. good m \<Longrightarrow> small (concat (map enc ms)) \<Longrightarrow>
       \<exists>t. dec s (concat (map enc ms)) = Some (t, map deliver ms) \<and> inv t"
begin

lemma feed_groups:
  assumes "inv s" and "\<forall>g \<in> set groups. g \<noteq> [] \<and> (\<forall>m \<in> set g. good m) \<and> small (concat (map enc g))"
  shows "\<exists>t. feed dec s (map (\<lambda>g. concat (map enc g)) groups) = Some (t, map deliver (concat groups)) \<and> inv t"
  using assms
proof (induction groups arbitrary: s)
  case Nil
  then show ?case by simp
next
  case (Cons g groups)
  then obtain t where t: "dec s (concat (map enc g)) = Some (t, map deliver g)" "inv t"
    using dec_batch [of s g] by auto
  from Cons.IH [OF t(2)] Cons.prems(2) obtain u where
    "feed dec t (map (\<lambda>g. concat (map enc g)) groups) = Some (u, map deliver (concat groups))" "inv u"
    by auto
  with t show ?case by simp
qed

lemma feed_one_by_one:
  assumes "inv s" and "\<forall>m \<in> set ms. good m \<and> small (enc m)"
  shows "\<exists>t. feed dec s (map enc ms) = Some (t, map deliver ms) \<and> inv t"
  using feed_groups [of s "map (\<lambda>m. [m]) ms"] assms by (simp add: comp_def)

end

text \<open>
  The model's instance: a message is a type and a payload, the encoder is \<^verbatim>\<open>encodeFrame\<close>, and a read
  hands \<^verbatim>\<open>decodeFrame\<close> the bytes of a \<^verbatim>\<open>std::string\<close>, which end in a NUL outside their length.
\<close>

definition ws_enc :: "WSHead \<Rightarrow> OpCode \<times> byte list \<Rightarrow> byte list" where
  "ws_enc header0 m =
     (case encodeFrame header0 (snd m) (int (length (snd m))) (fst m) of
        Inl _ \<Rightarrow> []
      | Inr (_, fs) \<Rightarrow> concat fs)"

definition ws_dec :: "WSProtocol \<Rightarrow> byte list \<Rightarrow> (WSProtocol \<times> byte list list) option" where
  "ws_dec p bs =
     (case decodeFrame p (bs @ [0]) (int (length bs)) of
        Some (Inr t) \<Rightarrow> Some (d_proto t, d_out t)
      | _ \<Rightarrow> None)"

definition ws_good :: "OpCode \<times> byte list \<Rightarrow> bool" where
  "ws_good m \<longleftrightarrow> (fst m = eTextFrame \<or> fst m = eBlobFrame) \<and> deliverable (length (snd m))"

lemma ws_enc_frames:
  "ws_good m \<Longrightarrow> ws_enc header0 m = concat (map wire (message_frames (opcode_val (fst m)) (snd m)))"
  using encodeFrame_data [of "fst m" "length (snd m)" "snd m" header0]
  by (simp add: ws_enc_def ws_good_def deliverable_def)

lemma fits_bound:
  "fits acc fs \<Longrightarrow> length acc \<le> MAX_FRAMESIZE \<Longrightarrow> length (fst (reassemble acc fs)) \<le> MAX_FRAMESIZE"
  by (induction fs arbitrary: acc) (auto simp: reassemble_Cons simp del: absorb.simps)

lemma data_opcode: "type = eTextFrame \<or> type = eBlobFrame \<Longrightarrow> opcode_val type = 1 \<or> opcode_val type = 2"
  by auto

lemma ws_batch_frames:
  assumes "\<forall>m \<in> set ms. ws_good m" and "length acc \<le> MAX_FRAMESIZE"
  defines "fs \<equiv> concat (map (\<lambda>m. message_frames (opcode_val (fst m)) (snd m)) ms)"
  shows "(\<forall>f \<in> set fs. wf_frame f) \<and> fits acc fs \<and> snd (reassemble acc fs) = map (\<lambda>m. delivered (snd m)) ms"
  using assms(1,2) unfolding fs_def
proof (induction ms arbitrary: acc)
  case Nil
  then show ?case by simp
next
  case (Cons m ms)
  let ?f = "message_frames (opcode_val (fst m)) (snd m)"
  have "opcode_val (fst m) = 1 \<or> opcode_val (fst m) = 2" "deliverable (length (snd m))"
    using Cons.prems(1) data_opcode by (auto simp: ws_good_def)
  note m = message_frames_spec [OF this Cons.prems(2)]
  from m Cons.prems(2) have "length (fst (reassemble acc ?f)) \<le> MAX_FRAMESIZE"
    by (intro fits_bound) auto
  with Cons have IH: "(\<forall>f \<in> set (concat (map (\<lambda>m. message_frames (opcode_val (fst m)) (snd m)) ms)). wf_frame f) \<and>
      fits (fst (reassemble acc ?f)) (concat (map (\<lambda>m. message_frames (opcode_val (fst m)) (snd m)) ms)) \<and>
      snd (reassemble (fst (reassemble acc ?f)) (concat (map (\<lambda>m. message_frames (opcode_val (fst m)) (snd m)) ms)))
        = map (\<lambda>m. delivered (snd m)) ms"
    by simp
  with m show ?case
    by (auto simp: fits_append reassemble_append)
qed

lemma concat_wires_batch:
  "concat (map wire (concat (map F ms))) = concat (map (\<lambda>m. concat (map wire (F m))) ms)"
  by (induction ms) simp_all

interpretation codec: message_codec "ws_enc header0" ws_dec "\<lambda>m. delivered (snd m)" proto_inv ws_good
    "\<lambda>bs. length bs < MAX_FRAMESIZE" for header0
proof unfold_locales
  fix p ms
  assume inv: "proto_inv p" and ne: "ms \<noteq> []" and good: "\<forall>m \<in> set ms. ws_good m"
    and small: "length (concat (map (ws_enc header0) ms)) < MAX_FRAMESIZE"
  let ?fs = "concat (map (\<lambda>m. message_frames (opcode_val (fst m)) (snd m)) ms)"
  have bytes: "concat (map (ws_enc header0) ms) = concat (map wire ?fs)"
    using good by (simp add: concat_wires_batch ws_enc_frames cong: map_cong)
  have "length (frameBuff_read p) \<le> MAX_FRAMESIZE" using inv by (simp add: proto_inv_def)
  note fs = ws_batch_frames [OF good this]
  have "?fs \<noteq> []"
  proof -
    obtain m ms' where "ms = m # ms'" using ne by (cases ms) auto
    then show ?thesis
      using good message_frames_spec [of "opcode_val (fst m)" "snd m" "[]"] data_opcode [of "fst m"]
      by (auto simp: ws_good_def)
  qed
  from decodeFrame_wires [OF this, of p "[0]"] fs small obtain t where
    t: "decodeFrame p (concat (map wire ?fs) @ [0]) (int (length (concat (map wire ?fs)))) = Some (Inr t)"
    "frameBuff_read (d_proto t) = fst (reassemble (frameBuff_read p) ?fs)"
    "d_out t = map (\<lambda>m. delivered (snd m)) ms"
    unfolding bytes by auto
  have "length (frameBuff_read (d_proto t)) \<le> MAX_FRAMESIZE"
    unfolding t(2) using fs inv by (intro fits_bound) (auto simp: proto_inv_def)
  then have "proto_inv (d_proto t)" by (simp add: proto_inv_def)
  then show "\<exists>t. ws_dec p (concat (map (ws_enc header0) ms)) = Some (t, map (\<lambda>m. delivered (snd m)) ms) \<and> proto_inv t"
    unfolding bytes ws_dec_def using t by (auto simp del: length_concat)
qed

section \<open>Messages through the codec\<close>

lemma decode_iter_Break:
  assumes "decode_iter s = Break t" and "proto_inv (d_proto s)"
  shows "proto_inv (d_proto t) \<and> d_len t \<le> 0"
proof -
  from assms(1) obtain bs where bs: "load (d_mem s) (d_pos s) 2 = Inr bs"
    by (auto simp: decode_iter_def split: sum.splits)
  let ?h = "head_load bs"
  have "d_len t \<le> 0"
    using assms(1) bs
    by (auto simp: decode_iter_def Let_def decode_final_def decode_fragment_def abort_or_def
        dest!: res_case_Inr(2) split: if_splits)
  moreover have "proto_inv (d_proto t)"
    using assms bs decode_final_result [of ?h s t] decode_fragment_result [of ?h s t]
    by (auto simp: decode_iter_def Let_def split: if_splits)
  ultimately show ?thesis by simp
qed

text \<open>The buffer position of the object stays inside the buffer, whatever bytes arrive.\<close>

lemma decode_loop_inv:
  assumes "decode_loop s = Some (Inr t)" and "proto_inv (d_proto s)"
  shows "proto_inv (d_proto t) \<and> d_len t \<le> 0"
proof -
  have "\<forall>t. r = Inr t \<longrightarrow> proto_inv (d_proto s) \<longrightarrow> proto_inv (d_proto t) \<and> d_len t \<le> 0"
    if r: "decode_loop s = Some r" for r
  proof (rule decode_loop.raw_induct [where
        P = "\<lambda>s r. \<forall>t. r = Inr t \<longrightarrow> proto_inv (d_proto s) \<longrightarrow> proto_inv (d_proto t) \<and> d_len t \<le> 0", OF _ r])
    fix f s r
    assume IH: "\<And>s r. f s = Some r \<Longrightarrow>
        \<forall>t. r = Inr t \<longrightarrow> proto_inv (d_proto s) \<longrightarrow> proto_inv (d_proto t) \<and> d_len t \<le> 0"
      and eq: "(case decode_iter s of Continue t \<Rightarrow> f t | Break t \<Rightarrow> Some (Inr t)
        | Abort e \<Rightarrow> Some (Inl e)) = Some r"
    show "\<forall>t. r = Inr t \<longrightarrow> proto_inv (d_proto s) \<longrightarrow> proto_inv (d_proto t) \<and> d_len t \<le> 0"
    proof (cases "decode_iter s")
      case (Continue u)
      with eq have "f u = Some r" by simp
      from IH [OF this] decode_iter_Continue [OF Continue] show ?thesis by auto
    next
      case (Break u)
      with eq have "r = Inr u" by simp
      with decode_iter_Break [OF Break] show ?thesis by auto
    next
      case (Abort e)
      with eq show ?thesis by auto
    qed
  qed
  with assms show ?thesis by blast
qed

text \<open>
  C21. Whatever bytes arrive, a call of \<^verbatim>\<open>decodeFrame\<close> that returns leaves the write position inside
  the 4 MiB reassembly buffer, and has used up all the input it was given.
\<close>

theorem decodeFrame_keeps_inv:
  assumes "proto_inv p" and "decodeFrame p mem len = Some (Inr t)"
  shows "proto_inv (d_proto t) \<and> d_len t \<le> 0"
  using assms decode_loop_inv [of "dec_init p mem len" t]
  by (auto simp: decodeFrame_init split: if_splits)

lemma message_delivered:
  assumes "type = eTextFrame \<or> type = eBlobFrame" and "deliverable n" and "n \<le> length payload"
    and "proto_inv p"
  shows "\<exists>buf frames t. encodeFrame header0 payload (int n) type = Inr (buf, frames) \<and>
     decodeFrame p (concat frames @ rest) (int (length (concat frames))) = Some (Inr t) \<and>
     d_out t = [delivered (take n payload)]"
proof -
  let ?m = "take n payload" and ?op = "opcode_val type"
  have op: "?op = 1 \<or> ?op = 2" using assms(1) by (rule data_opcode)
  have len: "length ?m = n" using assms(3) by simp
  have n: "0 < n" using assms(2) by (simp add: deliverable_def)
  have "length (frameBuff_read p) \<le> MAX_FRAMESIZE" using assms(4) by (simp add: proto_inv_def)
  from message_frames_spec [OF op _ this, of ?m] assms(2) len
  have spec: "message_frames ?op ?m \<noteq> []" "\<forall>f \<in> set (message_frames ?op ?m). wf_frame f"
    "length (concat (map wire (message_frames ?op ?m))) < MAX_FRAMESIZE"
    "fits (frameBuff_read p) (message_frames ?op ?m)"
    "snd (reassemble (frameBuff_read p) (message_frames ?op ?m)) = [delivered ?m]"
    by (auto simp del: length_concat)
  show ?thesis
    using decodeFrame_wires [OF spec(1,2,4,3), of rest] spec(5) encodeFrame_data [OF assms(1) n assms(3)]
    by (auto simp del: length_concat)
qed



text \<open>
  C2. Refinement: on the wire image of any well-formed frames that fit the reassembly buffer, the byte-level
  loop returns, passes on what the fold \<open>reassemble\<close> over the frames delivers, in order, and leaves the
  buffer content that the fold computes, whatever lies behind the input.
\<close>

theorem decode_refines:
  assumes "fs \<noteq> []" and "\<forall>f \<in> set fs. wf_frame f"
    and "fits (frameBuff_read p) fs" and "length (concat (map wire fs)) < MAX_FRAMESIZE"
  shows "\<exists>t. decodeFrame p (concat (map wire fs) @ rest) (int (length (concat (map wire fs)))) = Some (Inr t) \<and>
     (frameBuff_read (d_proto t), d_out t) = reassemble (frameBuff_read p) fs"
  using decodeFrame_wires [OF assms, of rest] by (auto simp: prod_eq_iff)

theorem decode_refines_witness:
  "\<exists>t. decodeFrame (new_WSProtocol (\<lambda>_. 1))
       (concat (map wire [data_frame False True 1 [10, 20], data_frame True False 0 [30], control_frame 0 9 [40]]) @ [0])
       (int (length (concat (map wire [data_frame False True 1 [10, 20], data_frame True False 0 [30], control_frame 0 9 [40]]))))
       = Some (Inr t) \<and>
     (frameBuff_read (d_proto t), d_out t) =
       reassemble (frameBuff_read (new_WSProtocol (\<lambda>_. 1)))
         [data_frame False True 1 [10, 20], data_frame True False 0 [30], control_frame 0 9 [40]]"
  by (rule decode_refines)
    (simp_all add: wf_frame_def control_frame_def length_wire MAX_FRAMESIZE_def slice_consts
      frameBuff_read_def new_WSProtocol_def)

text \<open>
  C23. When the last slice is shorter than 126 bytes the encoder copies it from one slice too early:
  the peer receives a message of the right length whose tail repeats the beginning of the slice
  before.
\<close>

theorem codec_short_tail:
  assumes "type = eTextFrame \<or> type = eBlobFrame"
    and "500 \<le> n" and "n \<le> 4000000" and "l = n mod 500" and "0 < l" and "l < 126"
    and "n \<le> length payload" and "proto_inv p"
  shows "\<exists>buf frames t. encodeFrame header0 payload (int n) type = Inr (buf, frames) \<and>
     decodeFrame p (concat frames @ rest) (int (length (concat frames))) = Some (Inr t) \<and>
     d_out t = [take (n - l) payload @ take l (drop (n - l - 500) payload)]"
proof -
  have d: "deliverable n" using assms(2-6) by (auto simp: deliverable_def SLICE_SIZE_def)
  have len: "length (take n payload) = n" using assms(7) by simp
  have "delivered (take n payload) =
      take (n - l) (take n payload) @ take l (drop (n - l - 500) (take n payload))"
    unfolding delivered_def len Let_def
    using assms(2,4,6) by (simp add: SLICE_SIZE_def)
  moreover have "take l (drop (n - l - 500) (take n payload)) = take l (drop (n - l - 500) payload)"
  proof -
    have "1 \<le> n div 500" using assms(2) by simp
    then have "l + 500 \<le> n" using assms(4) div_mult_mod_eq [of n 500] by linarith
    then show ?thesis by (simp add: drop_take)
  qed
  ultimately have "delivered (take n payload) = take (n - l) payload @ take l (drop (n - l - 500) payload)"
    by simp
  then show ?thesis
    using message_delivered [OF assms(1) d assms(7,8)] by metis
qed

theorem codec_short_tail_witness:
  "\<exists>buf frames t. encodeFrame \<lparr>FIN = 0, RSV = 5, Opcode = 9, maskBit = 0, PayloadLen = 77\<rparr>
       (map of_nat [0 ..< 501]) (int 501) eBlobFrame = Inr (buf, frames) \<and>
     decodeFrame (new_WSProtocol (\<lambda>_. 1)) (concat frames @ [0]) (int (length (concat frames))) = Some (Inr t) \<and>
     d_out t = [take (501 - 1) (map of_nat [0 ..< 501]) @ take 1 (drop (501 - 1 - 500) (map of_nat [0 ..< 501]))]"
  by (rule codec_short_tail) simp_all

text \<open>
  A message of exactly 500 bytes is sent as a single frame with FIN = 0: the peer's decoder
  returns without delivering anything.
\<close>

theorem codec_500_lost:
  assumes "type = eTextFrame \<or> type = eBlobFrame" and "500 \<le> length payload" and "proto_inv p"
  shows "\<exists>buf frames t. encodeFrame header0 payload 500 type = Inr (buf, frames) \<and>
     decodeFrame p (concat frames @ rest) (int (length (concat frames))) = Some (Inr t) \<and>
     d_out t = []"
proof -
  let ?m = "take 500 payload" and ?op = "opcode_val type"
  let ?f = "data_frame False True ?op ?m"
  have len: "length ?m = 500" using assms(2) by simp
  then have frames: "message_frames ?op ?m = [?f]"
    by (simp add: message_frames_def slice_consts Let_def middle_slices_def del: length_take)
  have wf: "wf_frame ?f" using len by (auto simp: wf_frame_def)
  have op: "?op = 1 \<or> ?op = 2" using assms(1) by (rule data_opcode)
  have fits: "fits (frameBuff_read p) [?f]" using op by (auto simp: MAX_FRAMESIZE_def)
  have small: "length (concat (map wire [?f])) < MAX_FRAMESIZE"
    using len by (simp add: length_wire MAX_FRAMESIZE_def)
  have out: "snd (reassemble (frameBuff_read p) [?f]) = []" by (simp add: reassemble_Cons)
  from decodeFrame_wires [OF _ _ fits small, of rest] wf out
  obtain t where "decodeFrame p (concat (map wire [?f]) @ rest) (int (length (concat (map wire [?f])))) = Some (Inr t)"
    "d_out t = []" by auto
  with encodeFrame_data [OF assms(1), of 500 payload header0] assms(2) frames show ?thesis
    by auto
qed

theorem codec_500_lost_witness:
  "\<exists>buf frames t. encodeFrame \<lparr>FIN = 0, RSV = 5, Opcode = 9, maskBit = 0, PayloadLen = 77\<rparr>
       (replicate 500 65) 500 eTextFrame = Inr (buf, frames) \<and>
     decodeFrame (new_WSProtocol (\<lambda>_. 1)) (concat frames @ [0]) (int (length (concat frames))) = Some (Inr t) \<and>
     d_out t = []"
  by (rule codec_500_lost) simp_all

theorem decodeFrame_keeps_inv_witness:
  "\<exists>t. decodeFrame (new_WSProtocol (\<lambda>_. 1)) [0x11, 0x02, 0, 0, 0, 0, 7] 7 = Some (Inr t) \<and>
     proto_inv (d_proto t) \<and> d_len t \<le> 0"
proof -
  have "\<exists>t. decodeFrame (new_WSProtocol (\<lambda>_. 1)) [0x11, 0x02, 0, 0, 0, 0, 7] 7 = Some (Inr t)"
    by (simp add: decodeFrame_def MAX_FRAMESIZE_def decode_loop.simps decode_iter_def load_def
        head_load_def Let_def decode_final_def final_layout_def slice_consts unmask_final_def
        unmask_at_def payload_bytes_def abort_or_def next_round_def advance_def emit_def)
  then show ?thesis
    using decodeFrame_keeps_inv [of "new_WSProtocol (\<lambda>_. 1)"] by fastforce
qed

end
