(* ===== verification/ControlFrames.thy ===== *)
theory ControlFrames
  imports CodecProperties
begin

text \<open>
  The codec away from the plain data messages: payloads of a multiple of 500 bytes, ping, pong and
  close frames, buffers that are encoded twice, and messages grouped into reads.
\<close>

section \<open>Stopping in the middle of the input\<close>

lemma decode_loop_prefix:
  assumes "\<forall>f \<in> set fs. wf_frame f"
    and "drop (d_pos s) (d_mem s) = concat (map wire fs) @ rest"
    and "d_len s = int (length (concat (map wire fs))) + k" and "0 < k"
    and "fits (frameBuff_read (d_proto s)) fs"
  shows "\<exists>t. decode_loop s = decode_loop t \<and> drop (d_pos t) (d_mem t) = rest \<and> d_len t = k \<and>
     frameBuff_read (d_proto t) = fst (reassemble (frameBuff_read (d_proto s)) fs)"
  using assms
proof (induction fs arbitrary: s)
  case Nil
  then show ?case by auto
next
  case (Cons f fs)
  have at: "drop (d_pos s) (d_mem s) = wire f @ concat (map wire fs) @ rest"
    using Cons.prems(2) by simp
  have fits: "fits (frameBuff_read (d_proto s)) [f]" using Cons.prems(5) by simp
  from decode_iter_wire [OF _ at fits] Cons.prems(1) obtain t where
    t: "decode_iter s = next_round t" and took: "took f (concat (map wire fs) @ rest) s t"
    by auto
  have len: "d_len t = int (length (concat (map wire fs))) + k"
    using took Cons.prems(3) by (simp add: took_def)
  then have "0 < d_len t" using Cons.prems(4) by linarith
  then have loop: "decode_loop s = decode_loop t"
    using t by (simp add: decode_loop.simps [of s] next_round_def)
  have "\<exists>u. decode_loop t = decode_loop u \<and> drop (d_pos u) (d_mem u) = rest \<and> d_len u = k \<and>
      frameBuff_read (d_proto u) = fst (reassemble (frameBuff_read (d_proto t)) fs)"
    using Cons.prems(1,4,5) took len
    by (intro Cons.IH) (auto simp: took_def simp del: absorb.simps)
  with took show ?case
    by (auto simp: loop took_def reassemble_Cons simp del: absorb.simps)
qed

text \<open>A final frame with a masked payload of length zero meets the assert of \<^verbatim>\<open>computeUnMask\<close>.\<close>

lemma decode_loop_empty_final:
  assumes "drop (d_pos s) (d_mem s) = short_frame h [] @ rest"
    and "FIN h = 1" and "maskBit h = 1" and "PayloadLen h = 0"
  shows "decode_loop s = Some (Inl AssertFail)"
proof -
  have all: "drop (d_pos s) (d_mem s) = head_store h @ le32 MASK_CODE @ rest"
    using assms(1) by (simp add: short_frame_def)
  have "load (d_mem s) (d_pos s) 2 = Inr (head_store h)"
    using all by (intro at_load [where xs = "[]"]) simp_all
  moreover have "d_pos s + 6 \<le> length (d_mem s)"
    using drop_eq_append_length [of "d_pos s" "d_mem s" "head_store h @ le32 MASK_CODE" rest] all
    by (simp add: head_store_def)
  ultimately have "decode_iter s = Abort AssertFail"
    using assms(2-4)
    by (simp add: decode_iter_def Let_def decode_final_def final_layout_def slice_consts
        unmask_final_def unmask_at_def advance_def load_def computeUnMask_eq abort_or_def)
  then show ?thesis by (simp add: decode_loop.simps [of s])
qed

lemma message_frames_multiple:
  assumes "length m = Suc (Suc j) * SLICE_SIZE"
  shows "message_frames op m = middle_slices op m (Suc j) @ [last_slice m 0 (Suc j)]"
proof -
  have "length m div SLICE_SIZE = Suc (Suc j)" "length m mod SLICE_SIZE = 0"
    by (simp_all add: assms SLICE_SIZE_def)
  moreover have "\<not> length m < SHORT_LENGTH" "\<not> length m < SLICE_SIZE"
    by (simp_all add: assms slice_consts)
  ultimately show ?thesis by (simp add: message_frames_def Let_def)
qed

text \<open>
  C24. A message of \<open>k * 500\<close> bytes with \<open>k \<ge> 2\<close> ends in a frame without payload; the peer that
  decodes it runs into the assert of \<^verbatim>\<open>computeUnMask\<close> and aborts.
\<close>

theorem codec_multiple_aborts:
  assumes "type = eTextFrame \<or> type = eBlobFrame"
    and "2 \<le> k" and "n = k * 500" and "n \<le> 4000000" and "n \<le> length payload" and "proto_inv p"
  shows "\<exists>buf frames. encodeFrame header0 payload (int n) type = Inr (buf, frames) \<and>
     decodeFrame p (concat frames @ rest) (int (length (concat frames))) = Some (Inl AssertFail)"
proof -
  let ?m = "take n payload" and ?op = "opcode_val type"
  have len: "length ?m = n" using assms(5) by simp
  obtain j where k: "k = Suc (Suc j)" using assms(2) by (metis add_2_eq_Suc le_Suc_ex)
  let ?fs = "middle_slices ?op ?m (Suc j)" and ?last = "last_slice ?m 0 (Suc j)"
  have "n div SLICE_SIZE = k" "n mod SLICE_SIZE = 0" by (simp_all add: assms(3) SLICE_SIZE_def)
  with len k assms(3) have msg: "message_frames ?op ?m = ?fs @ [?last]"
    by (intro message_frames_multiple) (simp_all add: SLICE_SIZE_def del: length_take)
  have op: "?op = 1 \<or> ?op = 2" using assms(1) by (rule data_opcode)
  have le: "(j + 1) * SLICE_SIZE \<le> length ?m" unfolding len by (simp add: assms(3) k SLICE_SIZE_def)
  have max: "length ?m \<le> MAX_FRAMESIZE" unfolding len using assms(4) by (simp add: MAX_FRAMESIZE_def)
  note mid = middle_slices_reassemble [OF op le max, of "frameBuff_read p"]
  have wf: "\<forall>f \<in> set ?fs. wf_frame f"
    using middle_slices_wf [of "Suc j" ?m _ ?op] le by auto
  have last: "wire ?last = short_frame (frame_head ?last) []"
    by (simp add: wire_def last_slice_def data_frame_def)
  have "sum_list (map (\<lambda>f. length (f_data f)) ?fs) \<le> n"
    using middle_slices_total [of ?op ?m "Suc j"] le unfolding len by simp
  moreover have "length ?fs = Suc j" by (simp add: middle_slices_def)
  ultimately have "length (concat (map wire ?fs)) \<le> 8 * Suc j + n"
    using length_concat_wires [of ?fs] by simp
  moreover have "Suc j \<le> 8000" using assms(3,4) by (simp add: k)
  ultimately have small: "length (concat (map wire (?fs @ [?last]))) < MAX_FRAMESIZE"
    using assms(4) by (simp add: MAX_FRAMESIZE_def last)
  define s where "s = dec_init p (concat (map wire (?fs @ [?last])) @ rest)
    (int (length (concat (map wire (?fs @ [?last])))))"
  have "\<exists>t. decode_loop s = decode_loop t \<and> drop (d_pos t) (d_mem t) = wire ?last @ rest \<and> d_len t = 6 \<and>
     frameBuff_read (d_proto t) = fst (reassemble (frameBuff_read (d_proto s)) ?fs)"
    using wf mid by (intro decode_loop_prefix) (simp_all add: s_def last)
  then obtain t where t: "decode_loop s = decode_loop t" "drop (d_pos t) (d_mem t) = wire ?last @ rest"
    by blast
  have "decode_loop t = Some (Inl AssertFail)"
    using t(2) unfolding last
    by (rule decode_loop_empty_final) (simp_all add: frame_head_def last_slice_def data_frame_def)
  with t(1) small have "decodeFrame p (concat (map wire (?fs @ [?last])) @ rest)
      (int (length (concat (map wire (?fs @ [?last]))))) = Some (Inl AssertFail)"
    by (simp add: decodeFrame_init s_def del: length_concat)
  moreover have "0 < n" using assms(2,3) by simp
  ultimately show ?thesis
    using encodeFrame_data [OF assms(1) _ assms(5), of header0] msg by auto
qed

theorem codec_multiple_aborts_witness:
  "\<exists>buf frames. encodeFrame \<lparr>FIN = 0, RSV = 5, Opcode = 9, maskBit = 0, PayloadLen = 77\<rparr>
       (replicate 1000 65) (int 1000) eTextFrame = Inr (buf, frames) \<and>
     decodeFrame (new_WSProtocol (\<lambda>_. 1)) (concat frames @ [0]) (int (length (concat frames))) = Some (Inl AssertFail)"
  by (rule codec_multiple_aborts [where k = 2]) simp_all

section \<open>Ping, pong and close\<close>

lemma control_frame_delivered:
  assumes "op \<noteq> 0" and "op \<noteq> 1" and "op \<noteq> 2" and "d \<noteq> []" and "length d < SHORT_LENGTH" and "proto_inv p"
  shows "\<exists>t. decodeFrame p (wire (control_frame r op d) @ rest) (int (length (wire (control_frame r op d)))) = Some (Inr t) \<and>
     d_out t = [d] \<and> frameBuff_read (d_proto t) = frameBuff_read p"
  using decodeFrame_wires [of "[control_frame r op d]" p rest] assms
  by (auto simp: wf_frame_def control_frame_def length_wire proto_inv_def reassemble_Cons slice_consts
      MAX_FRAMESIZE_def)

text \<open>
  A ping or pong frame with 1 to 125 bytes is delivered unchanged, whatever the stack left in the
  RSV bits of its header, and it does not disturb a message that is being reassembled.
\<close>

theorem ping_pong_roundtrip:
  assumes "type = ePingFrame \<or> type = ePongFrame"
    and "0 < n" and "n < 126" and "n \<le> length payload" and "proto_inv p"
  shows "\<exists>buf frames t. encodeFrame header0 payload (int n) type = Inr (buf, frames) \<and>
     decodeFrame p (concat frames @ rest) (int (length (concat frames))) = Some (Inr t) \<and>
     d_out t = [take n payload] \<and> frameBuff_read (d_proto t) = frameBuff_read p"
proof -
  let ?d = "take n payload"
  have d: "?d \<noteq> []" "length ?d < SHORT_LENGTH"
    using assms(2-4) by (auto simp: slice_consts)
  have op: "opcode_val type \<noteq> 0" "opcode_val type \<noteq> 1" "opcode_val type \<noteq> 2"
    using assms(1) by auto
  show ?thesis
    using control_frame_delivered [OF op d assms(5), of "RSV header0" rest]
      encodeFrame_ping_pong [OF assms(1,2,4), of header0] assms(3)
    by (auto simp: slice_consts)
qed

theorem ping_pong_roundtrip_witness:
  "\<exists>buf frames t. encodeFrame \<lparr>FIN = 0, RSV = 5, Opcode = 9, maskBit = 0, PayloadLen = 77\<rparr>
       [80, 73, 78, 71] (int 4) ePingFrame = Inr (buf, frames) \<and>
     decodeFrame (new_WSProtocol (\<lambda>_. 1)) (concat frames @ [0]) (int (length (concat frames))) = Some (Inr t) \<and>
     d_out t = [take 4 [80, 73, 78, 71]] \<and>
     frameBuff_read (d_proto t) = frameBuff_read (new_WSProtocol (\<lambda>_. 1))"
  by (rule ping_pong_roundtrip) simp_all

lemma unmasked_delivered:
  assumes "FIN h = 1" and "maskBit h \<noteq> 1" and "Opcode h \<noteq> 0"
    and "unat (PayloadLen h) = length d" and "length d < SHORT_LENGTH"
  shows "\<exists>t. decodeFrame p (short_frame h d @ rest) (int (length (short_frame h d))) = Some (Inr t) \<and> d_out t = [d]"
proof -
  let ?m = "short_frame h d @ rest"
  have "load ?m 0 2 = Inr (head_store h)"
    by (rule at_load [where xs = "[]" and ys = "head_store h"]) (simp_all add: short_frame_def)
  moreover have "load ?m 6 (length d) = Inr d"
    by (simp add: load_def short_frame_def)
  ultimately show ?thesis
    using assms
    by (simp add: decodeFrame_def MAX_FRAMESIZE_def slice_consts decode_loop.simps decode_iter_def Let_def
        decode_final_def final_layout_def unmask_final_def unmask_at_def payload_bytes_def abort_or_def
        next_round_def advance_def emit_def)
qed

text \<open>
  A close frame announces a mask only if the stack happened to hold that bit, but its payload is
  always masked: the peer receives the payload, or the payload still masked.
\<close>

theorem close_frame_delivery:
  assumes "0 < n" and "n < 126" and "n \<le> length payload" and "proto_inv p"
  shows "\<exists>buf frames t. encodeFrame header0 payload (int n) eCloseFrame = Inr (buf, frames) \<and>
     decodeFrame p (concat frames @ rest) (int (length (concat frames))) = Some (Inr t) \<and>
     d_out t = [if maskBit header0 = 1 then take n payload else xmask (take n payload)]"
proof -
  let ?d = "take n payload"
  let ?f = "control_frame (RSV header0) (opcode_val eCloseFrame) ?d"
  have d: "?d \<noteq> []" "length ?d < SHORT_LENGTH" and len: "length ?d = n"
    using assms(1-3) by (auto simp: slice_consts)
  have nlt: "n < SHORT_LENGTH" using assms(2) by (simp add: slice_consts)
  have enc: "encodeFrame header0 payload (int n) eCloseFrame = Inr (xmask ?d @ drop n payload,
      [short_frame ((frame_head ?f)\<lparr>maskBit := maskBit header0\<rparr>) (xmask ?d)])"
    by (rule encodeFrame_close [OF assms(1,3) nlt])
  show ?thesis
  proof (cases "maskBit header0 = 1")
    case True
    then have "short_frame ((frame_head ?f)\<lparr>maskBit := maskBit header0\<rparr>) (xmask ?d) = wire ?f"
      by (simp add: wire_def control_frame_def frame_head_def)
    with True enc control_frame_delivered [OF _ _ _ d assms(4), of "opcode_val eCloseFrame" "RSV header0" rest]
    show ?thesis by auto
  next
    case False
    have "unat (PayloadLen (frame_head ?f)) = length (xmask ?d)"
      using len nlt by (simp add: frame_head_def control_frame_def unat_of_nat take_bit_nat_eq_self slice_consts
          del: length_take)
    with False enc unmasked_delivered [of "(frame_head ?f)\<lparr>maskBit := maskBit header0\<rparr>" "xmask ?d" p rest] d
    show ?thesis by (auto simp: frame_head_def control_frame_def simp del: length_take)
  qed
qed

theorem close_frame_delivery_witness:
  "\<exists>buf frames t. encodeFrame \<lparr>FIN = 0, RSV = 5, Opcode = 9, maskBit = 0, PayloadLen = 77\<rparr>
       [98, 121, 101] (int 3) eCloseFrame = Inr (buf, frames) \<and>
     decodeFrame (new_WSProtocol (\<lambda>_. 1)) (concat frames @ [0]) (int (length (concat frames))) = Some (Inr t) \<and>
     d_out t = [if maskBit \<lparr>FIN = 0, RSV = 5, Opcode = 9, maskBit = (0 :: 1 word), PayloadLen = 77\<rparr> = 1
                then take 3 [98, 121, 101] else xmask (take 3 [98, 121, 101])]"
  by (rule close_frame_delivery) simp_all

section \<open>The caller's buffer\<close>

text \<open>
  \<^verbatim>\<open>encodeFrame\<close> masks the caller's buffer in place: a caller that sends the same buffer a second
  time sends the plain bytes under a header that announces a mask, and the peer receives the
  message XORed with the mask; sending a third time delivers the message again.
\<close>

theorem encode_twice:
  assumes "type = eTextFrame \<or> type = eBlobFrame" and "0 < n" and "n < 500" and "n \<le> length payload"
    and "proto_inv p"
  shows "\<exists>buf frames again frames' t. encodeFrame header0 payload (int n) type = Inr (buf, frames) \<and>
     encodeFrame header0 buf (int n) type = Inr (again, frames') \<and> again = payload \<and>
     decodeFrame p (concat frames' @ rest) (int (length (concat frames'))) = Some (Inr t) \<and>
     d_out t = [xmask (take n payload)]"
proof -
  let ?buf = "xmask (take n payload) @ drop n payload"
  have len: "length ?buf = length payload" and take: "take n ?buf = xmask (take n payload)"
    and drop: "drop n ?buf = drop n payload" using assms(4) by simp_all
  have n: "deliverable n" using assms(2,3) by (simp add: deliverable_def SLICE_SIZE_def)
  have le: "n \<le> length ?buf" unfolding len by (rule assms(4))
  have "length (xmask (take n payload)) < SLICE_SIZE"
    using assms(3) by (simp add: SLICE_SIZE_def)
  then have "delivered (xmask (take n payload)) = xmask (take n payload)"
    unfolding delivered_def Let_def by (simp only: simp_thms if_True)
  then show ?thesis
    using encodeFrame_data [OF assms(1,2,4), of header0] encodeFrame_data [OF assms(1,2) le, of header0]
      message_delivered [OF assms(1) n le assms(5), of header0 rest]
    unfolding take drop by auto
qed

theorem encode_twice_witness:
  "\<exists>buf frames again frames' t. encodeFrame \<lparr>FIN = 0, RSV = 5, Opcode = 9, maskBit = 0, PayloadLen = 77\<rparr>
       [104, 105] (int 2) eTextFrame = Inr (buf, frames) \<and>
     encodeFrame \<lparr>FIN = 0, RSV = 5, Opcode = 9, maskBit = 0, PayloadLen = 77\<rparr> buf (int 2) eTextFrame
       = Inr (again, frames') \<and> again = [104, 105] \<and>
     decodeFrame (new_WSProtocol (\<lambda>_. 1)) (concat frames' @ [0]) (int (length (concat frames'))) = Some (Inr t) \<and>
     d_out t = [xmask (take 2 [104, 105])]"
  by (rule encode_twice) simp_all

section \<open>Messages and reads\<close>

text \<open>
  Any number of messages, grouped into reads in any way that ends each read where a message
  ends: a receiver that keeps its decoder delivers every message once and in order.
\<close>

theorem reads_deliver_messages:
  assumes "proto_inv p"
    and "\<forall>g \<in> set groups. g \<noteq> [] \<and> (\<forall>m \<in> set g. ws_good m) \<and> length (concat (map (ws_enc header0) g)) < MAX_FRAMESIZE"
  shows "\<exists>t. feed ws_dec p (map (\<lambda>g. concat (map (ws_enc header0) g)) groups)
       = Some (t, map (\<lambda>m. delivered (snd m)) (concat groups)) \<and> proto_inv t"
  by (rule codec.feed_groups [OF assms])

theorem reads_deliver_messages_witness:
  "\<exists>t. feed ws_dec (new_WSProtocol (\<lambda>_. 1))
      (map (\<lambda>g. concat (map (ws_enc \<lparr>FIN = 0, RSV = 5, Opcode = 9, maskBit = 0, PayloadLen = 77\<rparr>) g))
        [[(eTextFrame, [104]), (eBlobFrame, [1, 2])], [(eTextFrame, [33])]])
     = Some (t, map (\<lambda>m. delivered (snd m)) (concat [[(eTextFrame, [104]), (eBlobFrame, [1, 2])], [(eTextFrame, [33])]]))
     \<and> proto_inv t"
proof (rule reads_deliver_messages)
  have len: "length (ws_enc h (ty, d)) \<le> 8 + length d" if "ws_good (ty, d)" "length d < SHORT_LENGTH" for h ty d
    using that ws_enc_frames [of "(ty, d)" h]
    by (simp add: message_frames_def length_wire slice_consts)
  have g: "ws_good (eTextFrame, [104])" "ws_good (eBlobFrame, [1, 2])" "ws_good (eTextFrame, [33])"
    by (simp_all add: ws_good_def deliverable_def slice_consts)
  let ?h = "\<lparr>FIN = 0, RSV = 5, Opcode = 9, maskBit = 0, PayloadLen = 77\<rparr> :: WSHead"
  have "length (ws_enc ?h (eTextFrame, [104])) \<le> 9" "length (ws_enc ?h (eBlobFrame, [1, 2])) \<le> 10"
    "length (ws_enc ?h (eTextFrame, [33])) \<le> 9"
    using len [OF g(1), of ?h] len [OF g(2), of ?h] len [OF g(3), of ?h] by (simp_all add: slice_consts)
  with g show "\<forall>g \<in> set [[(eTextFrame, [104]), (eBlobFrame, [1, 2])], [(eTextFrame, [33])]].
      g \<noteq> [] \<and> (\<forall>m \<in> set g. ws_good m) \<and> length (concat (map (ws_enc ?h) g)) < MAX_FRAMESIZE"
    by (simp add: MAX_FRAMESIZE_def)
qed simp

end
