(* ===== verification/ByteBuffer.thy ===== *)
theory ByteBuffer
  imports Prelude
begin

text \<open>
  \<^verbatim>\<open>base/Buffer.h\<close> and \<^verbatim>\<open>base/Buffer.cpp\<close>: the byte queue behind every connection. The object keeps
  its data in the storage of a \<^verbatim>\<open>std::vector<char>\<close> that it addresses through \<^verbatim>\<open>begin()\<close> up to the
  \<^emph>\<open>capacity\<close>, not the size, so the model carries both: \<open>mem\<close> is the storage (its length is the
  capacity) and \<open>vsize\<close> the vector's size, which decides what a reallocation copies. \<open>junk\<close> is the
  indeterminate content of fresh storage. Lengths are the non-negative ones every caller passes.
\<close>

section \<open>The object\<close>

definition csInitialSize :: nat where "csInitialSize = 1024 * 4"
definition csPrependSize :: nat where "csPrependSize = 8"

record Buffer =
  readPos :: nat
  writePos :: nat
  mem :: "byte list"
  vsize :: nat

definition new_Buffer :: "(nat \<Rightarrow> byte) \<Rightarrow> Buffer" where
  "new_Buffer junk =
     \<lparr>readPos = csPrependSize, writePos = csPrependSize,
      mem = map junk [0 ..< csPrependSize + csInitialSize], vsize = 0\<rparr>"

definition capacity :: "Buffer \<Rightarrow> nat" where
  "capacity b = length (mem b)"

definition readableBytes :: "Buffer \<Rightarrow> nat" where
  "readableBytes b = writePos b - readPos b"

definition writeableBytes :: "Buffer \<Rightarrow> nat" where
  "writeableBytes b = capacity b - writePos b"

text \<open>
  \<^verbatim>\<open>std::vector::resize\<close> of libstdc++: growing past the capacity allocates
  \<open>size + max size (n - size)\<close>, copies the first \<open>size\<close> elements and zeroes up to the new size.
\<close>

definition vector_resize :: "(nat \<Rightarrow> byte) \<Rightarrow> nat \<Rightarrow> Buffer \<Rightarrow> Buffer" where
  "vector_resize junk n b =
     (let s = vsize b in
      if n \<le> s then b\<lparr>vsize := n\<rparr>
      else if n \<le> capacity b
      then b\<lparr>mem := take s (mem b) @ replicate (n - s) 0 @ drop n (mem b), vsize := n\<rparr>
      else b\<lparr>mem := take s (mem b) @ replicate (n - s) 0 @ map junk [n ..< s + max s (n - s)], vsize := n\<rparr>)"

definition prepend :: "Buffer \<Rightarrow> byte list \<Rightarrow> Buffer res" where
  "prepend b xs =
     c_assert (length xs \<le> readPos b)
       (res_bind (store (mem b) (readPos b - length xs) xs) (\<lambda>m.
          Inr (b\<lparr>readPos := readPos b - length xs, mem := m\<rparr>)))"

definition retrieve :: "Buffer \<Rightarrow> nat \<Rightarrow> Buffer res" where
  "retrieve b len =
     c_assert (len \<le> readableBytes b)
       (Inr (if len < readableBytes b then b\<lparr>readPos := readPos b + len\<rparr>
             else b\<lparr>readPos := csPrependSize, writePos := csPrependSize\<rparr>))"

definition reset :: "Buffer \<Rightarrow> Buffer" where
  "reset b = b\<lparr>readPos := csPrependSize, writePos := csPrependSize, vsize := 0\<rparr>"

definition read :: "Buffer \<Rightarrow> nat \<Rightarrow> (byte list \<times> Buffer) res" where
  "read b len =
     c_assert (len \<le> readableBytes b)
       (res_bind (load (mem b) (readPos b) len) (\<lambda>str.
        res_bind (retrieve b len) (\<lambda>b. Inr (str, b))))"

definition readAll :: "Buffer \<Rightarrow> (byte list \<times> Buffer) res" where
  "readAll b = read b (readableBytes b)"

definition hasWritten :: "Buffer \<Rightarrow> nat \<Rightarrow> Buffer res" where
  "hasWritten b len =
     c_assert (len \<le> writeableBytes b) (Inr (b\<lparr>writePos := writePos b + len\<rparr>))"

text \<open>
  \<^verbatim>\<open>newSpace\<close>. The first branch reallocates; the second moves the data to offset 8 but sets
  \<^verbatim>\<open>readPos_\<close> to 0.
\<close>

definition newSpace :: "(nat \<Rightarrow> byte) \<Rightarrow> Buffer \<Rightarrow> nat \<Rightarrow> Buffer res" where
  "newSpace junk b len =
     (if writeableBytes b + readPos b < len + csPrependSize
      then let readLen = readableBytes b; writepos = writePos b in
        res_bind (read b readLen) (\<lambda>(readableData, b).
        let b = vector_resize junk (writepos + len) b in
        res_bind (store (mem b) csPrependSize readableData) (\<lambda>m.
          Inr (b\<lparr>mem := m, readPos := csPrependSize, writePos := csPrependSize + readLen\<rparr>)))
      else let readLen = readableBytes b in
        res_bind (load (mem b) (readPos b) readLen) (\<lambda>xs.
        res_bind (store (mem b) csPrependSize xs) (\<lambda>m.
          Inr (b\<lparr>mem := m, readPos := 0, writePos := 0 + readLen\<rparr>))))"

definition ensureWritableBytes :: "(nat \<Rightarrow> byte) \<Rightarrow> Buffer \<Rightarrow> nat \<Rightarrow> Buffer res" where
  "ensureWritableBytes junk b len = (if writeableBytes b < len then newSpace junk b len else Inr b)"

definition buf_write :: "(nat \<Rightarrow> byte) \<Rightarrow> Buffer \<Rightarrow> byte list \<Rightarrow> Buffer res" where
  "buf_write junk b xs =
     res_bind (if writeableBytes b < length xs then newSpace junk b (length xs) else Inr b) (\<lambda>b.
     c_assert (length xs \<le> writeableBytes b)
       (res_bind (store (mem b) (writePos b) xs) (\<lambda>m. hasWritten (b\<lparr>mem := m\<rparr>) (length xs))))"

text \<open>
  \<^verbatim>\<open>readfd\<close>: one \<^verbatim>\<open>readv\<close> into the free storage and a 64 KiB overflow block. The kernel's answer is
  an error number or the bytes it copied; it fills the first \<^verbatim>\<open>iovec\<close> before the second and
  never returns more than both hold (\<open>readv_fits\<close>).
\<close>

definition csMaxBufSize :: nat where "csMaxBufSize = 65536"

definition readv_room :: "Buffer \<Rightarrow> nat" where
  "readv_room b = writeableBytes b + (if writeableBytes b < csMaxBufSize then csMaxBufSize else 0)"

definition readv_fits :: "Buffer \<Rightarrow> (int + byte list) \<Rightarrow> bool" where
  "readv_fits b r = (case r of Inl _ \<Rightarrow> True | Inr xs \<Rightarrow> length xs \<le> readv_room b)"

definition readfd :: "(nat \<Rightarrow> byte) \<Rightarrow> Buffer \<Rightarrow> (int + byte list) \<Rightarrow> (int \<times> int option \<times> Buffer) res" where
  "readfd junk b r =
     (case r of
        Inl errno \<Rightarrow> Inr (- 1, Some errno, b)
      | Inr xs \<Rightarrow>
          let writelen = writeableBytes b in
          res_bind (store (mem b) (writePos b) (take writelen xs)) (\<lambda>m.
          if length xs \<le> writelen
          then Inr (int (length xs), None, b\<lparr>mem := m, writePos := writePos b + length xs\<rparr>)
          else res_bind (buf_write junk (b\<lparr>mem := m, writePos := writePos b + writelen\<rparr>) (drop writelen xs)) (\<lambda>b.
                 Inr (int (length xs), None, b))))"

section \<open>Invariant and content\<close>

definition buf_inv :: "Buffer \<Rightarrow> bool" where
  "buf_inv b \<longleftrightarrow> readPos b \<le> writePos b \<and> writePos b \<le> capacity b \<and> vsize b \<le> capacity b \<and>
     csPrependSize + csInitialSize \<le> capacity b"

definition content :: "Buffer \<Rightarrow> byte list" where
  "content b = take (readableBytes b) (drop (readPos b) (mem b))"

lemmas buf_defs = buf_inv_def content_def readableBytes_def writeableBytes_def capacity_def

lemma buf_inv_new [simp]: "buf_inv (new_Buffer junk)"
  by (simp add: buf_defs new_Buffer_def)

lemma content_new [simp]: "content (new_Buffer junk) = []"
  by (simp add: buf_defs new_Buffer_def)

lemma length_content: "buf_inv b \<Longrightarrow> length (content b) = readableBytes b"
  by (auto simp: buf_defs)

lemma reset_inv: "buf_inv b \<Longrightarrow> buf_inv (reset b) \<and> content (reset b) = []"
  by (simp add: reset_def buf_defs)

lemma retrieve_content:
  "buf_inv b \<Longrightarrow> n \<le> readableBytes b \<Longrightarrow> \<exists>b'. retrieve b n = Inr b' \<and> buf_inv b' \<and> content b' = drop n (content b)"
  by (auto simp: retrieve_def buf_defs drop_take add.commute)

lemma read_content:
  assumes "buf_inv b" and "n \<le> readableBytes b"
  shows "\<exists>b'. read b n = Inr (take n (content b), b') \<and> buf_inv b' \<and> content b' = drop n (content b)"
proof -
  have "load (mem b) (readPos b) n = Inr (take n (content b))"
    using assms by (auto simp: load_def buf_defs min_def)
  with retrieve_content [OF assms] assms(2) show ?thesis
    by (auto simp: read_def)
qed

lemma readAll_content:
  "buf_inv b \<Longrightarrow> \<exists>b'. readAll b = Inr (content b, b') \<and> buf_inv b' \<and> content b' = []"
  using read_content [of b "readableBytes b"] by (auto simp: readAll_def length_content)

lemma prepend_content:
  assumes "buf_inv b" and "length xs \<le> readPos b"
  shows "\<exists>b'. prepend b xs = Inr b' \<and> buf_inv b' \<and> content b' = xs @ content b"
proof -
  let ?r = "readPos b - length xs"
  have "?r \<le> length (mem b)" "readPos b = ?r + length xs" using assms by (auto simp: buf_defs)
  then have "drop ?r (overwrite (mem b) ?r xs) = xs @ drop (readPos b) (mem b)"
    by (simp add: overwrite_def)
  then show ?thesis
    using assms by (auto simp: prepend_def store_def buf_defs)
qed

lemma write_here:
  assumes "buf_inv b" and "length xs \<le> writeableBytes b"
  shows "\<exists>b'. buf_write junk b xs = Inr b' \<and> buf_inv b' \<and> content b' = content b @ xs \<and> readPos b' = readPos b"
proof -
  have "take (writePos b + length xs - readPos b) (drop (readPos b) (overwrite (mem b) (writePos b) xs))
      = take (writePos b - readPos b) (drop (readPos b) (mem b)) @ xs"
    using assms by (intro drop_take_overwrite_append) (auto simp: buf_defs)
  then show ?thesis
    using assms by (auto simp: buf_write_def store_def hasWritten_def buf_defs)
qed

text \<open>When \<^verbatim>\<open>newSpace\<close> reallocates and \<^verbatim>\<open>readPos_\<close> has not moved below the reserved prefix.\<close>

lemma vector_resize_grow:
  assumes "vsize b \<le> capacity b" and "capacity b < n"
  shows "n \<le> capacity (vector_resize junk n b)" and "vsize (vector_resize junk n b) = n"
  using assms by (auto simp: vector_resize_def Let_def capacity_def max_def)

lemma newSpace_grow:
  assumes inv: "buf_inv b" and "writeableBytes b < n" and "8 \<le> readPos b"
    and big: "writeableBytes b + readPos b < n + 8"
  shows "\<exists>b'. newSpace junk b n = Inr b' \<and> buf_inv b' \<and> content b' = content b \<and>
     readPos b' = 8 \<and> n \<le> writeableBytes b'"
proof -
  let ?len = "readableBytes b"
  obtain c where c: "read b ?len = Inr (content b, c)" "c = b\<lparr>readPos := csPrependSize, writePos := csPrependSize\<rparr>"
    using inv read_content [OF inv, of ?len]
    by (auto simp: read_def retrieve_def res_bind_eq_Inr length_content)
  let ?v = "vector_resize junk (writePos b + n) c"
  have "capacity c < writePos b + n" "vsize c \<le> capacity c"
    using assms by (auto simp: c(2) buf_defs)
  then have cap: "writePos b + n \<le> capacity ?v" "vsize ?v = writePos b + n"
    using vector_resize_grow [of c] by auto
  have len: "length (content b) = ?len" using inv by (rule length_content)
  have le: "readPos b \<le> writePos b" using inv by (simp add: buf_inv_def)
  have room: "8 + length (content b) + n \<le> length (mem ?v)"
    using cap(1) assms(3) le len by (simp add: buf_defs)
  have st: "store (mem ?v) csPrependSize (content b) = Inr (overwrite (mem ?v) 8 (content b))"
    using room by (simp add: store_def csPrependSize_def)
  let ?b = "?v\<lparr>mem := overwrite (mem ?v) 8 (content b), readPos := csPrependSize, writePos := csPrependSize + ?len\<rparr>"
  have new: "newSpace junk b n = Inr ?b"
    using big by (simp add: newSpace_def csPrependSize_def [symmetric] Let_def c(1) st)
  have mlen: "length (mem ?b) = length (mem ?v)" using room by simp
  have "capacity b \<le> capacity ?v" using cap(1) assms(2) by (simp add: buf_defs)
  then have inv': "buf_inv ?b"
    using inv room cap mlen len by (simp add: buf_inv_def capacity_def csPrependSize_def)
  have "content ?b = content b"
    unfolding content_def [of ?b] using room len overwrite_at [of 8 "content b" "mem ?v"]
    by (simp add: readableBytes_def csPrependSize_def)
  with new inv' room mlen len show ?thesis
    by (auto simp: writeableBytes_def capacity_def csPrependSize_def)
qed

text \<open>When it moves the data instead.\<close>

lemma newSpace_shift:
  assumes inv: "buf_inv b" and "writeableBytes b < n" and "n + 8 \<le> writeableBytes b + readPos b"
  shows "\<exists>b'. newSpace junk b n = Inr b' \<and> buf_inv b' \<and> readPos b' = 0 \<and> n \<le> writeableBytes b' \<and>
     content b' = take (readableBytes b) (take 8 (mem b) @ content b)"
proof -
  have ld: "load (mem b) (readPos b) (readableBytes b) = Inr (content b)"
    using inv by (simp add: load_def buf_defs)
  have room: "8 + length (content b) \<le> length (mem b)"
    using inv assms(2,3) by (auto simp: buf_defs)
  let ?m = "overwrite (mem b) 8 (content b)"
  have new: "newSpace junk b n = Inr (b\<lparr>mem := ?m, readPos := 0, writePos := readableBytes b\<rparr>)"
    using assms(3) room by (simp add: newSpace_def csPrependSize_def Let_def ld store_def)
  have "take (readableBytes b) ?m = take (readableBytes b) (take 8 (mem b) @ content b)"
    using inv room by (simp add: overwrite_def length_content)
  with new inv room assms(2,3) show ?thesis
    by (auto simp: content_def [of "b\<lparr>mem := _, readPos := _, writePos := _\<rparr>"] buf_inv_def capacity_def
        readableBytes_def writeableBytes_def)
qed

lemma buf_write_space:
  assumes "writeableBytes b < length xs" and "newSpace junk b (length xs) = Inr c"
    and "buf_inv c" and "length xs \<le> writeableBytes c"
  shows "\<exists>b'. buf_write junk b xs = Inr b' \<and> buf_inv b' \<and> content b' = content c @ xs"
proof -
  have "buf_write junk b xs = buf_write junk c xs"
    using assms(1,2,4) by (simp add: buf_write_def)
  with write_here [OF assms(3,4)] show ?thesis by auto
qed

section \<open>The contract of a byte queue\<close>

text \<open>
  What \<^verbatim>\<open>NetConnection\<close> relies on: a write appends, a retrieve drops from the front, and the
  readable bytes are what was written and not yet retrieved. \<open>room q n\<close> says when a write of \<open>n\<close>
  bytes is one of those the implementation handles.
\<close>

datatype queue_op = Put "byte list" | Get nat

locale byte_queue =
  fixes put :: "'q \<Rightarrow> byte list \<Rightarrow> 'q res"
    and get :: "'q \<Rightarrow> nat \<Rightarrow> (byte list \<times> 'q) res"
    and bytes :: "'q \<Rightarrow> byte list"
    and qinv :: "'q \<Rightarrow> bool"
    and room :: "'q \<Rightarrow> nat \<Rightarrow> bool"
  assumes put_law: "qinv q \<Longrightarrow> room q (length xs) \<Longrightarrow> \<exists>q'. put q xs = Inr q' \<and> qinv q' \<and> bytes q' = bytes q @ xs"
    and get_law: "qinv q \<Longrightarrow> n \<le> length (bytes q) \<Longrightarrow>
      \<exists>q'. get q n = Inr (take n (bytes q), q') \<and> qinv q' \<and> bytes q' = drop n (bytes q)"
begin

fun run :: "'q \<Rightarrow> queue_op list \<Rightarrow> (byte list \<times> 'q) res" where
  "run q [] = Inr ([], q)"
| "run q (Put xs # ops) = res_bind (put q xs) (\<lambda>q. run q ops)"
| "run q (Get n # ops) =
     res_bind (get q n) (\<lambda>(ys, q). res_bind (run q ops) (\<lambda>(zs, q). Inr (ys @ zs, q)))"

fun fits_ops :: "'q \<Rightarrow> queue_op list \<Rightarrow> bool" where
  "fits_ops q [] = True"
| "fits_ops q (Put xs # ops) =
     (room q (length xs) \<and> (case put q xs of Inl _ \<Rightarrow> False | Inr q' \<Rightarrow> fits_ops q' ops))"
| "fits_ops q (Get n # ops) =
     (n \<le> length (bytes q) \<and> (case get q n of Inl _ \<Rightarrow> False | Inr (_, q') \<Rightarrow> fits_ops q' ops))"

lemma run_fifo:
  assumes "qinv q" and "fits_ops q ops"
  shows "\<exists>out q'. run q ops = Inr (out, q') \<and> qinv q' \<and>
     out @ bytes q' = bytes q @ concat (map (\<lambda>op. case op of Put xs \<Rightarrow> xs | Get _ \<Rightarrow> []) ops)"
  using assms
proof (induction ops arbitrary: q)
  case Nil
  then show ?case by simp
next
  case (Cons op ops)
  show ?case
  proof (cases op)
    case (Put xs)
    then obtain q' where q': "put q xs = Inr q'" "qinv q'" "bytes q' = bytes q @ xs"
      using put_law Cons.prems by auto
    with Cons.prems Put Cons.IH [of q'] show ?thesis by auto
  next
    case (Get n)
    then obtain q' where q': "get q n = Inr (take n (bytes q), q')" "qinv q'" "bytes q' = drop n (bytes q)"
      using get_law Cons.prems by fastforce
    with Cons.prems Get have "fits_ops q' ops" by simp
    from Cons.IH [OF q'(2) this] obtain out r where r: "run q' ops = Inr (out, r)" "qinv r"
      "out @ bytes r = drop n (bytes q) @ concat (map (\<lambda>op. case op of Put xs \<Rightarrow> xs | Get _ \<Rightarrow> []) ops)"
      unfolding q'(3) by blast
    then have "take n (bytes q) @ out @ bytes r =
        bytes q @ concat (map (\<lambda>op. case op of Put xs \<Rightarrow> xs | Get _ \<Rightarrow> []) ops)"
      by (simp only: append_assoc [symmetric] append_take_drop_id)
    with q' r Get show ?thesis by simp
  qed
qed

end

text \<open>
  The implementation's side: a write fits in place, or it makes \<^verbatim>\<open>newSpace\<close> reallocate while
  \<^verbatim>\<open>readPos_\<close> is not below the prefix. What is left out is the case that moves the data.
\<close>

definition write_room :: "Buffer \<Rightarrow> nat \<Rightarrow> bool" where
  "write_room b n \<longleftrightarrow> n \<le> writeableBytes b \<or> (8 \<le> readPos b \<and> writeableBytes b + readPos b < n + 8)"

interpretation bq: byte_queue "buf_write junk" read content buf_inv write_room for junk
proof unfold_locales
  fix junk and b :: Buffer and xs :: "byte list"
  assume inv: "buf_inv b" and room: "write_room b (length xs)"
  show "\<exists>b'. buf_write junk b xs = Inr b' \<and> buf_inv b' \<and> content b' = content b @ xs"
  proof (cases "length xs \<le> writeableBytes b")
    case True
    with write_here [OF inv] show ?thesis by blast
  next
    case False
    with room newSpace_grow [OF inv, of "length xs" junk] obtain c where
      "newSpace junk b (length xs) = Inr c" "buf_inv c" "content c = content b" "length xs \<le> writeableBytes c"
      by (auto simp: write_room_def)
    with False buf_write_space [of b xs junk c] show ?thesis by simp
  qed
next
  fix b :: Buffer and n :: nat
  assume inv: "buf_inv b" and "n \<le> length (content b)"
  then show "\<exists>b'. read b n = Inr (take n (content b), b') \<and> buf_inv b' \<and> content b' = drop n (content b)"
    by (intro read_content) (simp_all add: length_content)
qed

section \<open>Properties\<close>

definition queue_run :: "(nat \<Rightarrow> byte) \<Rightarrow> Buffer \<Rightarrow> queue_op list \<Rightarrow> (byte list \<times> Buffer) res" where
  "queue_run junk b ops = bq.run junk b ops"

definition queue_fits :: "(nat \<Rightarrow> byte) \<Rightarrow> Buffer \<Rightarrow> queue_op list \<Rightarrow> bool" where
  "queue_fits junk b ops = bq.fits_ops junk b ops"


lemma fresh_room:
  "n \<le> 4096 \<Longrightarrow> write_room (new_Buffer junk) n"
  by (simp add: write_room_def writeableBytes_def capacity_def new_Buffer_def csPrependSize_def csInitialSize_def)


text \<open>
  A write that makes \<^verbatim>\<open>newSpace\<close> move the data instead of reallocating damages the queue: the
  reader sees eight stale bytes of the prefix, then the queued bytes without their last eight,
  then the new data.
\<close>

theorem buffer_shift_damages:
  assumes "buf_inv b" and "writeableBytes b < length xs"
    and "length xs + 8 \<le> writeableBytes b + readPos b"
  shows "\<exists>b'. buf_write junk b xs = Inr b' \<and> buf_inv b' \<and>
     content b' = take (readableBytes b) (take 8 (mem b) @ content b) @ xs"
proof -
  from newSpace_shift [OF assms, of junk] obtain c where
    "newSpace junk b (length xs) = Inr c" "buf_inv c" "length xs \<le> writeableBytes c"
    "content c = take (readableBytes b) (take 8 (mem b) @ content b)" by blast
  with buf_write_space [OF assms(2), of junk c] show ?thesis by simp
qed

theorem buffer_shift_damages_witness:
  "\<exists>b'. buf_write (\<lambda>_. 0) \<lparr>readPos = 4000, writePos = 4100, mem = replicate 4104 5, vsize = 0\<rparr> [1, 2, 3, 4, 5]
       = Inr b' \<and> buf_inv b' \<and>
     content b' = take (readableBytes \<lparr>readPos = 4000, writePos = 4100, mem = replicate 4104 5, vsize = 0\<rparr>)
       (take 8 (mem \<lparr>readPos = 4000, writePos = 4100, mem = replicate 4104 5, vsize = 0\<rparr>) @
        content \<lparr>readPos = 4000, writePos = 4100, mem = replicate 4104 5, vsize = 0\<rparr>) @ [1, 2, 3, 4, 5]"
  by (rule buffer_shift_damages) (simp_all add: buf_defs csPrependSize_def csInitialSize_def)

lemma readfd_content:
  assumes "buf_inv b" and "readv_fits b r" and "8 \<le> readPos b"
    and "\<And>xs. r = Inr xs \<Longrightarrow> writeableBytes b < length xs \<Longrightarrow> readPos b < length xs - writeableBytes b + 8"
  shows "\<exists>b'. readfd junk b r = Inr (case r of Inl e \<Rightarrow> (- 1, Some e, b) | Inr xs \<Rightarrow> (int (length xs), None, b')) \<and>
     buf_inv b' \<and> content b' = content b @ (case r of Inl _ \<Rightarrow> [] | Inr xs \<Rightarrow> xs)"
proof (cases r)
  case (Inl e)
  with assms(1) show ?thesis by (auto simp: readfd_def)
next
  case (Inr xs)
  let ?w = "writeableBytes b"
  let ?c = "b\<lparr>mem := overwrite (mem b) (writePos b) (take ?w xs), writePos := writePos b + length (take ?w xs)\<rparr>"
  have here: "buf_inv ?c" "content ?c = content b @ take ?w xs" and room: "writePos b + length (take ?w xs) \<le> length (mem b)"
  proof -
    show le: "writePos b + length (take ?w xs) \<le> length (mem b)"
      using assms(1) by (auto simp: buf_defs)
    have "take (writePos b + length (take ?w xs) - readPos b) (drop (readPos b) (overwrite (mem b) (writePos b) (take ?w xs)))
      = take (writePos b - readPos b) (drop (readPos b) (mem b)) @ take ?w xs"
      using assms(1) le by (intro drop_take_overwrite_append) (auto simp: buf_inv_def)
    then show "content ?c = content b @ take ?w xs"
      by (simp add: content_def readableBytes_def)
    show "buf_inv ?c"
      using assms(1) le by (auto simp: buf_inv_def capacity_def)
  qed
  show ?thesis
  proof (cases "length xs \<le> ?w")
    case True
    with here room Inr show ?thesis
      by (auto simp: readfd_def Let_def store_def)
  next
    case False
    have w0: "writeableBytes ?c = 0" "readPos ?c = readPos b"
      using False room by (auto simp: writeableBytes_def capacity_def min_def)
    have "write_room ?c (length (drop ?w xs))"
      using w0 assms(3,4) Inr False by (simp add: write_room_def)
    from bq.put_law [OF here(1) this, of junk] obtain d where
      "buf_write junk ?c (drop ?w xs) = Inr d" "buf_inv d" "content d = content b @ xs"
      using here(2) by auto
    with False Inr room show ?thesis
      by (auto simp: readfd_def Let_def store_def min_def)
  qed
qed

text \<open>
  \<^verbatim>\<open>readfd\<close> appends every byte the kernel returned, through the overflow block when the free
  storage is too small, and reports their number; an error leaves the queue alone.
\<close>

theorem readfd_appends:
  assumes "buf_inv b" and "readv_fits b r" and "8 \<le> readPos b"
    and "\<And>xs. r = Inr xs \<Longrightarrow> writeableBytes b < length xs \<Longrightarrow> readPos b < length xs - writeableBytes b + 8"
  shows "\<exists>b'. readfd junk b r = Inr (case r of Inl e \<Rightarrow> (- 1, Some e, b) | Inr xs \<Rightarrow> (int (length xs), None, b')) \<and>
     buf_inv b' \<and> content b' = content b @ (case r of Inl _ \<Rightarrow> [] | Inr xs \<Rightarrow> xs)"
  using assms by (rule readfd_content)

theorem readfd_appends_witness:
  "\<exists>b'. readfd (\<lambda>_. 0) (new_Buffer (\<lambda>_. 7)) (Inr [1, 2]) =
       Inr (case Inr [1, 2 :: byte] of Inl e \<Rightarrow> (- 1, Some e, new_Buffer (\<lambda>_. 7)) | Inr xs \<Rightarrow> (int (length xs), None, b')) \<and>
     buf_inv b' \<and> content b' = content (new_Buffer (\<lambda>_. 7)) @ (case Inr [1, 2] :: int + byte list of Inl _ \<Rightarrow> [] | Inr xs \<Rightarrow> xs)"
  by (rule readfd_appends, rule buf_inv_new)
    (simp_all add: readv_fits_def readv_room_def writeableBytes_def capacity_def new_Buffer_def
      csPrependSize_def csInitialSize_def)

end
