(* ===== verification/Events.thy ===== *)
theory Events
  imports Prelude
begin

text \<open>
  \<^verbatim>\<open>base/EventHandler.h\<close>, \<^verbatim>\<open>base/EventHandler.cpp\<close>, \<^verbatim>\<open>base/Poller.h\<close>, \<^verbatim>\<open>base/SelectPoller.cpp\<close> and
  \<^verbatim>\<open>base/DefaultImplement.cpp\<close>: the interest and dispatch of one descriptor, and the poll set. Handler
  objects live behind pointers in a heap; \<^verbatim>\<open>poll(2)\<close> is an argument.
\<close>

section \<open>Event handlers\<close>

definition POLLIN :: uint32 where "POLLIN = 0x1"
definition POLLPRI :: uint32 where "POLLPRI = 0x2"
definition POLLOUT :: uint32 where "POLLOUT = 0x4"
definition POLLERR :: uint32 where "POLLERR = 0x8"
definition POLLHUP :: uint32 where "POLLHUP = 0x10"
definition POLLNVAL :: uint32 where "POLLNVAL = 0x20"
definition POLLRDHUP :: uint32 where "POLLRDHUP = 0x2000"

definition csEventNone :: uint32 where "csEventNone = 0"
definition csEventRead :: uint32 where "csEventRead = POLLIN OR POLLPRI"
definition csEventWrite :: uint32 where "csEventWrite = POLLOUT"

lemmas poll_bits = POLLIN_def POLLPRI_def POLLOUT_def POLLERR_def POLLHUP_def POLLNVAL_def POLLRDHUP_def
  csEventNone_def csEventRead_def csEventWrite_def

text \<open>Of the four callbacks only whether they are installed matters to the dispatcher.\<close>

record EventHandler =
  fd :: int
  events :: uint32
  revents :: uint32
  readCallback :: bool
  writeCallback :: bool
  closeCallback :: bool
  errorCallback :: bool

definition new_EventHandler :: "int \<Rightarrow> EventHandler" where
  "new_EventHandler f =
     \<lparr>fd = f, events = 0, revents = 0, readCallback = False, writeCallback = False,
      closeCallback = False, errorCallback = False\<rparr>"

definition isNoneEvent :: "EventHandler \<Rightarrow> bool" where
  "isNoneEvent h \<longleftrightarrow> events h = csEventNone"

definition isWriteable :: "EventHandler \<Rightarrow> bool" where
  "isWriteable h \<longleftrightarrow> events h AND csEventWrite \<noteq> 0"

definition set_enableRead :: "EventHandler \<Rightarrow> EventHandler" where
  "set_enableRead h = h\<lparr>events := events h OR csEventRead\<rparr>"

definition set_disableRead :: "EventHandler \<Rightarrow> EventHandler" where
  "set_disableRead h = h\<lparr>events := events h AND NOT csEventRead\<rparr>"

definition set_enableWrite :: "EventHandler \<Rightarrow> EventHandler" where
  "set_enableWrite h = h\<lparr>events := events h OR csEventWrite\<rparr>"

definition set_disableWrite :: "EventHandler \<Rightarrow> EventHandler" where
  "set_disableWrite h = h\<lparr>events := events h AND NOT csEventWrite\<rparr>"

definition set_disableAll :: "EventHandler \<Rightarrow> EventHandler" where
  "set_disableAll h = h\<lparr>events := csEventNone\<rparr>"

lemma bit_numeral_4 [simp]: "bit (4 :: uint32) n \<longleftrightarrow> n = 2"
proof -
  have "(4 :: uint32) = push_bit 2 1" by simp
  then show ?thesis by (auto simp only: bit_push_bit_iff bit_1_iff) simp_all
qed

text \<open>Reading and writing are watched independently of each other.\<close>

lemma isWriteable_enable [simp]:
  "isWriteable (set_enableWrite h)" "\<not> isWriteable (set_disableWrite h)" "\<not> isWriteable (set_disableAll h)"
  "isWriteable (set_enableRead h) = isWriteable h" "isWriteable (set_disableRead h) = isWriteable h"
proof -
  have and_or: "(w OR v) AND v = v" for w v :: uint32
    by (rule bit_word_eqI) (auto simp: bit_or_iff bit_and_iff)
  have and_not: "(w AND NOT v) AND v = 0" for w v :: uint32
    by (rule bit_word_eqI) (auto simp: bit_and_iff bit_not_iff)
  show "isWriteable (set_enableWrite h)"
    by (simp add: isWriteable_def set_enableWrite_def and_or) (simp add: poll_bits)
  show "\<not> isWriteable (set_disableWrite h)"
    by (simp add: isWriteable_def set_disableWrite_def and_not)
  show "\<not> isWriteable (set_disableAll h)"
    by (simp add: isWriteable_def set_disableAll_def poll_bits)
  have d: "csEventRead AND csEventWrite = 0" by (simp add: poll_bits)
  have "(w OR csEventRead) AND csEventWrite = w AND csEventWrite" for w :: uint32
    by (simp add: bit.conj_disj_distrib2 d)
  then show "isWriteable (set_enableRead h) = isWriteable h"
    by (simp add: isWriteable_def set_enableRead_def)
  have n: "NOT csEventRead AND csEventWrite = csEventWrite" by (simp add: poll_bits)
  have "(w AND NOT csEventRead) AND csEventWrite = w AND csEventWrite" for w :: uint32
    by (simp only: and.assoc n)
  then show "isWriteable (set_disableRead h) = isWriteable h"
    by (simp add: isWriteable_def set_disableRead_def)
qed

section \<open>Dispatch\<close>

datatype ev_call = CloseCall | ErrorCall | ReadCall | WriteCall

text \<open>
  \<^verbatim>\<open>handEvent\<close>: each guard reads \<^verbatim>\<open>revents_\<close> of the object again, so an object that a callback has
  deleted is a use after free; so does the log line behind the write callback. \<open>run c\<close> is what the callback does to the program state, \<open>alive\<close> whether
  the handler object still exists in it.
\<close>

definition guarded :: "bool \<Rightarrow> bool \<Rightarrow> ('s \<Rightarrow> 's res) \<Rightarrow> ('s \<Rightarrow> bool) \<Rightarrow> 's \<Rightarrow> 's res" where
  "guarded fires installed f alive s =
     (if \<not> alive s then Inl UseAfterFree else if fires \<and> installed then f s else Inr s)"

definition close_fires :: "EventHandler \<Rightarrow> bool" where
  "close_fires h \<longleftrightarrow> revents h AND POLLHUP \<noteq> 0 \<and> \<not> (revents h AND POLLIN \<noteq> 0)"

definition error_fires :: "EventHandler \<Rightarrow> bool" where
  "error_fires h \<longleftrightarrow> revents h AND (POLLERR OR POLLNVAL) \<noteq> 0"

definition read_fires :: "EventHandler \<Rightarrow> bool" where
  "read_fires h \<longleftrightarrow> revents h AND (POLLIN OR POLLPRI OR POLLRDHUP) \<noteq> 0"

definition write_fires :: "EventHandler \<Rightarrow> bool" where
  "write_fires h \<longleftrightarrow> revents h AND POLLOUT \<noteq> 0"

definition handEvent :: "EventHandler \<Rightarrow> (ev_call \<Rightarrow> 's \<Rightarrow> 's res) \<Rightarrow> ('s \<Rightarrow> bool) \<Rightarrow> 's \<Rightarrow> 's res" where
  "handEvent h run alive s =
     res_bind (guarded (close_fires h) (closeCallback h) (run CloseCall) alive s) (\<lambda>s.
     res_bind (guarded (error_fires h) (errorCallback h) (run ErrorCall) alive s) (\<lambda>s.
     res_bind (guarded (read_fires h) (readCallback h) (run ReadCall) alive s) (\<lambda>s.
     res_bind (guarded (write_fires h) (writeCallback h) (run WriteCall) alive s) (\<lambda>s.
       if write_fires h \<and> \<not> alive s then Inl UseAfterFree else Inr s))))"

text \<open>When no callback deletes the handler, the calls are these, in this order.\<close>

definition event_calls :: "EventHandler \<Rightarrow> ev_call list" where
  "event_calls h =
     (if close_fires h \<and> closeCallback h then [CloseCall] else []) @
     (if error_fires h \<and> errorCallback h then [ErrorCall] else []) @
     (if read_fires h \<and> readCallback h then [ReadCall] else []) @
     (if write_fires h \<and> writeCallback h then [WriteCall] else [])"

fun run_calls :: "(ev_call \<Rightarrow> 's \<Rightarrow> 's res) \<Rightarrow> ev_call list \<Rightarrow> 's \<Rightarrow> 's res" where
  "run_calls run [] s = Inr s"
| "run_calls run (c # cs) s = res_bind (run c s) (run_calls run cs)"

lemma run_calls_append:
  "run_calls run (cs @ ds) s = res_bind (run_calls run cs s) (run_calls run ds)"
proof (induction cs arbitrary: s)
  case (Cons c cs)
  then have "run_calls run (cs @ ds) = (\<lambda>s. res_bind (run_calls run cs s) (run_calls run ds))" by (intro ext)
  then show ?case by (simp add: res_bind_assoc)
qed simp

lemma guarded_alive:
  "alive s \<Longrightarrow> guarded fires installed (run c) alive s = run_calls run (if fires \<and> installed then [c] else []) s"
  by (cases "run c s") (simp_all add: guarded_def)

lemma run_calls_alive:
  assumes "\<And>c s s'. alive s \<Longrightarrow> run c s = Inr s' \<Longrightarrow> alive s'"
  shows "alive s \<Longrightarrow> run_calls run cs s = Inr s' \<Longrightarrow> alive s'"
  by (induction cs arbitrary: s) (auto simp: res_bind_eq_Inr intro: assms)

lemma handEvent_calls:
  assumes keep: "\<And>c s s'. alive s \<Longrightarrow> run c s = Inr s' \<Longrightarrow> alive s'" and "alive s"
  shows "handEvent h run alive s = run_calls run (event_calls h) s"
proof -
  have bind: "res_bind (run_calls run cs s) (\<lambda>s. guarded f i (run c) alive s) =
      run_calls run (cs @ (if f \<and> i then [c] else [])) s" if "alive s" for cs f i c s
  proof (cases "run_calls run cs s")
    case (Inr s')
    have "alive s'" using run_calls_alive [of alive run, OF keep that Inr] .
    with Inr show ?thesis by (simp add: run_calls_append guarded_alive del: if_split)
  qed (simp add: run_calls_append)
  have bind2: "res_bind (run_calls run cs s) (\<lambda>s. res_bind (guarded f i (run c) alive s) k) =
      res_bind (run_calls run (cs @ (if f \<and> i then [c] else [])) s) k" if "alive s" for cs f i c s k
    unfolding res_bind_assoc [symmetric] bind [OF that] ..
  have log: "res_bind (run_calls run cs s) (\<lambda>s. if write_fires h \<and> \<not> alive s then Inl UseAfterFree else Inr s) =
      run_calls run cs s" if "alive s" for cs s
    using run_calls_alive [of alive run, OF keep that] by (cases "run_calls run cs s") auto
  show ?thesis
    unfolding handEvent_def event_calls_def using assms(2)
    by (simp only: guarded_alive bind bind2 log append_assoc)
qed

lemma guarded_dead: "\<not> alive s \<Longrightarrow> guarded f i g alive s = Inl UseAfterFree"
  by (simp add: guarded_def)

text \<open>So is a write callback that deletes it, because of the log line.\<close>

lemma handEvent_write_deletes:
  assumes "alive s" and "event_calls h = [WriteCall]" and "run WriteCall s = Inr s'" and "\<not> alive s'"
  shows "handEvent h run alive s = Inl UseAfterFree"
  using assms by (auto simp: handEvent_def guarded_def event_calls_def split: if_splits)

text \<open>A close callback that deletes the handler is followed by a read of the deleted object.\<close>

lemma handEvent_close_deletes:
  assumes "alive s" and "close_fires h" and "closeCallback h" and "run CloseCall s = Inr s'" and "\<not> alive s'"
  shows "handEvent h run alive s = Inl UseAfterFree"
  using assms by (simp add: handEvent_def guarded_def)

text \<open>
  The dispatcher calls the installed callbacks in the order close, error, read, write, each at most
  once and only for its own poll bits, as long as no callback deletes the handler object.
\<close>

theorem handEvent_order:
  assumes "\<And>c s s'. alive s \<Longrightarrow> run c s = Inr s' \<Longrightarrow> alive s'" and "alive s"
  shows "handEvent h run alive s = run_calls run (event_calls h) s \<and>
     sorted_wrt (\<lambda>c d. (c, d) \<in> {(CloseCall, ErrorCall), (CloseCall, ReadCall), (CloseCall, WriteCall),
       (ErrorCall, ReadCall), (ErrorCall, WriteCall), (ReadCall, WriteCall)}) (event_calls h)"
  using handEvent_calls [of alive run s h] assms by (auto simp: event_calls_def)

theorem handEvent_order_witness:
  "handEvent ((new_EventHandler 5)\<lparr>revents := 0x15, readCallback := True, writeCallback := True\<rparr>)
      (\<lambda>c s. Inr (s @ [c])) (\<lambda>_. True) []
    = run_calls (\<lambda>c s. Inr (s @ [c]))
        (event_calls ((new_EventHandler 5)\<lparr>revents := 0x15, readCallback := True, writeCallback := True\<rparr>)) [] \<and>
   sorted_wrt (\<lambda>c d. (c, d) \<in> {(CloseCall, ErrorCall), (CloseCall, ReadCall), (CloseCall, WriteCall),
       (ErrorCall, ReadCall), (ErrorCall, WriteCall), (ReadCall, WriteCall)})
     (event_calls ((new_EventHandler 5)\<lparr>revents := 0x15, readCallback := True, writeCallback := True\<rparr>))"
  by (rule handEvent_order) simp_all

end
