(* ===== verification/SocketOps.thy ===== *)
theory SocketOps
  imports Prelude
begin

text \<open>
  \<^verbatim>\<open>base/SocketOpts.h\<close> and \<^verbatim>\<open>base/SocketOpts.cpp\<close>: byte order, socket addresses and the wrappers of
  the socket calls. The target is little-endian. What the kernel and \<^verbatim>\<open>inet_pton\<close> answer are arguments:
  a result is an error number or a value.
\<close>

section \<open>Byte order\<close>

text \<open>\<^verbatim>\<open>htobe16\<close>, \<^verbatim>\<open>htobe32\<close> and \<^verbatim>\<open>htobe64\<close> swap the bytes, and so do their inverses.\<close>

definition byte_of :: "'a::len word \<Rightarrow> nat \<Rightarrow> 'a word" where
  "byte_of w i = take_bit 8 (drop_bit (8 * i) w)"

definition host2Network16 :: "ushort \<Rightarrow> ushort" where
  "host2Network16 w = push_bit 8 (byte_of w 0) OR byte_of w 1"

definition network2Host16 :: "ushort \<Rightarrow> ushort" where
  "network2Host16 w = push_bit 8 (byte_of w 0) OR byte_of w 1"

definition hostToNetwork32 :: "uint32 \<Rightarrow> uint32" where
  "hostToNetwork32 w =
     push_bit 24 (byte_of w 0) OR push_bit 16 (byte_of w 1) OR push_bit 8 (byte_of w 2) OR byte_of w 3"

definition networkToHost32 :: "uint32 \<Rightarrow> uint32" where
  "networkToHost32 w =
     push_bit 24 (byte_of w 0) OR push_bit 16 (byte_of w 1) OR push_bit 8 (byte_of w 2) OR byte_of w 3"

definition hostToNetwork64 :: "64 word \<Rightarrow> 64 word" where
  "hostToNetwork64 w =
     push_bit 56 (byte_of w 0) OR push_bit 48 (byte_of w 1) OR push_bit 40 (byte_of w 2) OR push_bit 32 (byte_of w 3) OR
     push_bit 24 (byte_of w 4) OR push_bit 16 (byte_of w 5) OR push_bit 8 (byte_of w 6) OR byte_of w 7"

definition networkToHost64 :: "64 word \<Rightarrow> 64 word" where
  "networkToHost64 w =
     push_bit 56 (byte_of w 0) OR push_bit 48 (byte_of w 1) OR push_bit 40 (byte_of w 2) OR push_bit 32 (byte_of w 3) OR
     push_bit 24 (byte_of w 4) OR push_bit 16 (byte_of w 5) OR push_bit 8 (byte_of w 6) OR byte_of w 7"

lemma bit_byte_of: "bit (byte_of (w :: 'a::len word) i) n \<longleftrightarrow> n < 8 \<and> bit w (8 * i + n)"
  by (auto simp: byte_of_def bit_take_bit_iff bit_drop_bit_eq)

text \<open>Each swap moves byte \<open>i\<close> to the mirrored place.\<close>

lemma split_byte: "n < 8 * m \<Longrightarrow> \<exists>k j. n = 8 * k + j \<and> k < m \<and> j < (8 :: nat)"
  by (rule exI [of _ "n div 8"], rule exI [of _ "n mod 8"]) auto

lemma bit_swap16: "k < 2 \<Longrightarrow> j < 8 \<Longrightarrow> bit (host2Network16 w) (8 * k + j) = bit w (8 * (1 - k) + j)"
proof -
  assume "k < 2" and j: "j < 8"
  then consider "k = 0" | "k = 1" by linarith
  then show ?thesis
    by cases (use j in \<open>simp_all add: host2Network16_def bit_or_iff bit_push_bit_iff bit_byte_of\<close>)
qed

lemma swap16_twice: "host2Network16 (host2Network16 a) = a"
proof (rule bit_word_eqI)
  fix n assume "n < LENGTH(16)"
  then obtain k j where "n = 8 * k + j" "k < 2" "j < 8" using split_byte [of n 2] by auto
  then show "bit (host2Network16 (host2Network16 a)) n = bit a n"
    using bit_swap16 [of k j "host2Network16 a"] bit_swap16 [of "1 - k" j a] by simp
qed

lemma bit_swap32: "k < 4 \<Longrightarrow> j < 8 \<Longrightarrow> bit (hostToNetwork32 w) (8 * k + j) = bit w (8 * (3 - k) + j)"
proof -
  assume "k < 4" and j: "j < 8"
  then consider "k = 0" | "k = 1" | "k = 2" | "k = 3" by linarith
  then show ?thesis
    by cases (use j in \<open>simp_all add: hostToNetwork32_def bit_or_iff bit_push_bit_iff bit_byte_of\<close>)
qed

lemma bit_swap64: "k < 8 \<Longrightarrow> j < 8 \<Longrightarrow> bit (hostToNetwork64 w) (8 * k + j) = bit w (8 * (7 - k) + j)"
proof -
  assume "k < 8" and j: "j < 8"
  then consider "k = 0" | "k = 1" | "k = 2" | "k = 3" | "k = 4" | "k = 5" | "k = 6" | "k = 7" by linarith
  then show ?thesis
    by cases (use j in \<open>simp_all add: hostToNetwork64_def bit_or_iff bit_push_bit_iff bit_byte_of\<close>)
qed

lemma swaps_same:
  "network2Host16 = host2Network16" "networkToHost32 = hostToNetwork32" "networkToHost64 = hostToNetwork64"
  by (auto simp: fun_eq_iff network2Host16_def host2Network16_def networkToHost32_def hostToNetwork32_def
      networkToHost64_def hostToNetwork64_def)

text \<open>
  The conversions to network order and back are inverse to each other at all three widths, and a
  16-bit value in network order is stored with its high byte first.
\<close>

theorem byte_order_roundtrip:
  "network2Host16 (host2Network16 a) = a \<and> networkToHost32 (hostToNetwork32 b) = b \<and>
   networkToHost64 (hostToNetwork64 c) = c \<and> le16 (host2Network16 a) = [ucast (drop_bit 8 a), ucast a]"
proof -
  have "network2Host16 (host2Network16 a) = a"
    by (simp add: swaps_same swap16_twice)
  moreover have "networkToHost32 (hostToNetwork32 b) = b"
    unfolding swaps_same
  proof (rule bit_word_eqI)
    fix n assume "n < LENGTH(32)"
    then obtain k j where "n = 8 * k + j" "k < 4" "j < 8" using split_byte [of n 4] by auto
    then show "bit (hostToNetwork32 (hostToNetwork32 b)) n = bit b n"
      using bit_swap32 [of k j "hostToNetwork32 b"] bit_swap32 [of "3 - k" j b] by simp
  qed
  moreover have "networkToHost64 (hostToNetwork64 c) = c"
    unfolding swaps_same
  proof (rule bit_word_eqI)
    fix n assume "n < LENGTH(64)"
    then obtain k j where "n = 8 * k + j" "k < 8" "j < 8" using split_byte [of n 8] by auto
    then show "bit (hostToNetwork64 (hostToNetwork64 c)) n = bit c n"
      using bit_swap64 [of k j "hostToNetwork64 c"] bit_swap64 [of "7 - k" j c] by simp
  qed
  moreover have "ucast (host2Network16 a) = (ucast (drop_bit 8 a) :: byte)"
    by (rule bit_word_eqI) (use bit_swap16 [of 0 _ a] in \<open>simp add: bit_ucast_iff bit_drop_bit_eq\<close>)
  moreover have "ucast (drop_bit 8 (host2Network16 a)) = (ucast a :: byte)"
    by (rule bit_word_eqI) (use bit_swap16 [of 1 _ a] in \<open>simp add: bit_ucast_iff bit_drop_bit_eq\<close>)
  ultimately show ?thesis by (simp add: le16_def)
qed

section \<open>Addresses\<close>

record sockaddr_in =
  sin_family :: nat
  sin_port :: ushort
  sin_addr :: uint32

definition AF_INET :: nat where "AF_INET = 2"

text \<open>\<open>inet_pton\<close> gives the address bytes, or \<open>None\<close> when the text is not an address.\<close>

definition makeSockAddr :: "(string \<Rightarrow> uint32 option) \<Rightarrow> string \<Rightarrow> ushort \<Rightarrow> sockaddr_in res" where
  "makeSockAddr inet_pton ip port =
     (case inet_pton ip of
        None \<Rightarrow> Inl AssertFail
      | Some a \<Rightarrow> Inr \<lparr>sin_family = AF_INET, sin_port = host2Network16 port, sin_addr = a\<rparr>)"

definition INET_ADDRSTRLEN :: nat where "INET_ADDRSTRLEN = 16"

text \<open>\<^verbatim>\<open>toIp\<close>; the text the library writes ends in a NUL inside the buffer.\<close>

definition toIp :: "(uint32 \<Rightarrow> string) \<Rightarrow> nat \<Rightarrow> sockaddr_in \<Rightarrow> string res" where
  "toIp inet_ntop bufsize addr = c_assert (INET_ADDRSTRLEN \<le> bufsize) (Inr (inet_ntop (sin_addr addr)))"

lemma makeSockAddr_roundtrip:
  assumes "\<And>s a. inet_pton s = Some a \<Longrightarrow> inet_ntop a = s" and "makeSockAddr inet_pton ip port = Inr addr"
    and "16 \<le> bufsize"
  shows "toIp inet_ntop bufsize addr = Inr ip \<and> network2Host16 (sin_port addr) = port"
proof -
  obtain a where "inet_pton ip = Some a" "addr = \<lparr>sin_family = AF_INET, sin_port = host2Network16 port, sin_addr = a\<rparr>"
    using assms(2) by (auto simp: makeSockAddr_def split: option.splits)
  moreover have "network2Host16 (host2Network16 port) = port"
    by (simp add: swaps_same swap16_twice)
  ultimately show ?thesis using assms(1,3) by (simp add: toIp_def INET_ADDRSTRLEN_def)
qed

section \<open>Calls\<close>

datatype errno =
    EAGAIN | ECONNABORTED | EINTR | EPROTO | EPERM | EMFILE
  | EBADF | EFAULT | EINVAL | ENFILE | ENOBUFS | ENOMEM | ENOTSOCK | EOPNOTSUPP
  | EINPROGRESS | EISCONN | EADDRINUSE | EADDRNOTAVAIL | ECONNREFUSED | ENETUNREACH
  | EACCES | EAFNOSUPPORT | EALREADY | EPIPE | ECONNRESET | EOther

text \<open>
  The plain wrappers: \<^verbatim>\<open>read\<close> and \<^verbatim>\<open>write\<close> answer a length or -1, \<^verbatim>\<open>connect\<close> 0 or -1; \<^verbatim>\<open>setReuseAddr\<close> and
  \<^verbatim>\<open>setReusePort\<close> are the option and the value they pass to \<^verbatim>\<open>setsockopt\<close>, whose answer nobody looks at.
\<close>

definition sock_read :: "errno + nat \<Rightarrow> int" where
  "sock_read r = (case r of Inl _ \<Rightarrow> - 1 | Inr n \<Rightarrow> int n)"

definition sock_write :: "errno + nat \<Rightarrow> int" where
  "sock_write r = (case r of Inl _ \<Rightarrow> - 1 | Inr n \<Rightarrow> int n)"

definition sock_connect :: "errno option \<Rightarrow> int" where
  "sock_connect r = (case r of None \<Rightarrow> 0 | Some _ \<Rightarrow> - 1)"

datatype sock_opt = SO_REUSEADDR | SO_REUSEPORT

definition setReuseAddr :: "bool \<Rightarrow> sock_opt \<times> int" where
  "setReuseAddr on = (SO_REUSEADDR, if on then 1 else 0)"

definition setReusePort :: "bool \<Rightarrow> sock_opt \<times> int" where
  "setReusePort on = (SO_REUSEPORT, if on then 1 else 0)"

text \<open>The switch of \<^verbatim>\<open>sockets::accept\<close>: a descriptor, no connection, or an assert.\<close>

definition sock_accept :: "errno + int \<Rightarrow> int res" where
  "sock_accept r =
     (case r of
        Inr connfd \<Rightarrow> Inr connfd
      | Inl err \<Rightarrow>
          if err \<in> {EBADF, EFAULT, EINVAL, ENFILE, ENOBUFS, ENOMEM, ENOTSOCK, EOPNOTSUPP}
          then Inl AssertFail else Inr (- 1))"

text \<open>\<open>code\<close> is the number of an error. \<^verbatim>\<open>bind\<close> answers the positive number, \<^verbatim>\<open>listen\<close> the -1 itself.\<close>

definition sock_bind :: "(errno \<Rightarrow> int) \<Rightarrow> errno option \<Rightarrow> int" where
  "sock_bind code r = (case r of None \<Rightarrow> 0 | Some e \<Rightarrow> code e)"

definition sock_listen :: "errno option \<Rightarrow> int" where
  "sock_listen r = (case r of None \<Rightarrow> 0 | Some _ \<Rightarrow> - 1)"

definition createNonblockTcpSock :: "errno + int \<Rightarrow> int res" where
  "createNonblockTcpSock r = (case r of Inl _ \<Rightarrow> Inl AssertFail | Inr sockfd \<Rightarrow> Inr sockfd)"

definition shutdownWrite :: "errno option \<Rightarrow> unit res" where
  "shutdownWrite r = (case r of None \<Rightarrow> Inr () | Some _ \<Rightarrow> Inl AssertFail)"

definition getsockError :: "(errno \<Rightarrow> int) \<Rightarrow> errno + int \<Rightarrow> int" where
  "getsockError code r = (case r of Inl e \<Rightarrow> code e | Inr optval \<Rightarrow> optval)"

definition get_addr :: "errno + sockaddr_in \<Rightarrow> sockaddr_in res" where
  "get_addr r = (case r of Inl _ \<Rightarrow> Inl AssertFail | Inr addr \<Rightarrow> Inr addr)"

text \<open>A failed \<^verbatim>\<open>bind\<close> never gives the negative result that a caller might test for.\<close>

lemma sock_bind_nonneg: "(\<And>e. 0 < code e) \<Longrightarrow> 0 \<le> sock_bind code r \<and> (sock_bind code r = 0 \<longleftrightarrow> r = None)"
  by (auto simp: sock_bind_def less_imp_le split: option.splits) (metis less_irrefl)

end
