(* ===== verification/Connection.thy ===== *)
theory Connection
  imports ByteBuffer Events SocketOps
begin

text \<open>
  \<^verbatim>\<open>net/NetConnection.h\<close> and \<^verbatim>\<open>net/NetConnection.cpp\<close>: one TCP connection, on the client and on the
  server side. Its event handler object, its two buffers and its state are modelled with what the
  functions do to them; the callbacks to the upper layer, the system calls and the updates of the
  poll set are recorded in \<open>out\<close>. The kernel's answers are arguments, and a function that is not
  called on the loop thread leaves a task in \<open>tasks\<close>.
\<close>

section \<open>State\<close>

datatype NetState = eDisconnected | eConnecting | eConnected

datatype handler_fn = HRead | HWrite | HClose | HError

datatype conn_out =
    ConnCb NetState | MsgCb "byte list" | WriteCompleteCb | CloseCb
  | Written "byte list" | ShutdownWr | PollUpdate uint32 | PollRemove | Dropped "byte list"

datatype conn_task = EstablishTask | SendTask "byte list" | CloseTask | ShutdownTask

record NetConnection =
  event :: "EventHandler option"
  onRead :: handler_fn
  onWrite :: handler_fn
  readBuffer :: Buffer
  writeBuffer :: Buffer
  state :: NetState
  connCallbackFunc :: bool
  msgRecvFunc :: bool
  writeCompleteFunc :: bool
  closeFunc :: bool
  tasks :: "conn_task list"
  out :: "conn_out list"

text \<open>The constructor calls \<^verbatim>\<open>setWriteCallback\<close> three times; the last one stays.\<close>

definition new_NetConnection :: "(nat \<Rightarrow> byte) \<Rightarrow> int \<Rightarrow> NetConnection" where
  "new_NetConnection junk sockfd =
     (let c = \<lparr>event = Some (new_EventHandler sockfd), onRead = HRead, onWrite = HWrite,
               readBuffer = new_Buffer junk, writeBuffer = new_Buffer junk, state = eDisconnected,
               connCallbackFunc = False, msgRecvFunc = False, writeCompleteFunc = False, closeFunc = False,
               tasks = [], out = []\<rparr>;
          c = c\<lparr>event := map_option (\<lambda>e. e\<lparr>readCallback := True\<rparr>) (event c)\<rparr>;
          c = c\<lparr>event := map_option (\<lambda>e. e\<lparr>writeCallback := True\<rparr>) (event c), onWrite := HWrite\<rparr>;
          c = c\<lparr>onWrite := HClose\<rparr>;
          c = c\<lparr>onWrite := HError\<rparr>
      in c)"

definition set_callbacks :: "bool \<Rightarrow> bool \<Rightarrow> bool \<Rightarrow> bool \<Rightarrow> NetConnection \<Rightarrow> NetConnection" where
  "set_callbacks conn msg compl close c =
     c\<lparr>connCallbackFunc := conn, msgRecvFunc := msg, writeCompleteFunc := compl, closeFunc := close\<rparr>"

definition isConnected :: "NetConnection \<Rightarrow> bool" where
  "isConnected c \<longleftrightarrow> state c = eConnected"

definition emit :: "conn_out list \<Rightarrow> NetConnection \<Rightarrow> NetConnection" where
  "emit xs c = c\<lparr>out := out c @ xs\<rparr>"

text \<open>The bytes put on the wire and the messages handed up, as an output trace shows them.\<close>

definition wire_bytes :: "conn_out list \<Rightarrow> byte list" where
  "wire_bytes xs = concat (map (\<lambda>x. case x of Written b \<Rightarrow> b | _ \<Rightarrow> []) xs)"

definition msgs_up :: "conn_out list \<Rightarrow> byte list list" where
  "msgs_up xs = concat (map (\<lambda>x. case x of MsgCb b \<Rightarrow> [b] | _ \<Rightarrow> []) xs)"

lemma trace_simps [simp]:
  "wire_bytes [] = []" "wire_bytes (xs @ ys) = wire_bytes xs @ wire_bytes ys"
  "wire_bytes (Written b # xs) = b @ wire_bytes xs" "wire_bytes (WriteCompleteCb # xs) = wire_bytes xs"
  "wire_bytes (ConnCb s # xs) = wire_bytes xs" "wire_bytes (CloseCb # xs) = wire_bytes xs"
  "wire_bytes (PollUpdate m # xs) = wire_bytes xs" "wire_bytes (PollRemove # xs) = wire_bytes xs"
  "wire_bytes (MsgCb b # xs) = wire_bytes xs" "wire_bytes (Dropped b # xs) = wire_bytes xs"
  "wire_bytes (ShutdownWr # xs) = wire_bytes xs"
  "msgs_up [] = []" "msgs_up (xs @ ys) = msgs_up xs @ msgs_up ys"
  "msgs_up (Written b # xs) = msgs_up xs" "msgs_up (WriteCompleteCb # xs) = msgs_up xs"
  "msgs_up (ConnCb s # xs) = msgs_up xs" "msgs_up (CloseCb # xs) = msgs_up xs"
  "msgs_up (PollUpdate m # xs) = msgs_up xs" "msgs_up (PollRemove # xs) = msgs_up xs"
  "msgs_up (MsgCb b # xs) = b # msgs_up xs" "msgs_up (Dropped b # xs) = msgs_up xs"
  "msgs_up (ShutdownWr # xs) = msgs_up xs"
  by (simp_all add: wire_bytes_def msgs_up_def)

text \<open>A call through the pointer \<^verbatim>\<open>event_\<close>.\<close>

definition with_event :: "NetConnection \<Rightarrow> (EventHandler \<Rightarrow> 'a res) \<Rightarrow> 'a res" where
  "with_event c k = (case event c of None \<Rightarrow> Inl NullDeref | Some e \<Rightarrow> k e)"

definition set_event :: "EventHandler \<Rightarrow> NetConnection \<Rightarrow> NetConnection" where
  "set_event e c = emit [PollUpdate (events e)] (c\<lparr>event := Some e\<rparr>)"

section \<open>Operations\<close>

text \<open>
  \<^verbatim>\<open>handleClose\<close>: the two callbacks, then \<^verbatim>\<open>delete event_\<close>, whose destructor updates and removes the
  descriptor's entry of the poll set. The descriptor itself is not closed.
\<close>

definition handleClose :: "NetConnection \<Rightarrow> NetConnection res" where
  "handleClose c = with_event c (\<lambda>e.
     let c = c\<lparr>state := eDisconnected\<rparr>;
         c = (if connCallbackFunc c then emit [ConnCb (state c)] c else c);
         c = (if closeFunc c then emit [CloseCb] c else c)
     in Inr (emit [PollUpdate csEventNone, PollRemove] (c\<lparr>event := None\<rparr>)))"

definition handleError :: "NetConnection \<Rightarrow> NetConnection res" where
  "handleError c = with_event c (\<lambda>e. Inr c)"

text \<open>\<open>r\<close> is what \<^verbatim>\<open>readv\<close> answers, see \<^verbatim>\<open>Buffer::readfd\<close>.\<close>

definition handleRead :: "(nat \<Rightarrow> byte) \<Rightarrow> (int + byte list) \<Rightarrow> NetConnection \<Rightarrow> NetConnection res" where
  "handleRead junk r c = with_event c (\<lambda>e.
     res_bind (readfd junk (reset (readBuffer c)) r) (\<lambda>(n, err, b).
     let c = c\<lparr>readBuffer := b\<rparr> in
     if 0 < n then Inr (if msgRecvFunc c then emit [MsgCb (content b)] c else c)
     else if n = 0 then handleClose c
     else handleError c))"

text \<open>\<open>w\<close> is what \<^verbatim>\<open>write\<close> answers: an error or the number of bytes taken.\<close>

definition handleWrite :: "(errno + nat) \<Rightarrow> NetConnection \<Rightarrow> NetConnection res" where
  "handleWrite w c = with_event c (\<lambda>e.
     case w of
       Inl err \<Rightarrow> Inl AssertFail
     | Inr writelen \<Rightarrow>
         c_assert (0 < writelen)
           (res_bind (retrieve (writeBuffer c) writelen) (\<lambda>b.
            let c = emit [Written (take writelen (content (writeBuffer c)))] (c\<lparr>writeBuffer := b\<rparr>) in
            Inr (if readableBytes b = 0
                 then let c = set_event (set_disableWrite e) c
                      in if writeCompleteFunc c then emit [WriteCompleteCb] c else c
                 else c))))"

text \<open>
  \<^verbatim>\<open>sendInReactor\<close>. \<open>Dropped\<close> records data that the function neither writes nor keeps: when the write
  buffer is not empty, and when \<^verbatim>\<open>write\<close> fails, \<^verbatim>\<open>remain\<close> is still 0 at the end.
\<close>

definition sendInReactor :: "(nat \<Rightarrow> byte) \<Rightarrow> (errno + nat) \<Rightarrow> byte list \<Rightarrow> NetConnection \<Rightarrow> NetConnection res" where
  "sendInReactor junk w data c =
     (if state c = eDisconnected then Inr (emit [Dropped data] c)
      else if readableBytes (writeBuffer c) = 0 then
        with_event c (\<lambda>e.
          case w of
            Inl err \<Rightarrow> Inr (emit [Dropped data] c)
          | Inr nowwrite \<Rightarrow>
              let remain = length data - nowwrite;
                  c = emit [Written (take nowwrite data)] c;
                  c = (if remain = 0 \<and> writeCompleteFunc c then emit [WriteCompleteCb] c else c)
              in if 0 < remain
                 then res_bind (buf_write junk (writeBuffer c) (drop nowwrite data)) (\<lambda>b.
                        let c = c\<lparr>writeBuffer := b\<rparr> in
                        Inr (if \<not> isWriteable e then set_event (set_enableWrite e) c else c))
                 else Inr c)
      else Inr (emit [Dropped data] c))"

definition send :: "(nat \<Rightarrow> byte) \<Rightarrow> bool \<Rightarrow> (errno + nat) \<Rightarrow> byte list \<Rightarrow> NetConnection \<Rightarrow> NetConnection res" where
  "send junk in_loop w msg c =
     (if state c = eConnected
      then if in_loop then sendInReactor junk w msg c else Inr (c\<lparr>tasks := tasks c @ [SendTask msg]\<rparr>)
      else Inr (emit [Dropped msg] c))"

definition forceClose :: "bool \<Rightarrow> NetConnection \<Rightarrow> NetConnection res" where
  "forceClose in_loop c =
     (if state c = eConnected
      then let c = c\<lparr>state := eDisconnected\<rparr> in
           if in_loop then handleClose c else Inr (c\<lparr>tasks := tasks c @ [CloseTask]\<rparr>)
      else Inr c)"

text \<open>The destructor. An event handler that was never told to close is not deleted.\<close>

definition delete_NetConnection :: "bool \<Rightarrow> NetConnection \<Rightarrow> NetConnection res" where
  "delete_NetConnection in_loop c = forceClose in_loop c"

declare delete_NetConnection_def [simp]

definition connEstablished :: "NetConnection \<Rightarrow> NetConnection res" where
  "connEstablished c =
     (let c = c\<lparr>state := eConnected\<rparr>;
          c = (if connCallbackFunc c then emit [ConnCb (state c)] c else c)
      in with_event c (\<lambda>e. Inr (set_event (set_enableRead e) c)))"

definition shutdownInReactor :: "errno option \<Rightarrow> NetConnection \<Rightarrow> NetConnection res" where
  "shutdownInReactor r c = with_event c (\<lambda>e.
     if \<not> isWriteable e then res_bind (shutdownWrite r) (\<lambda>_. Inr (emit [ShutdownWr] c)) else Inr c)"

definition shutdown :: "bool \<Rightarrow> errno option \<Rightarrow> NetConnection \<Rightarrow> NetConnection res" where
  "shutdown in_loop r c =
     (if state c = eConnected
      then if in_loop then shutdownInReactor r c else Inr (c\<lparr>tasks := tasks c @ [ShutdownTask]\<rparr>)
      else Inr c)"

text \<open>The loop thread runs the oldest task the connection has posted.\<close>

definition run_task :: "(nat \<Rightarrow> byte) \<Rightarrow> (errno + nat) \<Rightarrow> errno option \<Rightarrow> NetConnection \<Rightarrow> NetConnection res" where
  "run_task junk w r c =
     (case tasks c of
        [] \<Rightarrow> Inr c
      | t # ts \<Rightarrow>
          let c = c\<lparr>tasks := ts\<rparr> in
          (case t of
             EstablishTask \<Rightarrow> connEstablished c
           | SendTask msg \<Rightarrow> sendInReactor junk w msg c
           | CloseTask \<Rightarrow> handleClose c
           | ShutdownTask \<Rightarrow> shutdownInReactor r c))"

text \<open>The tasks in turn, \<open>ws\<close> what \<^verbatim>\<open>write\<close> answers in each.\<close>

fun run_tasks :: "(nat \<Rightarrow> byte) \<Rightarrow> (errno + nat) list \<Rightarrow> NetConnection \<Rightarrow> NetConnection res" where
  "run_tasks junk [] c = Inr c"
| "run_tasks junk (w # ws) c = res_bind (run_task junk w None c) (run_tasks junk ws)"

text \<open>The events of the descriptor, through \<^verbatim>\<open>EventHandler::handEvent\<close>.\<close>

definition conn_handler :: "(nat \<Rightarrow> byte) \<Rightarrow> (int + byte list) \<Rightarrow> (errno + nat) \<Rightarrow> handler_fn \<Rightarrow> NetConnection \<Rightarrow> NetConnection res" where
  "conn_handler junk r w f =
     (case f of HRead \<Rightarrow> handleRead junk r | HWrite \<Rightarrow> handleWrite w | HClose \<Rightarrow> handleClose | HError \<Rightarrow> handleError)"

definition conn_event :: "(nat \<Rightarrow> byte) \<Rightarrow> uint32 \<Rightarrow> (int + byte list) \<Rightarrow> (errno + nat) \<Rightarrow> NetConnection \<Rightarrow> NetConnection res" where
  "conn_event junk revs r w c = with_event c (\<lambda>e.
     handEvent (e\<lparr>revents := revs\<rparr>)
       (\<lambda>call c. case call of
          ReadCall \<Rightarrow> conn_handler junk r w (onRead c) c
        | WriteCall \<Rightarrow> conn_handler junk r w (onWrite c) c
        | _ \<Rightarrow> Inr c)
       (\<lambda>c. event c \<noteq> None) c)"

section \<open>Invariant\<close>

text \<open>
  While the connection is up its handler exists, watches for input, and has only the two callbacks the
  constructor installed; the write buffer is a consistent buffer.
\<close>

definition conn_inv :: "NetConnection \<Rightarrow> bool" where
  "conn_inv c \<longleftrightarrow> buf_inv (readBuffer c) \<and> buf_inv (writeBuffer c) \<and>
     onRead c = HRead \<and> onWrite c = HError \<and>
     (state c = eConnected \<longrightarrow> event c \<noteq> None) \<and>
     (\<forall>e. event c = Some e \<longrightarrow> readCallback e \<and> writeCallback e \<and> \<not> closeCallback e \<and> \<not> errorCallback e)"

lemma emit_simps [simp]:
  "event (emit xs c) = event c" "onRead (emit xs c) = onRead c" "onWrite (emit xs c) = onWrite c"
  "readBuffer (emit xs c) = readBuffer c" "writeBuffer (emit xs c) = writeBuffer c" "state (emit xs c) = state c"
  "connCallbackFunc (emit xs c) = connCallbackFunc c" "msgRecvFunc (emit xs c) = msgRecvFunc c"
  "writeCompleteFunc (emit xs c) = writeCompleteFunc c" "closeFunc (emit xs c) = closeFunc c"
  "tasks (emit xs c) = tasks c" "out (emit xs c) = out c @ xs"
  by (simp_all add: emit_def)

lemma set_event_simps [simp]:
  "event (set_event e c) = Some e" "onRead (set_event e c) = onRead c" "onWrite (set_event e c) = onWrite c"
  "readBuffer (set_event e c) = readBuffer c" "writeBuffer (set_event e c) = writeBuffer c"
  "state (set_event e c) = state c" "connCallbackFunc (set_event e c) = connCallbackFunc c"
  "msgRecvFunc (set_event e c) = msgRecvFunc c" "closeFunc (set_event e c) = closeFunc c" "writeCompleteFunc (set_event e c) = writeCompleteFunc c"
  "tasks (set_event e c) = tasks c" "out (set_event e c) = out c @ [PollUpdate (events e)]"
  by (simp_all add: set_event_def)

lemma set_mask_callbacks [simp]:
  "readCallback (set_enableRead e) = readCallback e" "writeCallback (set_enableRead e) = writeCallback e"
  "closeCallback (set_enableRead e) = closeCallback e" "errorCallback (set_enableRead e) = errorCallback e"
  "readCallback (set_enableWrite e) = readCallback e" "writeCallback (set_enableWrite e) = writeCallback e"
  "closeCallback (set_enableWrite e) = closeCallback e" "errorCallback (set_enableWrite e) = errorCallback e"
  "readCallback (set_disableWrite e) = readCallback e" "writeCallback (set_disableWrite e) = writeCallback e"
  "closeCallback (set_disableWrite e) = closeCallback e" "errorCallback (set_disableWrite e) = errorCallback e"
  by (simp_all add: set_enableRead_def set_enableWrite_def set_disableWrite_def)

lemma conn_inv_new [simp]: "conn_inv (set_callbacks a b d e (new_NetConnection junk sockfd))"
  by (simp add: conn_inv_def set_callbacks_def new_NetConnection_def Let_def new_EventHandler_def)

lemma handleClose_result:
  assumes "event c = Some e"
  shows "\<exists>d. handleClose c = Inr d \<and> event d = None \<and> state d = eDisconnected \<and>
     out d = out c @ (if connCallbackFunc c then [ConnCb eDisconnected] else []) @
       (if closeFunc c then [CloseCb] else []) @ [PollUpdate csEventNone, PollRemove] \<and> tasks d = tasks c \<and>
     readBuffer d = readBuffer c \<and> writeBuffer d = writeBuffer c \<and> onRead d = onRead c \<and> onWrite d = onWrite c \<and>
     msgRecvFunc d = msgRecvFunc c"
  using assms by (auto simp: handleClose_def with_event_def Let_def)

lemma conn_inv_handleClose: "conn_inv c \<Longrightarrow> handleClose c = Inr d \<Longrightarrow> conn_inv d"
proof -
  assume inv: "conn_inv c" and d: "handleClose c = Inr d"
  then obtain e where "event c = Some e" by (auto simp: handleClose_def with_event_def split: option.splits)
  from handleClose_result [OF this] inv d show ?thesis by (auto simp: conn_inv_def)
qed

text \<open>Reading: every byte of the answer of \<^verbatim>\<open>readv\<close> reaches the message callback.\<close>

lemma reset_read_room:
  assumes "buf_inv b" and "readv_fits (reset b) (Inr xs)"
  shows "\<exists>b'. readfd junk (reset b) (Inr xs) = Inr (int (length xs), None, b') \<and> buf_inv b' \<and> content b' = xs"
proof -
  have inv: "buf_inv (reset b)" "content (reset b) = []" using reset_inv [OF assms(1)] by simp_all
  have pos: "readPos (reset b) = 8" by (simp add: reset_def csPrependSize_def)
  show ?thesis
    using readfd_content [OF inv(1) assms(2), of junk] inv(2) by (auto simp: pos)
qed

lemma handleRead_data:
  assumes "conn_inv c" and "event c = Some e" and "xs \<noteq> []" and "readv_fits (reset (readBuffer c)) (Inr xs)"
  shows "\<exists>d. handleRead junk (Inr xs) c = Inr d \<and> conn_inv d \<and> event d = event c \<and> state d = state c \<and>
     writeBuffer d = writeBuffer c \<and> out d = out c @ (if msgRecvFunc c then [MsgCb xs] else []) \<and>
     tasks d = tasks c \<and> msgRecvFunc d = msgRecvFunc c \<and> connCallbackFunc d = connCallbackFunc c \<and>
     closeFunc d = closeFunc c \<and> content (readBuffer d) = xs"
proof -
  from assms(1) have "buf_inv (readBuffer c)" by (simp add: conn_inv_def)
  from reset_read_room [OF this assms(4), of junk] obtain b where
    b: "readfd junk (reset (readBuffer c)) (Inr xs) = Inr (int (length xs), None, b)" "buf_inv b" "content b = xs"
    by blast
  with assms show ?thesis by (auto simp: handleRead_def with_event_def Let_def conn_inv_def)
qed

lemma handleRead_eof:
  assumes "conn_inv c" and "event c = Some e"
  shows "handleRead junk (Inr []) c = handleClose (c\<lparr>readBuffer := reset (readBuffer c)\<rparr>)"
proof -
  from assms(1) have "buf_inv (reset (readBuffer c))" using reset_inv by (simp add: conn_inv_def)
  then have "store (mem (reset (readBuffer c))) (writePos (reset (readBuffer c))) [] = Inr (mem (reset (readBuffer c)))"
    by (auto simp: store_def buf_defs)
  with assms show ?thesis by (simp add: handleRead_def with_event_def readfd_def Let_def)
qed

section \<open>Receiving\<close>

text \<open>
  A read event hands the upper layer exactly the bytes the kernel returned, whatever the previous
  read left in the buffer, also when they do not fit the buffer; the connection stays as it is.
\<close>

theorem read_event_delivers:
  assumes "conn_inv c" and "event c = Some e" and "msgRecvFunc c" and "xs \<noteq> []"
    and "readv_fits (reset (readBuffer c)) (Inr xs)"
  shows "\<exists>d. conn_event junk POLLIN (Inr xs) w c = Inr d \<and> conn_inv d \<and> out d = out c @ [MsgCb xs] \<and>
     state d = state c"
proof -
  obtain d where d: "handleRead junk (Inr xs) c = Inr d" "conn_inv d" "event d = event c" "state d = state c"
    "out d = out c @ [MsgCb xs]"
    using handleRead_data [OF assms(1,2,4,5), of junk] assms(3) by auto
  have cb: "readCallback e" "onRead c = HRead" using assms(1,2) by (auto simp: conn_inv_def)
  have fires: "\<not> close_fires (e\<lparr>revents := POLLIN\<rparr>)" "\<not> error_fires (e\<lparr>revents := POLLIN\<rparr>)"
    "read_fires (e\<lparr>revents := POLLIN\<rparr>)" "\<not> write_fires (e\<lparr>revents := POLLIN\<rparr>)"
    by (simp_all add: close_fires_def error_fires_def read_fires_def write_fires_def poll_bits)
  show ?thesis
    using assms(2) cb fires d
    by (auto simp: conn_event_def with_event_def handEvent_def guarded_def conn_handler_def)
qed

definition demo_conn :: NetConnection where
  "demo_conn = (set_callbacks True True True True (new_NetConnection (\<lambda>_. 0) 7))\<lparr>state := eConnected\<rparr>"

lemma demo_conn_facts [simp]:
  "conn_inv demo_conn" "event demo_conn = Some ((new_EventHandler 7)\<lparr>readCallback := True, writeCallback := True\<rparr>)"
  "msgRecvFunc demo_conn" "state demo_conn = eConnected" "writeBuffer demo_conn = new_Buffer (\<lambda>_. 0)"
  "readBuffer demo_conn = new_Buffer (\<lambda>_. 0)" "tasks demo_conn = []" "out demo_conn = []"
  by (simp_all add: demo_conn_def set_callbacks_def new_NetConnection_def Let_def conn_inv_def new_EventHandler_def)

lemma demo_readv: "length xs \<le> 4096 \<Longrightarrow> readv_fits (reset (new_Buffer junk)) (Inr xs)"
  by (simp add: readv_fits_def readv_room_def reset_def new_Buffer_def writeableBytes_def capacity_def
      csPrependSize_def csInitialSize_def)

theorem read_event_delivers_witness:
  "\<exists>d. conn_event (\<lambda>_. 0) POLLIN (Inr [104, 105]) (Inr 0) demo_conn = Inr d \<and> conn_inv d \<and>
     out d = out demo_conn @ [MsgCb [104, 105]] \<and> state d = state demo_conn"
  by (rule read_event_delivers) (simp_all add: demo_readv)

text \<open>
  C28. When the peer closes the connection, the read handler deletes the event handler object while
  \<^verbatim>\<open>handEvent\<close> is still running on it, and \<^verbatim>\<open>handEvent\<close> reads the deleted object.
\<close>

theorem eof_use_after_free:
  assumes "conn_inv c" and "event c = Some e" and "revs AND (POLLIN OR POLLPRI OR POLLRDHUP) \<noteq> 0"
  shows "conn_event junk revs (Inr []) w c = Inl UseAfterFree"
proof -
  have cb: "readCallback e" "onRead c = HRead" "\<not> closeCallback e" "\<not> errorCallback e"
    using assms(1,2) by (auto simp: conn_inv_def)
  have "event (c\<lparr>readBuffer := reset (readBuffer c)\<rparr>) = Some e" using assms(2) by simp
  from handleClose_result [OF this] handleRead_eof [OF assms(1,2)] obtain d where
    d: "handleRead junk (Inr []) c = Inr d" "event d = None" by auto
  have "read_fires (e\<lparr>revents := revs\<rparr>)" using assms(3) by (simp add: read_fires_def)
  with assms(2) cb d show ?thesis
    by (simp add: conn_event_def with_event_def handEvent_def guarded_def conn_handler_def)
qed

theorem eof_use_after_free_witness:
  "conn_event (\<lambda>_. 0) 0x2001 (Inr []) (Inr 0) demo_conn = Inl UseAfterFree"
  by (rule eof_use_after_free [OF demo_conn_facts(1,2)]) (simp add: poll_bits)

section \<open>Sending\<close>

text \<open>
  With nothing waiting in the write buffer, \<^verbatim>\<open>sendInReactor\<close> loses nothing of what \<^verbatim>\<open>write\<close> does not
  take at once: the rest goes to the write buffer in order and write events are enabled for it.
\<close>

theorem send_conserves:
  assumes "conn_inv c" and "state c = eConnected" and "event c = Some e" and "content (writeBuffer c) = []"
    and "n \<le> length data" and "write_room (writeBuffer c) (length data - n)"
  shows "\<exists>d. sendInReactor junk (Inr n) data c = Inr d \<and> conn_inv d \<and>
     content (writeBuffer d) = drop n data \<and> Written (take n data) \<in> set (out d) \<and>
     (n < length data \<longrightarrow> (\<exists>e'. event d = Some e' \<and> isWriteable e'))"
proof -
  have inv: "buf_inv (writeBuffer c)" using assms(1) by (simp add: conn_inv_def)
  then have empty: "readableBytes (writeBuffer c) = 0" using assms(4) length_content by fastforce
  show ?thesis
  proof (cases "n < length data")
    case True
    have "write_room (writeBuffer c) (length (drop n data))" using assms(6) by simp
    from bq.put_law [OF inv this, of junk] assms(4) obtain b where
      b: "buf_write junk (writeBuffer c) (drop n data) = Inr b" "buf_inv b" "content b = drop n data" by auto
    show ?thesis
    proof (cases "isWriteable e")
      case w: True
      with True b empty assms(1-3) show ?thesis
        by (auto simp: sendInReactor_def with_event_def Let_def conn_inv_def)
    next
      case False
      with True b empty assms(1-3) show ?thesis
        by (auto simp: sendInReactor_def with_event_def Let_def conn_inv_def)
    qed
  next
    case False
    with empty assms show ?thesis
      by (auto simp: sendInReactor_def with_event_def Let_def conn_inv_def)
  qed
qed

theorem send_conserves_witness:
  "\<exists>d. sendInReactor (\<lambda>_. 0) (Inr 1) [1, 2, 3] demo_conn = Inr d \<and> conn_inv d \<and>
     content (writeBuffer d) = drop 1 [1, 2, 3] \<and> Written (take 1 [1, 2, 3]) \<in> set (out d) \<and>
     (\<exists>e'. event d = Some e' \<and> isWriteable e')"
  using send_conserves [OF demo_conn_facts(1,4,2), of 1 "[1, 2, 3]" "\<lambda>_. 0"] by (simp add: fresh_room)

text \<open>
  A message that is sent while earlier bytes still wait in the write buffer is neither written nor
  queued, and neither is one for which \<^verbatim>\<open>write\<close> fails, a full socket buffer (EAGAIN) included.
\<close>

theorem send_drops:
  assumes "state c = eConnected" and "event c = Some e"
    and "content (writeBuffer c) \<noteq> [] \<or> (\<exists>err. w = Inl err)"
  shows "sendInReactor junk w data c = Inr (emit [Dropped data] c)"
proof (cases "readableBytes (writeBuffer c) = 0")
  case True
  then have "content (writeBuffer c) = []" by (simp add: content_def)
  with True assms show ?thesis by (auto simp: sendInReactor_def with_event_def)
next
  case False
  with assms(1) show ?thesis by (simp add: sendInReactor_def)
qed

theorem send_drops_witness:
  "sendInReactor (\<lambda>_. 0) (Inl EAGAIN) [1, 2, 3] demo_conn = Inr (emit [Dropped [1, 2, 3]] demo_conn)"
  by (rule send_drops [OF demo_conn_facts(4,2)]) simp

text \<open>
  What waits in the write buffer is never sent: with the callbacks the constructor installs, a
  write event runs the error handler and changes nothing.
\<close>

theorem write_event_idle:
  assumes "conn_inv c" and "event c = Some e"
  shows "conn_event junk POLLOUT r w c = Inr c"
proof -
  have cb: "writeCallback e" "onWrite c = HError" using assms by (auto simp: conn_inv_def)
  have "\<not> close_fires (e\<lparr>revents := POLLOUT\<rparr>)" "\<not> error_fires (e\<lparr>revents := POLLOUT\<rparr>)"
    "\<not> read_fires (e\<lparr>revents := POLLOUT\<rparr>)" "write_fires (e\<lparr>revents := POLLOUT\<rparr>)"
    by (simp_all add: close_fires_def error_fires_def read_fires_def write_fires_def poll_bits)
  with assms(2) cb show ?thesis
    by (simp add: conn_event_def with_event_def handEvent_def guarded_def conn_handler_def handleError_def)
qed

theorem write_event_idle_witness:
  "conn_event (\<lambda>_. 0) POLLOUT (Inr []) (Inr 3) demo_conn = Inr demo_conn"
  by (rule write_event_idle [OF demo_conn_facts(1,2)])

text \<open>
  The handler that should have been installed does flush the buffer: it sends a prefix, keeps the rest, and
  stops watching for write events when nothing is left.
\<close>

lemma handleWrite_flushes:
  assumes "conn_inv c" and "event c = Some e" and "0 < n" and "n \<le> length (content (writeBuffer c))"
  shows "\<exists>d. handleWrite (Inr n) c = Inr d \<and> content (writeBuffer d) = drop n (content (writeBuffer c)) \<and>
     Written (take n (content (writeBuffer c))) \<in> set (out d) \<and>
     (n = length (content (writeBuffer c)) \<longrightarrow> (\<exists>e'. event d = Some e' \<and> \<not> isWriteable e'))"
proof -
  have inv: "buf_inv (writeBuffer c)" using assms(1) by (simp add: conn_inv_def)
  have "n \<le> readableBytes (writeBuffer c)" using assms(4) length_content [OF inv] by simp
  from retrieve_content [OF inv this] obtain b where b: "retrieve (writeBuffer c) n = Inr b" "buf_inv b"
    "content b = drop n (content (writeBuffer c))" by blast
  moreover have "readableBytes b = length (content (writeBuffer c)) - n"
    using length_content [OF b(2)] b(3) by simp
  ultimately show ?thesis
    using assms(2-4) by (auto simp: handleWrite_def with_event_def Let_def)
qed

section \<open>Closing\<close>

text \<open>
  \<^verbatim>\<open>forceClose\<close> on an open connection reports the disconnection once, removes the descriptor from the
  poll set and leaves a connection that sends nothing any more; on a closed one it does nothing.
\<close>

theorem forceClose_correct:
  assumes "conn_inv c"
  shows "if state c = eConnected
     then \<exists>d. forceClose True c = Inr d \<and> conn_inv d \<and> state d = eDisconnected \<and> event d = None \<and>
       out d = out c @ (if connCallbackFunc c then [ConnCb eDisconnected] else []) @
         (if closeFunc c then [CloseCb] else []) @ [PollUpdate csEventNone, PollRemove] \<and>
       forceClose True d = Inr d \<and> send junk il w msg d = Inr (emit [Dropped msg] d)
     else forceClose True c = Inr c"
proof (cases "state c = eConnected")
  case True
  then obtain e where "event (c\<lparr>state := eDisconnected\<rparr>) = Some e" using assms by (auto simp: conn_inv_def)
  from handleClose_result [OF this] obtain d where d: "handleClose (c\<lparr>state := eDisconnected\<rparr>) = Inr d"
    "event d = None" "state d = eDisconnected"
    "out d = out c @ (if connCallbackFunc c then [ConnCb eDisconnected] else []) @
         (if closeFunc c then [CloseCb] else []) @ [PollUpdate csEventNone, PollRemove]" by auto
  have "conn_inv (c\<lparr>state := eDisconnected\<rparr>)" using assms by (simp add: conn_inv_def)
  from conn_inv_handleClose [OF this d(1)] d True show ?thesis
    by (simp add: forceClose_def send_def Let_def)
qed (simp add: forceClose_def)

theorem forceClose_correct_witness:
  "if state demo_conn = eConnected
     then \<exists>d. forceClose True demo_conn = Inr d \<and> conn_inv d \<and> state d = eDisconnected \<and> event d = None \<and>
       out d = out demo_conn @ (if connCallbackFunc demo_conn then [ConnCb eDisconnected] else []) @
         (if closeFunc demo_conn then [CloseCb] else []) @ [PollUpdate csEventNone, PollRemove] \<and>
       forceClose True d = Inr d \<and> send (\<lambda>_. 0) True (Inr 0) [1] d = Inr (emit [Dropped [1]] d)
     else forceClose True demo_conn = Inr demo_conn"
  by (rule forceClose_correct) simp

text \<open>
  A \<^verbatim>\<open>shutdown\<close> from another thread that reaches the loop after the connection was closed
  dereferences the null handler.
\<close>

theorem shutdown_after_close:
  assumes "conn_inv c" and "state c = eConnected" and "tasks c = []"
  shows "\<exists>d d'. shutdown False r c = Inr d \<and> handleClose d = Inr d' \<and> run_task junk w r d' = Inl NullDeref"
proof -
  from assms(1,2) obtain e where e: "event c = Some e" by (auto simp: conn_inv_def)
  let ?d = "c\<lparr>tasks := [ShutdownTask]\<rparr>"
  from handleClose_result [of ?d e] e obtain d' where d': "handleClose ?d = Inr d'" "event d' = None"
    "tasks d' = [ShutdownTask]" by auto
  have "shutdown False r c = Inr ?d" using assms(2,3) by (simp add: shutdown_def)
  with d' show ?thesis by (auto simp: run_task_def Let_def shutdownInReactor_def with_event_def)
qed

theorem shutdown_after_close_witness:
  "\<exists>d d'. shutdown False None demo_conn = Inr d \<and> handleClose d = Inr d' \<and>
     run_task (\<lambda>_. 0) (Inr 0) None d' = Inl NullDeref"
  by (rule shutdown_after_close) simp_all

end
