(* ===== verification/TimeModel.thy ===== *)
theory TimeModel
  imports Prelude Complex_Main "HOL-Library.Product_Lexorder"
begin

text \<open>
  \<^verbatim>\<open>base/Timestamp.h\<close>, \<^verbatim>\<open>base/Timestamp.cpp\<close> and \<^verbatim>\<open>base/Timer.h\<close>: instants in microseconds, the
  calendar text of an instant, and the timer object. A \<^verbatim>\<open>double\<close> number of seconds is a rational (all
  the intervals of the program are small whole numbers, which are exact). The clock
  (\<^verbatim>\<open>gettimeofday\<close>) and the calendar (\<^verbatim>\<open>localtime_r\<close>, \<^verbatim>\<open>mktime\<close>) of the C library are arguments.
\<close>

section \<open>Timestamps\<close>

datatype Timestamp = Timestamp (microsecondsSinceEpoch: int)

text \<open>The two comparison operators of the header make instants a linear order.\<close>

definition timestamp_less :: "Timestamp \<Rightarrow> Timestamp \<Rightarrow> bool" where
  "timestamp_less a b \<longleftrightarrow> microsecondsSinceEpoch a < microsecondsSinceEpoch b"

instantiation Timestamp :: linorder
begin

definition less_Timestamp :: "Timestamp \<Rightarrow> Timestamp \<Rightarrow> bool" where
  "less_Timestamp a b \<longleftrightarrow> timestamp_less a b"

definition less_eq_Timestamp :: "Timestamp \<Rightarrow> Timestamp \<Rightarrow> bool" where
  "less_eq_Timestamp a b \<longleftrightarrow> microsecondsSinceEpoch a \<le> microsecondsSinceEpoch b"

instance
  by standard (auto simp: less_Timestamp_def timestamp_less_def less_eq_Timestamp_def intro: Timestamp.expand)

end

definition csMicrosecondsPerSecond :: int where "csMicrosecondsPerSecond = 1000 * 1000"

definition valid :: "Timestamp \<Rightarrow> bool" where
  "valid t \<longleftrightarrow> 0 < microsecondsSinceEpoch t"

definition setMicroSeconds :: "Timestamp \<Rightarrow> int \<Rightarrow> Timestamp" where
  "setMicroSeconds t microsecs = Timestamp microsecs"

text \<open>\<^verbatim>\<open>static_cast<int64_t>\<close> of a \<^verbatim>\<open>double\<close> drops the fraction.\<close>

definition truncate :: "rat \<Rightarrow> int" where
  "truncate x = (if 0 \<le> x then \<lfloor>x\<rfloor> else \<lceil>x\<rceil>)"

definition addSeconds :: "Timestamp \<Rightarrow> rat \<Rightarrow> Timestamp" where
  "addSeconds tmstp seconds =
     (let microsec = truncate (seconds * of_int csMicrosecondsPerSecond)
      in Timestamp (microsecondsSinceEpoch tmstp + microsec))"

definition differTimestamp :: "Timestamp \<Rightarrow> Timestamp \<Rightarrow> rat" where
  "differTimestamp tmstp1 tmstp2 =
     (let diff = microsecondsSinceEpoch tmstp1 - microsecondsSinceEpoch tmstp2
      in of_int (c_div diff csMicrosecondsPerSecond))"

text \<open>\<open>now (sec, usec)\<close> is \<^verbatim>\<open>Timestamp::now\<close> on the answer of \<^verbatim>\<open>gettimeofday\<close>.\<close>

definition now :: "int \<times> int \<Rightarrow> Timestamp" where
  "now tv = (case tv of (tv_sec, tv_usec) \<Rightarrow> Timestamp (tv_sec * csMicrosecondsPerSecond + tv_usec))"

lemma microseconds_simps [simp]:
  "Timestamp a < Timestamp b \<longleftrightarrow> a < b" "Timestamp a \<le> Timestamp b \<longleftrightarrow> a \<le> b"
  by (simp_all add: less_Timestamp_def timestamp_less_def less_eq_Timestamp_def)

lemma addSeconds_of_int [simp]:
  "addSeconds t (of_int k) = Timestamp (microsecondsSinceEpoch t + k * 1000000)"
proof -
  have "truncate (of_int k * of_int csMicrosecondsPerSecond) = k * 1000000"
    unfolding of_int_mult [symmetric] truncate_def
    by (simp only: floor_of_int ceiling_of_int if_cancel csMicrosecondsPerSecond_def mult_1_right)
  then show ?thesis by (simp add: addSeconds_def Let_def)
qed

lemma addSeconds_numeral [simp]:
  "addSeconds t (numeral n) = Timestamp (microsecondsSinceEpoch t + numeral n * 1000000)"
  using addSeconds_of_int [of t "numeral n"] by simp

lemma addSeconds_1 [simp]: "addSeconds t 1 = Timestamp (microsecondsSinceEpoch t + 1000000)"
  using addSeconds_of_int [of t 1] by simp

lemma addSeconds_later:
  assumes "1 \<le> seconds"
  shows "t < addSeconds t seconds"
proof -
  have "(1000000 :: rat) \<le> seconds * 1000000" using assms by simp
  then have "1000000 \<le> \<lfloor>seconds * 1000000\<rfloor>" by (simp add: le_floor_iff)
  with assms show ?thesis
    by (simp add: addSeconds_def Let_def truncate_def csMicrosecondsPerSecond_def less_Timestamp_def timestamp_less_def)
qed

lemma addSeconds_at_least: "0 \<le> seconds \<Longrightarrow> t \<le> addSeconds t seconds"
  by (simp add: addSeconds_def Let_def truncate_def csMicrosecondsPerSecond_def less_eq_Timestamp_def)

text \<open>\<^verbatim>\<open>differTimestamp\<close> undoes \<^verbatim>\<open>addSeconds\<close> on whole seconds.\<close>

lemma differ_addSeconds: "differTimestamp (addSeconds t (of_int k)) t = of_int k"
proof -
  have "c_div (k * 1000000) 1000000 = k"
    by (auto simp: c_div_def abs_mult sgn_mult mult_sgn_abs)
  then show ?thesis
    by (simp add: differTimestamp_def csMicrosecondsPerSecond_def Let_def del: addSeconds_of_int)
      (simp add: addSeconds_of_int)
qed

section \<open>Calendar text\<close>

record tm =
  tm_sec :: int
  tm_min :: int
  tm_hour :: int
  tm_mday :: int
  tm_mon :: int
  tm_year :: int

text \<open>
  \<open>localtime s\<close> is the C library's \<^verbatim>\<open>localtime_r\<close>: the broken-down local time, or \<open>None\<close> when it
  fails. \<^verbatim>\<open>gettm\<close> ignores the failure and adjusts the two fields of whatever \<^verbatim>\<open>*datetime\<close> holds.
\<close>

definition gettm :: "(int \<Rightarrow> tm option) \<Rightarrow> Timestamp \<Rightarrow> tm \<Rightarrow> tm" where
  "gettm localtime t datetime =
     (let seconds = c_div (microsecondsSinceEpoch t) csMicrosecondsPerSecond;
          d = (case localtime seconds of None \<Rightarrow> datetime | Some d \<Rightarrow> d)
      in d\<lparr>tm_mon := tm_mon d + 1, tm_year := tm_year d + 1900\<rparr>)"

definition tmToInt :: "(tm \<Rightarrow> int) \<Rightarrow> tm \<Rightarrow> int" where
  "tmToInt mktime structtm =
     mktime (structtm\<lparr>tm_year := tm_year structtm - 1900, tm_mon := tm_mon structtm - 1\<rparr>)"

text \<open>\<^verbatim>\<open>printf\<close>'s \<^verbatim>\<open>%0wd\<close> and \<^verbatim>\<open>%4d\<close>: decimal digits, padded on the left to a width.\<close>

fun digits :: "nat \<Rightarrow> string" where
  "digits n = (if n < 10 then [char_of (48 + n)] else digits (n div 10) @ [char_of (48 + n mod 10)])"

declare digits.simps [simp del]

definition pad_num :: "char \<Rightarrow> nat \<Rightarrow> int \<Rightarrow> string" where
  "pad_num c w k =
     (let sign = (if k < 0 then ''-'' else []); ds = digits (nat \<bar>k\<bar>);
          fill = replicate (w - (length sign + length ds)) c
      in if c = CHR ''0'' then sign @ fill @ ds else fill @ sign @ ds)"

definition formatString :: "(int \<Rightarrow> tm option) \<Rightarrow> Timestamp \<Rightarrow> bool \<Rightarrow> string" where
  "formatString localtime t bShowMicroseconds =
     (let seconds = c_div (microsecondsSinceEpoch t) csMicrosecondsPerSecond in
      case localtime seconds of
        None \<Rightarrow> []
      | Some d \<Rightarrow>
          let text = pad_num CHR '' '' 4 (tm_year d + 1900) @ pad_num CHR ''0'' 2 (tm_mon d + 1)
            @ pad_num CHR ''0'' 2 (tm_mday d) @ '' '' @ pad_num CHR ''0'' 2 (tm_hour d) @ '':''
            @ pad_num CHR ''0'' 2 (tm_min d) @ '':'' @ pad_num CHR ''0'' 2 (tm_sec d)
          in take 63
            (if bShowMicroseconds
             then text @ ''.'' @ pad_num CHR ''0'' 6 (c_mod (microsecondsSinceEpoch t) csMicrosecondsPerSecond)
             else text))"

lemma length_digits: "n < 10 ^ k \<Longrightarrow> 0 < k \<Longrightarrow> length (digits n) \<le> k"
proof (induction k arbitrary: n)
  case 0
  then show ?case by simp
next
  case (Suc k)
  show ?case
  proof (cases "n < 10")
    case True
    then show ?thesis by (simp add: digits.simps)
  next
    case False
    then have "k \<noteq> 0" using Suc.prems by (cases k) simp_all
    moreover have "n div 10 < 10 ^ k"
      using Suc.prems(1) by (simp add: less_mult_imp_div_less mult.commute)
    ultimately have "length (digits (n div 10)) \<le> k" using Suc.IH by simp
    then show ?thesis using False by (simp add: digits.simps [of n])
  qed
qed

lemma length_pad_num:
  assumes "0 \<le> k" and "k < 10 ^ w" and "0 < w"
  shows "length (pad_num c w k) = w"
proof -
  have "nat k < 10 ^ w"
    using assms(1,2) by (simp add: nat_less_iff)
  then have "length (digits (nat k)) \<le> w" using assms(3) by (rule length_digits)
  with assms(1) show ?thesis by (simp add: pad_num_def Let_def)
qed

text \<open>Two readings of the calendar compose: \<^verbatim>\<open>tmToInt\<close> undoes what \<^verbatim>\<open>gettm\<close> adds.\<close>

lemma tmToInt_gettm:
  assumes "localtime (c_div (microsecondsSinceEpoch t) csMicrosecondsPerSecond) = Some d"
  shows "tmToInt mktime (gettm localtime t junk) = mktime d"
  using assms by (cases d) (simp add: tmToInt_def gettm_def Let_def)

definition calendar :: "tm \<Rightarrow> bool" where
  "calendar d \<longleftrightarrow> 0 \<le> tm_year d + 1900 \<and> tm_year d + 1900 < 10000 \<and> 0 \<le> tm_mon d \<and> tm_mon d < 12 \<and>
     1 \<le> tm_mday d \<and> tm_mday d \<le> 31 \<and> 0 \<le> tm_hour d \<and> tm_hour d \<le> 23 \<and>
     0 \<le> tm_min d \<and> tm_min d \<le> 59 \<and> 0 \<le> tm_sec d \<and> tm_sec d \<le> 60"

text \<open>
  For an instant after the epoch with a calendar date, the text has a fixed length, 24
  characters with microseconds and 17 without, so it always fits the 64-byte buffer untruncated.
\<close>

theorem formatString_length:
  assumes "localtime (microsecondsSinceEpoch t div 1000000) = Some d" and "calendar d"
    and "0 \<le> microsecondsSinceEpoch t"
  shows "length (formatString localtime t b) = (if b then 24 else 17)"
proof -
  have m: "0 \<le> microsecondsSinceEpoch t mod 1000000" "microsecondsSinceEpoch t mod 1000000 < 10 ^ 6"
    by simp_all
  show ?thesis
    using assms length_pad_num [OF m, of "CHR ''0''"]
    by (simp add: formatString_def Let_def calendar_def csMicrosecondsPerSecond_def length_pad_num)
qed

theorem formatString_length_witness:
  "length (formatString
     (\<lambda>_. Some \<lparr>tm_sec = 5, tm_min = 4, tm_hour = 3, tm_mday = 25, tm_mon = 6, tm_year = 116\<rparr>)
     (Timestamp 1469386985000042) True) = (if True then 24 else 17)"
  by (rule formatString_length [where d = "\<lparr>tm_sec = 5, tm_min = 4, tm_hour = 3, tm_mday = 25, tm_mon = 6, tm_year = 116\<rparr>"])
    (simp_all add: calendar_def)

section \<open>Timers\<close>

text \<open>
  The timer object. The callback is an abstract value; \<open>compute\<close> is the \<^verbatim>\<open>TimerAlgorithm\<close> behind the
  virtual \<^verbatim>\<open>nextTimestamp\<close>, as a function of the clock.
\<close>

record 'cb Timer =
  timerCallback :: 'cb
  timer_index :: int
  expiration :: Timestamp
  brepeat :: bool
  compute :: "(Timestamp \<Rightarrow> Timestamp) option"
  interval :: rat

definition new_Timer :: "'cb \<Rightarrow> int \<Rightarrow> Timestamp \<Rightarrow> rat \<Rightarrow> bool \<Rightarrow> 'cb Timer" where
  "new_Timer timerfunc idx t intv rep =
     \<lparr>timerCallback = timerfunc, timer_index = idx, expiration = t, brepeat = rep, compute = None, interval = intv\<rparr>"

definition setTimerAlgorithm :: "(Timestamp \<Rightarrow> Timestamp) \<Rightarrow> 'cb Timer \<Rightarrow> 'cb Timer" where
  "setTimerAlgorithm alg t = t\<lparr>compute := Some alg\<rparr>"

definition setExpiration :: "Timestamp \<Rightarrow> 'cb Timer \<Rightarrow> 'cb Timer" where
  "setExpiration tms t = t\<lparr>expiration := tms\<rparr>"

definition restartTimer :: "Timestamp \<Rightarrow> 'cb Timer \<Rightarrow> 'cb Timer" where
  "restartTimer clk t =
     (case compute t of
        Some alg \<Rightarrow> t\<lparr>expiration := alg clk\<rparr>
      | None \<Rightarrow> if 0 < interval t then t\<lparr>expiration := addSeconds clk (interval t)\<rparr> else t)"

text \<open>The static counter behind \<^verbatim>\<open>indexCreate\<close>.\<close>

definition indexCreate :: "int \<Rightarrow> int \<times> int" where
  "indexCreate sIndexNum = (sIndexNum, sIndexNum + 1)"

text \<open>
  The contract of a \<^verbatim>\<open>TimerAlgorithm\<close> that a repeating timer can rely on: the next instant is in
  the future of the clock, by at least \<open>step\<close> microseconds.
\<close>

locale timer_algorithm =
  fixes nextTimestamp :: "Timestamp \<Rightarrow> Timestamp"
    and step :: int
  assumes step_pos: "0 < step"
    and advances: "microsecondsSinceEpoch clk + step \<le> microsecondsSinceEpoch (nextTimestamp clk)"
begin

lemma later: "clk < nextTimestamp clk"
  using advances [of clk] step_pos by (simp add: less_Timestamp_def timestamp_less_def)

lemma restart_later:
  "clk < expiration (restartTimer clk (setTimerAlgorithm nextTimestamp t))"
  by (simp add: restartTimer_def setTimerAlgorithm_def later)

text \<open>A timer that is restarted whenever it is due falls due at most once in \<open>step\<close> microseconds.\<close>

lemma rate: "microsecondsSinceEpoch clk + int n * step \<le> microsecondsSinceEpoch ((nextTimestamp ^^ n) clk)"
proof (induction n)
  case 0
  then show ?case by simp
next
  case (Suc n)
  then show ?case
    using advances [of "(nextTimestamp ^^ n) clk"] by (simp add: algebra_simps)
qed

end

interpretation every_second: timer_algorithm "\<lambda>clk. addSeconds clk 1" 1000000
  by unfold_locales simp_all

end
