(* ===== verification/ClientSide.thy ===== *)
theory ClientSide
  imports Connection TimeModel
begin

text \<open>
  \<^verbatim>\<open>net/Connector.cpp\<close> and \<^verbatim>\<open>net/NetClient.cpp\<close>: the non-blocking connect of a client and the connection it
  leads to. System calls, poll-set updates and the new-connection callback are recorded in \<open>cout\<close>; the
  kernel's answers are arguments.
\<close>

section \<open>Connector\<close>

datatype conn_state = CDisconnected | CConnected

datatype cn_out =
    OpenSock int | CloseSock int | NewConnection int | CancelTimer "int \<times> nat"
  | CPollUpdate uint32 | CPollRemove

datatype cn_task = ResetTask | StartTask

record Connector =
  cstate :: conn_state
  cevent :: "EventHandler option"
  retryDelayMs :: int
  retryTimer :: "(int \<times> nat) option"
  ctasks :: "cn_task list"
  cout :: "cn_out list"

definition csInitRetryDelay :: int where "csInitRetryDelay = 5000"
definition csMaxRetryDelay :: int where "csMaxRetryDelay = 30 * 1000"

definition new_Connector :: Connector where
  "new_Connector =
     \<lparr>cstate = CDisconnected, cevent = None, retryDelayMs = csInitRetryDelay, retryTimer = None, ctasks = [], cout = []\<rparr>"

definition c_emit :: "cn_out list \<Rightarrow> Connector \<Rightarrow> Connector" where
  "c_emit xs c = c\<lparr>cout := cout c @ xs\<rparr>"

definition resetInLoop :: "Connector \<Rightarrow> Connector" where
  "resetInLoop c =
     (case cevent c of
        None \<Rightarrow> c
      | Some e \<Rightarrow> c_emit [CPollUpdate csEventNone, CPollRemove] (c\<lparr>cevent := None\<rparr>))"

definition resetEvent :: "bool \<Rightarrow> Connector \<Rightarrow> int \<times> Connector" where
  "resetEvent in_loop c =
     (case cevent c of
        None \<Rightarrow> (- 1, c)
      | Some e \<Rightarrow> (fd e, if in_loop then resetInLoop c else c\<lparr>ctasks := ctasks c @ [ResetTask]\<rparr>))"

text \<open>
  \<^verbatim>\<open>retry\<close>: the \<^verbatim>\<open>return\<close> in front of \<^verbatim>\<open>runDelay\<close> makes the rest of the function dead code.
\<close>

definition retry :: "int \<Rightarrow> Connector \<Rightarrow> Connector" where
  "retry sockfd c =
     (let c = c_emit [CloseSock sockfd] (c\<lparr>cstate := CDisconnected\<rparr>) in
      case retryTimer c of None \<Rightarrow> c | Some t \<Rightarrow> c_emit [CancelTimer t] c)"

definition connectImpl :: "int \<Rightarrow> Connector \<Rightarrow> Connector" where
  "connectImpl sockfd c =
     (case cevent c of
        Some _ \<Rightarrow> c
      | None \<Rightarrow>
          let e = set_enableWrite ((new_EventHandler sockfd)\<lparr>writeCallback := True\<rparr>)
          in c_emit [CPollUpdate (events e)] (c\<lparr>cevent := Some e\<rparr>))"

text \<open>\<open>s\<close> and \<open>r\<close> are the answers of \<^verbatim>\<open>socket\<close> and \<^verbatim>\<open>connect\<close>; \<open>None\<close> is success.\<close>

definition connect :: "errno + int \<Rightarrow> errno option \<Rightarrow> Connector \<Rightarrow> Connector res" where
  "connect s r c =
     res_bind (createNonblockTcpSock s) (\<lambda>sockfd.
       let c = c_emit [OpenSock sockfd] c in
       Inr (case r of
              None \<Rightarrow> connectImpl sockfd c
            | Some err \<Rightarrow>
                if err = EINPROGRESS \<or> err = EISCONN then connectImpl sockfd c
                else if err \<in> {EAGAIN, EADDRINUSE, EADDRNOTAVAIL, ECONNREFUSED} then retry sockfd c
                else c))"

definition startInLoop :: "errno + int \<Rightarrow> errno option \<Rightarrow> Connector \<Rightarrow> Connector res" where
  "startInLoop s r c = c_assert (cstate c = CDisconnected) (connect s r c)"

definition c_start :: "bool \<Rightarrow> errno + int \<Rightarrow> errno option \<Rightarrow> Connector \<Rightarrow> Connector res" where
  "c_start in_loop s r c =
     (if in_loop then startInLoop s r c else Inr (c\<lparr>ctasks := ctasks c @ [StartTask]\<rparr>))"

definition c_stop :: "bool \<Rightarrow> Connector \<Rightarrow> Connector" where
  "c_stop in_loop c = snd (resetEvent in_loop c)"

text \<open>\<open>err\<close> is the pending error of the socket that \<^verbatim>\<open>getsockError\<close> reads.\<close>

definition c_handleWrite :: "int \<Rightarrow> Connector \<Rightarrow> Connector" where
  "c_handleWrite err c =
     (let (sockfd, c) = resetEvent True c in
      if err \<noteq> 0 then retry sockfd c
      else let c = c_emit [NewConnection sockfd] (c\<lparr>cstate := CConnected\<rparr>) in
           case retryTimer c of None \<Rightarrow> c | Some t \<Rightarrow> c_emit [CancelTimer t] c)"

definition connector_event :: "uint32 \<Rightarrow> int \<Rightarrow> Connector \<Rightarrow> Connector res" where
  "connector_event revs err c =
     (case cevent c of
        None \<Rightarrow> Inl NullDeref
      | Some e \<Rightarrow>
          handEvent (e\<lparr>revents := revs\<rparr>)
            (\<lambda>call c. case call of WriteCall \<Rightarrow> Inr (c_handleWrite err c) | _ \<Rightarrow> Inr c)
            (\<lambda>c. cevent c \<noteq> None) c)"

text \<open>The loop thread runs the oldest task the connector has posted.\<close>

definition run_cn_task :: "errno + int \<Rightarrow> errno option \<Rightarrow> Connector \<Rightarrow> Connector res" where
  "run_cn_task s r c =
     (case ctasks c of
        [] \<Rightarrow> Inr c
      | t # ts \<Rightarrow>
          let c = c\<lparr>ctasks := ts\<rparr> in
          (case t of ResetTask \<Rightarrow> Inr (resetInLoop c) | StartTask \<Rightarrow> startInLoop s r c))"

text \<open>A connect in progress watches one descriptor for writing; the timer is never armed.\<close>

definition connector_inv :: "Connector \<Rightarrow> bool" where
  "connector_inv c \<longleftrightarrow> retryTimer c = None \<and>
     (\<forall>e. cevent c = Some e \<longrightarrow> writeCallback e \<and> \<not> readCallback e \<and> \<not> closeCallback e \<and> \<not> errorCallback e \<and>
        isWriteable e)"

lemma connector_inv_new [simp]: "connector_inv new_Connector"
  by (simp add: connector_inv_def new_Connector_def)

lemma c_emit_simps [simp]:
  "cstate (c_emit xs c) = cstate c" "cevent (c_emit xs c) = cevent c" "retryTimer (c_emit xs c) = retryTimer c"
  "ctasks (c_emit xs c) = ctasks c" "cout (c_emit xs c) = cout c @ xs"
  by (simp_all add: c_emit_def)

lemma connector_inv_emit [simp]: "connector_inv (c_emit xs c) = connector_inv c"
  by (simp add: connector_inv_def)

lemma connector_inv_connectImpl: "connector_inv c \<Longrightarrow> connector_inv (connectImpl s c)"
  by (auto simp: connectImpl_def connector_inv_def Let_def set_enableWrite_def new_EventHandler_def isWriteable_def
      poll_bits split: option.splits)

lemma connector_inv_retry: "connector_inv c \<Longrightarrow> connector_inv (retry s c)"
  by (auto simp: retry_def connector_inv_def Let_def)

lemma connector_inv_connect: "connector_inv c \<Longrightarrow> connect s r c = Inr d \<Longrightarrow> connector_inv d"
proof -
  assume inv: "connector_inv c" and "connect s r c = Inr d"
  then obtain f where d: "d = (case r of
              None \<Rightarrow> connectImpl f (c_emit [OpenSock f] c)
            | Some err \<Rightarrow>
                if err = EINPROGRESS \<or> err = EISCONN then connectImpl f (c_emit [OpenSock f] c)
                else if err \<in> {EAGAIN, EADDRINUSE, EADDRNOTAVAIL, ECONNREFUSED} then retry f (c_emit [OpenSock f] c)
                else c_emit [OpenSock f] c)"
    unfolding connect_def res_bind_eq_Inr Let_def by blast
  have "connector_inv (connectImpl f (c_emit [OpenSock f] c))" "connector_inv (retry f (c_emit [OpenSock f] c))"
    "connector_inv (c_emit [OpenSock f] c)"
    using inv by (simp_all add: connector_inv_connectImpl connector_inv_retry)
  then show ?thesis unfolding d by (simp split: option.split del: connector_inv_emit)
qed

lemma c_handleWrite_event:
  assumes "retryTimer c = None"
  shows "cevent (c_handleWrite err c) = None" and "retryTimer (c_handleWrite err c) = None"
  using assms
  by (cases "cevent c"; simp add: c_handleWrite_def resetEvent_def resetInLoop_def Let_def retry_def)+

lemma connector_inv_handleWrite: "connector_inv c \<Longrightarrow> connector_inv (c_handleWrite err c)"
  using c_handleWrite_event [of c err] by (simp add: connector_inv_def)

text \<open>
  The outcome of \<^verbatim>\<open>connect\<close> by the answer of the system call: in progress (or already connected), the
  socket is watched for writing; refused or busy, it is closed; any other error, it stays open with
  nobody owning it.
\<close>

theorem connect_branches:
  assumes "cevent c = None" and "retryTimer c = None"
  shows "connect (Inr sockfd) r c =
     (if r \<in> {None, Some EINPROGRESS, Some EISCONN}
      then let e = set_enableWrite ((new_EventHandler sockfd)\<lparr>writeCallback := True\<rparr>)
           in Inr (c\<lparr>cevent := Some e, cout := cout c @ [OpenSock sockfd, CPollUpdate (events e)]\<rparr>)
      else if r \<in> {Some EAGAIN, Some EADDRINUSE, Some EADDRNOTAVAIL, Some ECONNREFUSED}
      then Inr (c\<lparr>cstate := CDisconnected, cout := cout c @ [OpenSock sockfd, CloseSock sockfd]\<rparr>)
      else Inr (c\<lparr>cout := cout c @ [OpenSock sockfd]\<rparr>))"
  using assms
  by (cases r) (auto simp: connect_def createNonblockTcpSock_def Let_def connectImpl_def retry_def c_emit_def)

theorem connect_branches_witness:
  "connect (Inr 9) (Some ECONNREFUSED) new_Connector =
     (if Some ECONNREFUSED \<in> {None, Some EINPROGRESS, Some EISCONN}
      then let e = set_enableWrite ((new_EventHandler 9)\<lparr>writeCallback := True\<rparr>)
           in Inr (new_Connector\<lparr>cevent := Some e, cout := cout new_Connector @ [OpenSock 9, CPollUpdate (events e)]\<rparr>)
      else if Some ECONNREFUSED \<in> {Some EAGAIN, Some EADDRINUSE, Some EADDRNOTAVAIL, Some ECONNREFUSED}
      then Inr (new_Connector\<lparr>cstate := CDisconnected, cout := cout new_Connector @ [OpenSock 9, CloseSock 9]\<rparr>)
      else Inr (new_Connector\<lparr>cout := cout new_Connector @ [OpenSock 9]\<rparr>))"
  by (rule connect_branches) (simp_all add: new_Connector_def)

text \<open>
  The completion of a connect hands the socket over exactly when it carries no error, and otherwise
  closes it; no second attempt is scheduled either way, although the function is called \<^verbatim>\<open>retry\<close>.
\<close>

theorem connect_completion:
  assumes "connector_inv c" and "cevent c = Some e"
  shows "cout (c_handleWrite err c) = cout c @ [CPollUpdate csEventNone, CPollRemove] @
       (if err = 0 then [NewConnection (fd e)] else [CloseSock (fd e)]) \<and>
     cstate (c_handleWrite err c) = (if err = 0 then CConnected else CDisconnected) \<and>
     cevent (c_handleWrite err c) = None \<and> retryTimer (c_handleWrite err c) = None \<and>
     ctasks (c_handleWrite err c) = ctasks c \<and> connector_inv (c_handleWrite err c)"
proof -
  have t: "retryTimer c = None" using assms(1) by (simp add: connector_inv_def)
  have "connector_inv (c_handleWrite err c)" using assms(1) by (rule connector_inv_handleWrite)
  moreover have "cout (c_handleWrite err c) = cout c @ [CPollUpdate csEventNone, CPollRemove] @
       (if err = 0 then [NewConnection (fd e)] else [CloseSock (fd e)]) \<and>
     cstate (c_handleWrite err c) = (if err = 0 then CConnected else CDisconnected) \<and>
     cevent (c_handleWrite err c) = None \<and> retryTimer (c_handleWrite err c) = None \<and>
     ctasks (c_handleWrite err c) = ctasks c"
    using assms(2) t by (simp add: c_handleWrite_def resetEvent_def resetInLoop_def retry_def Let_def)
  ultimately show ?thesis by blast
qed

definition connecting :: Connector where
  "connecting = connectImpl 9 new_Connector"

lemma connecting_facts:
  "connector_inv connecting"
  "cevent connecting = Some (set_enableWrite ((new_EventHandler 9)\<lparr>writeCallback := True\<rparr>))"
proof -
  show "connector_inv connecting"
    unfolding connecting_def by (rule connector_inv_connectImpl) simp
  show "cevent connecting = Some (set_enableWrite ((new_EventHandler 9)\<lparr>writeCallback := True\<rparr>))"
    by (simp add: connecting_def connectImpl_def new_Connector_def Let_def)
qed

theorem connect_completion_witness:
  "cout (c_handleWrite 111 connecting) = cout connecting @ [CPollUpdate csEventNone, CPollRemove] @
       (if (111 :: int) = 0 then [NewConnection (fd (set_enableWrite ((new_EventHandler 9)\<lparr>writeCallback := True\<rparr>)))]
        else [CloseSock (fd (set_enableWrite ((new_EventHandler 9)\<lparr>writeCallback := True\<rparr>)))]) \<and>
     cstate (c_handleWrite 111 connecting) = (if (111 :: int) = 0 then CConnected else CDisconnected)"
  using connect_completion [OF connecting_facts, of 111] by blast

text \<open>
  The write event that completes a connect, successful or not, deletes the event handler object while
  \<^verbatim>\<open>handEvent\<close> is running on it, and the log line that follows reads the deleted object.
\<close>

theorem connect_completion_use_after_free:
  assumes "connector_inv c" and "cevent c = Some e"
  shows "connector_event POLLOUT err c = Inl UseAfterFree"
proof -
  have cb: "writeCallback e" "\<not> readCallback e" "\<not> closeCallback e" "\<not> errorCallback e"
    using assms by (auto simp: connector_inv_def)
  have "cevent (c_handleWrite err c) = None"
    using assms(2) by (simp add: c_handleWrite_def resetEvent_def resetInLoop_def retry_def Let_def split: option.splits)
  moreover have "event_calls (e\<lparr>revents := POLLOUT\<rparr>) = [WriteCall]"
    using cb by (simp add: event_calls_def write_fires_def poll_bits)
  ultimately have "handEvent (e\<lparr>revents := POLLOUT\<rparr>)
      (\<lambda>call c. case call of WriteCall \<Rightarrow> Inr (c_handleWrite err c) | _ \<Rightarrow> Inr c) (\<lambda>c. cevent c \<noteq> None) c = Inl UseAfterFree"
    using assms(2) by (intro handEvent_write_deletes) simp_all
  with assms(2) show ?thesis by (simp add: connector_event_def)
qed

theorem connect_completion_use_after_free_witness:
  "connector_event POLLOUT 0 connecting = Inl UseAfterFree"
  by (rule connect_completion_use_after_free [OF connecting_facts])

text \<open>
  A client that has been connected once cannot connect again: the state stays connected for good, so
  the next \<^verbatim>\<open>start\<close> asserts.
\<close>

theorem reconnect_asserts:
  assumes "cevent c = Some e"
  shows "c_start True s r (c_handleWrite 0 c) = Inl AssertFail"
  using assms
  by (simp add: c_start_def startInLoop_def c_handleWrite_def resetEvent_def resetInLoop_def Let_def split: option.splits)

theorem reconnect_asserts_witness:
  "c_start True (Inr 10) (Some EINPROGRESS) (c_handleWrite 0 connecting) = Inl AssertFail"
  by (rule reconnect_asserts [OF connecting_facts(2)])

section \<open>NetClient\<close>

text \<open>
  \<open>conn\<close> is the current connection; \<open>old\<close> keeps the ones that were deleted, in their last state. The
  printed decimal numbers are those of \<^verbatim>\<open>snprintf\<close>.
\<close>

record NetClient =
  servAddr :: sockaddr_in
  connector :: Connector
  conn :: "NetConnection option"
  connId :: string
  connIndex :: nat
  cbConn :: bool
  cbMsg :: bool
  cbCompl :: bool
  old :: "NetConnection list"

definition client_at :: "sockaddr_in \<Rightarrow> NetClient" where
  "client_at addr =
     \<lparr>servAddr = addr, connector = new_Connector, conn = None, connId = [], connIndex = 1, cbConn = False, cbMsg = False,
      cbCompl = False, old = []\<rparr>"

definition new_NetClient :: "(string \<Rightarrow> uint32 option) \<Rightarrow> string \<Rightarrow> ushort \<Rightarrow> NetClient res" where
  "new_NetClient inet_pton dstIp dstPort =
     res_bind (makeSockAddr inet_pton dstIp dstPort) (\<lambda>addr. Inr (client_at addr))"

text \<open>
  The destructor deletes the connection, from the calling thread, and the connector. The result is the
  posted task that keeps the pointer to the deleted connection, if there is one.
\<close>

definition delete_NetClient :: "bool \<Rightarrow> NetClient \<Rightarrow> conn_task list res" where
  "delete_NetClient il n =
     (case conn n of
        None \<Rightarrow> Inr []
      | Some c \<Rightarrow> res_bind (delete_NetConnection il c) (\<lambda>d. Inr (tasks d)))"

text \<open>The callback for a closed connection does nothing: \<^verbatim>\<open>conn_\<close> keeps pointing to it.\<close>

definition destroyConnection :: "NetClient \<Rightarrow> NetClient" where
  "destroyConnection n = n"

definition client_conn_id :: "string \<Rightarrow> ushort \<Rightarrow> nat \<Rightarrow> string" where
  "client_conn_id ip port i =
     take 63 (''NetClient|establishConnection '' @ ip @ ''#'' @ digits (unat port) @ ''#'' @ digits i)"

text \<open>
  \<^verbatim>\<open>establishConnection\<close>: the addresses are read from the socket (a peer that is already gone makes
  \<^verbatim>\<open>getRemoteAddr\<close> assert), the old connection is deleted, which closes it, and the new one is
  established.
\<close>

definition establishConnection ::
    "(nat \<Rightarrow> byte) \<Rightarrow> (uint32 \<Rightarrow> string) \<Rightarrow> errno + sockaddr_in \<Rightarrow> errno + sockaddr_in \<Rightarrow> int \<Rightarrow> NetClient \<Rightarrow> NetClient res" where
  "establishConnection junk inet_ntop peer local sockfd n =
     res_bind (get_addr peer) (\<lambda>peeraddr.
     res_bind (get_addr local) (\<lambda>localaddr.
     res_bind (toIp inet_ntop 32 peeraddr) (\<lambda>ipstr.
     let ident = client_conn_id ipstr (network2Host16 (sin_port peeraddr)) (connIndex n);
         n = n\<lparr>connIndex := connIndex n + 1\<rparr>;
         c = set_callbacks (cbConn n) (cbMsg n) (cbCompl n) True (new_NetConnection junk sockfd) in
     res_bind (case conn n of
                 None \<Rightarrow> Inr n
               | Some c0 \<Rightarrow> res_bind (delete_NetConnection True c0) (\<lambda>c0. Inr (n\<lparr>old := old n @ [c0]\<rparr>))) (\<lambda>n.
     res_bind (connEstablished c) (\<lambda>c. Inr (n\<lparr>conn := Some c, connId := ident\<rparr>))))))"

definition client_disconnect :: "bool \<Rightarrow> errno option \<Rightarrow> NetClient \<Rightarrow> NetClient res" where
  "client_disconnect in_loop r n =
     (case conn n of
        None \<Rightarrow> Inr n
      | Some c \<Rightarrow> res_bind (shutdown in_loop r c) (\<lambda>c. Inr (n\<lparr>conn := Some c\<rparr>)))"

definition client_connect :: "bool \<Rightarrow> errno + int \<Rightarrow> errno option \<Rightarrow> NetClient \<Rightarrow> NetClient res" where
  "client_connect in_loop s r n = res_bind (c_start in_loop s r (connector n)) (\<lambda>c. Inr (n\<lparr>connector := c\<rparr>))"

definition client_inv :: "NetClient \<Rightarrow> bool" where
  "client_inv n \<longleftrightarrow> (\<forall>c. conn n = Some c \<longrightarrow> conn_inv c)"

lemma connEstablished_new:
  "\<exists>c. connEstablished (set_callbacks a b d True (new_NetConnection junk sockfd)) = Inr c \<and> conn_inv c \<and>
     state c = eConnected \<and> event c \<noteq> None \<and> msgRecvFunc c = b"
  by (auto simp: connEstablished_def set_callbacks_def new_NetConnection_def Let_def with_event_def conn_inv_def
      new_EventHandler_def)

lemma forceClose_ok:
  "conn_inv c \<Longrightarrow> \<exists>d. forceClose True c = Inr d \<and> (state c = eConnected \<longrightarrow> state d = eDisconnected) \<and>
     (state c \<noteq> eConnected \<longrightarrow> d = c)"
  using handleClose_result [of "c\<lparr>state := eDisconnected\<rparr>"]
  by (auto simp: forceClose_def conn_inv_def Let_def)

text \<open>
  A new connection replaces the old one: the client's connection is the new one and open, the one it
  replaces is closed, and the connection number grows, for every socket whose two addresses can be
  read; if the peer is already gone, the client asserts.
\<close>

theorem establishConnection_correct:
  assumes "client_inv n"
  shows "case peer of
      Inl _ \<Rightarrow> establishConnection junk ntop peer (Inr local) sockfd n = Inl AssertFail
    | Inr a \<Rightarrow> \<exists>n' c. establishConnection junk ntop peer (Inr local) sockfd n = Inr n' \<and> client_inv n' \<and>
        conn n' = Some c \<and> state c = eConnected \<and> connIndex n' = connIndex n + 1 \<and>
        (\<forall>c0. conn n = Some c0 \<longrightarrow> (\<exists>d. old n' = old n @ [d] \<and> (state c0 = eConnected \<longrightarrow> state d = eDisconnected)))"
proof (cases peer)
  case (Inl e)
  then show ?thesis by (simp add: establishConnection_def get_addr_def)
next
  case (Inr a)
  obtain c where c: "connEstablished (set_callbacks (cbConn n) (cbMsg n) (cbCompl n) True (new_NetConnection junk sockfd)) = Inr c"
    "conn_inv c" "state c = eConnected"
    using connEstablished_new by blast
  show ?thesis
  proof (cases "conn n")
    case None
    with Inr c show ?thesis
      by (simp add: establishConnection_def get_addr_def toIp_def INET_ADDRSTRLEN_def Let_def client_inv_def)
  next
    case (Some c0)
    with assms forceClose_ok [of c0] obtain d where "forceClose True c0 = Inr d"
      "state c0 = eConnected \<longrightarrow> state d = eDisconnected" by (auto simp: client_inv_def)
    with Some Inr c show ?thesis
      by (simp add: establishConnection_def get_addr_def toIp_def INET_ADDRSTRLEN_def Let_def client_inv_def)
  qed
qed

theorem establishConnection_correct_witness:
  "case Inr \<lparr>sin_family = 2, sin_port = 80, sin_addr = 16777343\<rparr> :: errno + sockaddr_in of
      Inl _ \<Rightarrow> establishConnection (\<lambda>_. 0) (\<lambda>_. ''127.0.0.1'') (Inr \<lparr>sin_family = 2, sin_port = 80, sin_addr = 16777343\<rparr>)
         (Inr \<lparr>sin_family = 2, sin_port = 81, sin_addr = 16777343\<rparr>) 8 ((client_at \<lparr>sin_family = 2, sin_port = 80, sin_addr = 16777343\<rparr>)\<lparr>conn := Some demo_conn\<rparr>) = Inl AssertFail
    | Inr a \<Rightarrow> \<exists>n' c. establishConnection (\<lambda>_. 0) (\<lambda>_. ''127.0.0.1'') (Inr \<lparr>sin_family = 2, sin_port = 80, sin_addr = 16777343\<rparr>)
         (Inr \<lparr>sin_family = 2, sin_port = 81, sin_addr = 16777343\<rparr>) 8 ((client_at \<lparr>sin_family = 2, sin_port = 80, sin_addr = 16777343\<rparr>)\<lparr>conn := Some demo_conn\<rparr>) = Inr n' \<and>
        client_inv n' \<and> conn n' = Some c \<and> state c = eConnected \<and>
        connIndex n' = connIndex ((client_at \<lparr>sin_family = 2, sin_port = 80, sin_addr = 16777343\<rparr>)\<lparr>conn := Some demo_conn\<rparr>) + 1 \<and>
        (\<forall>c0. conn ((client_at \<lparr>sin_family = 2, sin_port = 80, sin_addr = 16777343\<rparr>)\<lparr>conn := Some demo_conn\<rparr>) = Some c0 \<longrightarrow>
          (\<exists>d. old n' = old ((client_at \<lparr>sin_family = 2, sin_port = 80, sin_addr = 16777343\<rparr>)\<lparr>conn := Some demo_conn\<rparr>) @ [d] \<and>
             (state c0 = eConnected \<longrightarrow> state d = eDisconnected)))"
  by (rule establishConnection_correct) (simp add: client_inv_def)

end
