(* ===== verification/Heartbeats.thy ===== *)
theory Heartbeats
  imports ControlFrames ClientSide
begin

text \<open>
  \<^verbatim>\<open>websocket/Heartbeat.h\<close> and \<^verbatim>\<open>websocket/Heartbeat.cpp\<close>: the client sends PING and waits for PONG,
  driven by one timer whose next instant depends on the state; the server keeps the time of the last
  frame of every connection and closes those that have been silent for more than 15 seconds.
\<close>

section \<open>Frames handed to a connection\<close>

definition PING :: "byte list" where "PING = [0x50, 0x49, 0x4E, 0x47]"
definition PONG :: "byte list" where "PONG = [0x50, 0x4F, 0x4E, 0x47]"

text \<open>The encoder calls its callback once per frame; \<open>i\<close> numbers the calls.\<close>

fun each_frame :: "(nat \<Rightarrow> byte list \<Rightarrow> 's \<Rightarrow> 's res) \<Rightarrow> nat \<Rightarrow> byte list list \<Rightarrow> 's \<Rightarrow> 's res" where
  "each_frame f i [] s = Inr s"
| "each_frame f i (x # xs) s = res_bind (f i x s) (each_frame f (Suc i) xs)"

text \<open>\<open>w i\<close> is what \<^verbatim>\<open>write\<close> answers for the \<open>i\<close>-th frame.\<close>

definition send_to_client ::
    "(nat \<Rightarrow> byte) \<Rightarrow> bool \<Rightarrow> (nat \<Rightarrow> errno + nat) \<Rightarrow> nat \<Rightarrow> byte list \<Rightarrow> NetClient \<Rightarrow> NetClient res" where
  "send_to_client junk il w i data n =
     (case conn n of
        None \<Rightarrow> Inl NullDeref
      | Some c \<Rightarrow> res_bind (send junk il (w i) data c) (\<lambda>c. Inr (n\<lparr>conn := Some c\<rparr>)))"

section \<open>The sender\<close>

datatype HeartState = eWaitPing | eWaitPong | eReconnect | eToBeClosed

text \<open>The virtual function of \<^verbatim>\<open>HeartTimer\<close>: \<open>hs\<close> is the state behind the pointer \<^verbatim>\<open>hs_\<close> at the call.\<close>

definition HeartTimer_nextTimestamp :: "HeartState \<Rightarrow> Timestamp \<Rightarrow> Timestamp" where
  "HeartTimer_nextTimestamp hs clk =
     (case hs of
        eWaitPing \<Rightarrow> addSeconds clk 10
      | eWaitPong \<Rightarrow> addSeconds clk 5
      | eReconnect \<Rightarrow> addSeconds clk 8
      | eToBeClosed \<Rightarrow> clk)"

interpretation wait_ping: timer_algorithm "HeartTimer_nextTimestamp eWaitPing" 10000000
  by unfold_locales (simp_all add: HeartTimer_nextTimestamp_def)

interpretation wait_pong: timer_algorithm "HeartTimer_nextTimestamp eWaitPong" 5000000
  by unfold_locales (simp_all add: HeartTimer_nextTimestamp_def)

interpretation wait_reconnect: timer_algorithm "HeartTimer_nextTimestamp eReconnect" 8000000
  by unfold_locales (simp_all add: HeartTimer_nextTimestamp_def)

text \<open>
  \<open>has_net\<close> and \<open>has_loop\<close> say that the pointers are not null; \<open>timers\<close> are the timers given to
  \<^verbatim>\<open>runAt\<close> so far. The constructor leaves \<^verbatim>\<open>net_\<close> indeterminate.
\<close>

record HeartbeatSender =
  state_of :: HeartState
  has_loop :: bool
  has_net :: bool
  timers :: "unit Timer list"

definition new_HeartbeatSender :: "bool \<Rightarrow> bool \<Rightarrow> HeartbeatSender" where
  "new_HeartbeatSender loop junk_net =
     \<lparr>state_of = eWaitPing, has_loop = loop, has_net = junk_net, timers = []\<rparr>"

definition setHeartState :: "HeartState \<Rightarrow> HeartbeatSender \<Rightarrow> HeartbeatSender" where
  "setHeartState st h = h\<lparr>state_of := st\<rparr>"

definition getHeartState :: "HeartbeatSender \<Rightarrow> HeartState" where
  "getHeartState h = state_of h"

definition processPong :: "HeartbeatSender \<Rightarrow> HeartbeatSender" where
  "processPong h = setHeartState eWaitPing h"

text \<open>The frame goes out through \<^verbatim>\<open>encFrameCallback\<close>, which returns at once if the context is null.\<close>

definition sendHeartbeat ::
    "WSHead \<Rightarrow> (nat \<Rightarrow> byte) \<Rightarrow> bool \<Rightarrow> (nat \<Rightarrow> errno + nat) \<Rightarrow> HeartbeatSender \<Rightarrow> NetClient \<Rightarrow> NetClient res" where
  "sendHeartbeat header0 junk il w h n =
     res_bind (encodeFrame header0 (PING @ [0]) 4 ePingFrame) (\<lambda>(_, frames).
       each_frame (\<lambda>i data n. if has_net h then send_to_client junk il w i data n else Inr n) 0 frames n)"

text \<open>
  \<^verbatim>\<open>start\<close>. The third argument of the timer's constructor is its interval, so \<^verbatim>\<open>true\<close> becomes one second;
  \<open>idx\<close> is the next timer index.
\<close>

definition heart_start ::
    "WSHead \<Rightarrow> (nat \<Rightarrow> byte) \<Rightarrow> bool \<Rightarrow> (nat \<Rightarrow> errno + nat) \<Rightarrow> Timestamp \<Rightarrow> int \<Rightarrow> bool
     \<Rightarrow> HeartbeatSender \<times> NetClient \<Rightarrow> (HeartbeatSender \<times> NetClient) res" where
  "heart_start header0 junk il w clk idx net = (\<lambda>(h, n).
     c_assert (net \<and> has_loop h)
       (let h = h\<lparr>has_net := net\<rparr> in
        res_bind (sendHeartbeat header0 junk il w h n) (\<lambda>n.
        let h = setHeartState eWaitPong h;
            algor = HeartTimer_nextTimestamp (state_of h);
            timeout = setTimerAlgorithm algor (new_Timer () idx (algor clk) 1 True)
        in Inr (h\<lparr>timers := timers h @ [timeout]\<rparr>, n))))"

definition timerHandle ::
    "WSHead \<Rightarrow> (nat \<Rightarrow> byte) \<Rightarrow> bool \<Rightarrow> (nat \<Rightarrow> errno + nat) \<Rightarrow> errno + int \<Rightarrow> errno option
     \<Rightarrow> HeartbeatSender \<times> NetClient \<Rightarrow> (HeartbeatSender \<times> NetClient) res" where
  "timerHandle header0 junk il w s r = (\<lambda>(h, n).
     case state_of h of
       eWaitPing \<Rightarrow>
         res_bind (sendHeartbeat header0 junk il w h n) (\<lambda>n. Inr (setHeartState eWaitPong h, n))
     | eWaitPong \<Rightarrow>
         res_bind (client_connect il s r n) (\<lambda>n. Inr (setHeartState eReconnect h, n))
     | eReconnect \<Rightarrow> Inr (h, n)
     | eToBeClosed \<Rightarrow> Inr (h, n))"

text \<open>
  After the callback the timer queue restarts the timer with the algorithm, which reads the state
  that the callback left.
\<close>

definition heart_restart :: "HeartbeatSender \<Rightarrow> Timestamp \<Rightarrow> unit Timer \<Rightarrow> unit Timer" where
  "heart_restart h clk t = restartTimer clk (setTimerAlgorithm (HeartTimer_nextTimestamp (state_of h)) t)"

lemma heart_simps [simp]:
  "state_of (setHeartState st h) = st" "has_loop (setHeartState st h) = has_loop h"
  "has_net (setHeartState st h) = has_net h" "timers (setHeartState st h) = timers h"
  by (simp_all add: setHeartState_def)

section \<open>The ping frame\<close>

definition ping_frame :: "WSHead \<Rightarrow> byte list" where
  "ping_frame header0 = wire (control_frame (RSV header0) (opcode_val ePingFrame) PING)"

definition pong_frame :: "WSHead \<Rightarrow> byte list" where
  "pong_frame header0 = wire (control_frame (RSV header0) (opcode_val ePongFrame) PONG)"

lemma encode_ping:
  "encodeFrame header0 (PING @ [0]) 4 ePingFrame = Inr (xmask PING @ [0], [ping_frame header0])"
  using encodeFrame_ping_pong [of ePingFrame 4 "PING @ [0]" header0]
  by (simp add: PING_def slice_consts ping_frame_def)

lemma encode_pong:
  "encodeFrame header0 (PONG @ [0]) 4 ePongFrame = Inr (xmask PONG @ [0], [pong_frame header0])"
  using encodeFrame_ping_pong [of ePongFrame 4 "PONG @ [0]" header0]
  by (simp add: PONG_def slice_consts pong_frame_def)

lemma length_heart_frames [simp]: "length (ping_frame h) = 10" "length (pong_frame h) = 10"
  by (simp_all add: ping_frame_def pong_frame_def length_wire control_frame_def PING_def PONG_def)

lemma heart_frames_decode:
  assumes "proto_inv p"
  shows "\<exists>t. decodeFrame p (ping_frame header0 @ [0]) 10 = Some (Inr t) \<and> d_out t = [PING]"
    and "\<exists>t. decodeFrame p (pong_frame header0 @ [0]) 10 = Some (Inr t) \<and> d_out t = [PONG]"
proof -
  have "PING \<noteq> []" "length PING < SHORT_LENGTH" "PONG \<noteq> []" "length PONG < SHORT_LENGTH"
    by (simp_all add: PING_def PONG_def slice_consts)
  note f = control_frame_delivered [OF _ _ _ this(1,2) assms, of "opcode_val ePingFrame" "RSV header0" "[0]"]
    control_frame_delivered [OF _ _ _ this(3,4) assms, of "opcode_val ePongFrame" "RSV header0" "[0]"]
  show "\<exists>t. decodeFrame p (ping_frame header0 @ [0]) 10 = Some (Inr t) \<and> d_out t = [PING]"
    using f(1) length_heart_frames(1) [of header0] unfolding ping_frame_def by auto
  show "\<exists>t. decodeFrame p (pong_frame header0 @ [0]) 10 = Some (Inr t) \<and> d_out t = [PONG]"
    using f(2) length_heart_frames(2) [of header0] unfolding pong_frame_def by auto
qed

lemma encode_hi: "\<exists>b f. encode_data header0 [104, 105] (2 :: int) eTextFrame = Inr (b, [f])"
  using encodeFrame_data [of eTextFrame 2 "[104, 105]" header0]
  by (simp add: message_frames_def slice_consts)

text \<open>A whole frame goes out in one write when nothing waits in front of it.\<close>

lemma send_whole:
  assumes "conn_inv c" and "state c = eConnected" and "content (writeBuffer c) = []"
  shows "send junk True (Inr (length data)) data c =
     Inr (Connection.emit (Written data # (if writeCompleteFunc c then [WriteCompleteCb] else [])) c)"
proof -
  have "buf_inv (writeBuffer c)" using assms(1) by (simp add: conn_inv_def)
  then have "readableBytes (writeBuffer c) = 0" using assms(3) length_content by fastforce
  moreover obtain e where "event c = Some e" using assms(1,2) by (auto simp: conn_inv_def)
  ultimately show ?thesis
    using assms(2) by (simp add: send_def sendInReactor_def with_event_def Connection.emit_def Let_def)
qed

lemma sendHeartbeat_connected:
  assumes "conn n = Some c" and "conn_inv c" and "state c = eConnected" and "content (writeBuffer c) = []"
    and "has_net h" and "w 0 = Inr 10"
  shows "sendHeartbeat header0 junk True w h n =
     Inr (n\<lparr>conn := Some (Connection.emit (Written (ping_frame header0) #
       (if writeCompleteFunc c then [WriteCompleteCb] else [])) c)\<rparr>)"
  using send_whole [OF assms(2-4), of junk "ping_frame header0"] assms(1,5,6)
  unfolding sendHeartbeat_def encode_ping by (simp add: send_to_client_def)

section \<open>What the sender does\<close>

text \<open>
  C34. A heartbeat round. A timer callback runs on a thread of its own, so the PING frame is posted to the
  loop thread, which then writes it; the sender waits for the PONG. The timer is restarted at the same
  time: five seconds later if the callback has already changed the state, ten if not; and ten seconds
  later again once the PONG has been processed.
\<close>

theorem heartbeat_round:
  assumes "conn n = Some c" and "conn_inv c" and "state c = eConnected" and "content (writeBuffer c) = []"
    and "tasks c = []" and "has_net h" and "state_of h = eWaitPing"
  shows "\<exists>h' n' c' c''. timerHandle header0 junk False w s r (h, n) = Inr (h', n') \<and> conn n' = Some c' \<and>
     run_task junk (Inr 10) r' c' = Inr c'' \<and> conn_inv c'' \<and> tasks c'' = [] \<and>
     out c'' = out c @ Written (ping_frame header0) # (if writeCompleteFunc c then [WriteCompleteCb] else []) \<and>
     state_of h' = eWaitPong \<and>
     expiration (heart_restart h' clk t) = addSeconds clk 5 \<and> expiration (heart_restart h clk t) = addSeconds clk 10 \<and>
     expiration (heart_restart (processPong h') clk t) = addSeconds clk 10"
proof -
  let ?c = "c\<lparr>tasks := [SendTask (ping_frame header0)]\<rparr>"
  have sent: "timerHandle header0 junk False w s r (h, n) = Inr (setHeartState eWaitPong h, n\<lparr>conn := Some ?c\<rparr>)"
    using assms(1,3,5-7) unfolding timerHandle_def sendHeartbeat_def encode_ping
    by (simp add: send_to_client_def send_def)
  have "send junk True (Inr (length (ping_frame header0))) (ping_frame header0) (c\<lparr>tasks := []\<rparr>) =
      Inr (Connection.emit (Written (ping_frame header0) # (if writeCompleteFunc c then [WriteCompleteCb] else [])) (c\<lparr>tasks := []\<rparr>))"
    using send_whole [of "c\<lparr>tasks := []\<rparr>" junk "ping_frame header0"] assms(2-4) by (simp add: conn_inv_def)
  then have "run_task junk (Inr 10) r' ?c =
      Inr (Connection.emit (Written (ping_frame header0) # (if writeCompleteFunc c then [WriteCompleteCb] else [])) (c\<lparr>tasks := []\<rparr>))"
    using assms(3) by (simp add: run_task_def send_def)
  then show ?thesis
    using assms(2,7) unfolding sent
    by (simp add: heart_restart_def restartTimer_def setTimerAlgorithm_def processPong_def HeartTimer_nextTimestamp_def
        conn_inv_def)
qed

definition demo_heart :: HeartbeatSender where
  "demo_heart = new_HeartbeatSender True True"

definition demo_client :: NetClient where
  "demo_client = (client_at \<lparr>sin_family = 2, sin_port = 80, sin_addr = 16777343\<rparr>)\<lparr>conn := Some demo_conn, connector := new_Connector\<lparr>cstate := CConnected\<rparr>\<rparr>"

lemma demo_client_facts [simp]:
  "conn demo_client = Some demo_conn" "cstate (connector demo_client) = CConnected"
  "state_of demo_heart = eWaitPing" "has_net demo_heart" "has_loop demo_heart" "timers demo_heart = []"
  by (simp_all add: demo_client_def demo_heart_def new_HeartbeatSender_def)

lemma demo_conn_empty [simp]: "content (writeBuffer demo_conn) = []"
  by (simp add: content_def new_Buffer_def readableBytes_def)

theorem heartbeat_round_witness:
  "\<exists>h' n' c' c''. timerHandle \<lparr>FIN = 0, RSV = 5, Opcode = 9, maskBit = 0, PayloadLen = 77\<rparr> (\<lambda>_. 0) False (\<lambda>_. Inr 10)
       (Inr 3) None (demo_heart, demo_client) = Inr (h', n') \<and> conn n' = Some c' \<and>
     run_task (\<lambda>_. 0) (Inr 10) None c' = Inr c'' \<and> conn_inv c'' \<and> tasks c'' = [] \<and>
     out c'' = out demo_conn @ Written (ping_frame \<lparr>FIN = 0, RSV = 5, Opcode = 9, maskBit = 0, PayloadLen = 77\<rparr>) #
       (if writeCompleteFunc demo_conn then [WriteCompleteCb] else []) \<and>
     state_of h' = eWaitPong \<and>
     expiration (heart_restart h' (Timestamp 7) (new_Timer () 1 (Timestamp 7) 1 True)) = addSeconds (Timestamp 7) 5 \<and>
     expiration (heart_restart demo_heart (Timestamp 7) (new_Timer () 1 (Timestamp 7) 1 True)) = addSeconds (Timestamp 7) 10 \<and>
     expiration (heart_restart (processPong h') (Timestamp 7) (new_Timer () 1 (Timestamp 7) 1 True))
       = addSeconds (Timestamp 7) 10"
  by (rule heartbeat_round) simp_all

text \<open>
  When the PONG does not come, the timer posts a new connect to the loop thread; the connector of a client
  that has completed a connection is still in the connected state, so the loop thread asserts.
\<close>

theorem missed_pong_asserts:
  assumes "state_of h = eWaitPong" and "cstate (connector n) = CConnected" and "ctasks (connector n) = []"
  shows "\<exists>h' n'. timerHandle header0 junk False w s r (h, n) = Inr (h', n') \<and> state_of h' = eReconnect \<and>
     run_cn_task s r (connector n') = Inl AssertFail"
  using assms by (simp add: timerHandle_def client_connect_def c_start_def startInLoop_def run_cn_task_def)

theorem missed_pong_asserts_witness:
  "\<exists>h' n'. timerHandle \<lparr>FIN = 0, RSV = 5, Opcode = 9, maskBit = 0, PayloadLen = 77\<rparr> (\<lambda>_. 0) False (\<lambda>_. Inr 10) (Inr 3) None
       (setHeartState eWaitPong demo_heart, demo_client) = Inr (h', n') \<and> state_of h' = eReconnect \<and>
     run_cn_task (Inr 3) None (connector n') = Inl AssertFail"
  by (rule missed_pong_asserts) (simp_all add: demo_client_def new_Connector_def)

lemma heart_start_result:
  assumes "conn n = Some c" and "conn_inv c" and "state c = eConnected" and "content (writeBuffer c) = []"
    and "has_loop h" and "w 0 = Inr 10"
  shows "\<exists>h' n' c'. heart_start header0 junk True w clk idx True (h, n) = Inr (h', n') \<and> conn n' = Some c' \<and>
     out c' = out c @ Written (ping_frame header0) # (if writeCompleteFunc c then [WriteCompleteCb] else []) \<and>
     conn_inv c' \<and> state c' = eConnected \<and> state_of h' = eWaitPong \<and>
     (\<exists>t. timers h' = timers h @ [t] \<and> expiration t = addSeconds clk 5 \<and> brepeat t)"
proof -
  have "has_net (h\<lparr>has_net := True\<rparr>)" by simp
  from sendHeartbeat_connected [where ?header0.0 = header0 and junk = junk and w = w, OF assms(1-4) this assms(6)] assms(2,3,5)
  show ?thesis
    by (simp add: heart_start_def Let_def HeartTimer_nextTimestamp_def setTimerAlgorithm_def new_Timer_def conn_inv_def)
qed

section \<open>The receiver\<close>

text \<open>
  \<open>connList\<close> pairs the pointer of a connection with the second of its last frame, kept as a 32-bit
  unsigned number; connection objects live behind pointers in a heap, 0 is the null pointer.
\<close>

type_synonym conn_heap = "nat \<Rightarrow> NetConnection option"

record HeartbeatRecv =
  recv_loop :: bool
  connList :: "(nat \<times> uint32) list"
  recv_timers :: "unit Timer list"

definition new_HeartbeatRecv :: "bool \<Rightarrow> HeartbeatRecv" where
  "new_HeartbeatRecv loop = \<lparr>recv_loop = loop, connList = [], recv_timers = []\<rparr>"

text \<open>\<^verbatim>\<open>start\<close>, with the timer that \<^verbatim>\<open>runEvery\<close> makes.\<close>

definition recv_start :: "Timestamp \<Rightarrow> int \<Rightarrow> HeartbeatRecv \<Rightarrow> HeartbeatRecv res" where
  "recv_start clk idx v =
     c_assert (recv_loop v) (Inr (v\<lparr>recv_timers := recv_timers v @ [new_Timer () idx (addSeconds clk 1) 1 True]\<rparr>))"

text \<open>
  The destructor cancels the timer, on the loop thread at once, and otherwise by a posted task, so that
  the timer may still call the deleted object; the result is what is left of the timers.
\<close>

definition delete_HeartbeatRecv :: "bool \<Rightarrow> HeartbeatRecv \<Rightarrow> unit Timer list" where
  "delete_HeartbeatRecv il v = (if recv_loop v \<and> il then [] else recv_timers v)"

definition seconds_of :: "Timestamp \<Rightarrow> int" where
  "seconds_of t = c_div (microsecondsSinceEpoch t) csMicrosecondsPerSecond"

text \<open>A call through a connection pointer.\<close>

definition call_conn :: "nat \<Rightarrow> (NetConnection \<Rightarrow> NetConnection res) \<Rightarrow> conn_heap \<Rightarrow> conn_heap res" where
  "call_conn p f H =
     (if p = 0 then Inl NullDeref
      else case H p of None \<Rightarrow> Inl UseAfterFree | Some c \<Rightarrow> res_bind (f c) (\<lambda>c. Inr (H(p \<mapsto> c))))"

definition recv_encFrameCallback ::
    "(nat \<Rightarrow> byte) \<Rightarrow> bool \<Rightarrow> (nat \<Rightarrow> errno + nat) \<Rightarrow> nat \<Rightarrow> nat \<Rightarrow> byte list \<Rightarrow> conn_heap \<Rightarrow> conn_heap res" where
  "recv_encFrameCallback junk il w p i data H =
     (if p = 0 then Inr H else call_conn p (send junk il (w i) data) H)"

text \<open>\<open>data\<close> is the region behind the pointer, \<open>len\<close> the length passed with it.\<close>

definition processPing ::
    "WSHead \<Rightarrow> (nat \<Rightarrow> byte) \<Rightarrow> bool \<Rightarrow> (nat \<Rightarrow> errno + nat) \<Rightarrow> nat \<Rightarrow> byte list \<Rightarrow> nat \<Rightarrow> conn_heap \<Rightarrow> (bool \<times> conn_heap) res" where
  "processPing header0 junk il w p data len H =
     (if len = length PING
      then res_bind (load data 0 len) (\<lambda>ping.
             if ping = PING
             then res_bind (encodeFrame header0 (PONG @ [0]) 4 ePongFrame) (\<lambda>(_, frames).
                  res_bind (each_frame (recv_encFrameCallback junk il w p) 0 frames H) (\<lambda>H. Inr (True, H)))
             else Inr (False, H))
      else Inr (False, H))"

fun touch :: "nat \<Rightarrow> uint32 \<Rightarrow> (nat \<times> uint32) list \<Rightarrow> (nat \<times> uint32) list" where
  "touch p t [] = [(p, t)]"
| "touch p t ((q, u) # es) = (if q = p then (p, t) # es else (q, u) # touch p t es)"

definition updateConn ::
    "WSHead \<Rightarrow> (nat \<Rightarrow> byte) \<Rightarrow> bool \<Rightarrow> (nat \<Rightarrow> errno + nat) \<Rightarrow> Timestamp \<Rightarrow> nat \<Rightarrow> byte list \<Rightarrow> nat
     \<Rightarrow> HeartbeatRecv \<times> conn_heap \<Rightarrow> (bool \<times> HeartbeatRecv \<times> conn_heap) res" where
  "updateConn header0 junk il w clk p data len = (\<lambda>(v, H).
     let v = v\<lparr>connList := touch p (of_int (seconds_of clk)) (connList v)\<rparr> in
     res_bind (processPing header0 junk il w p data len H) (\<lambda>(ret, H). Inr (ret, v, H)))"

text \<open>
  \<^verbatim>\<open>timerCallback\<close>: an entry that is too old is closed and erased. The difference is taken in 64 bits,
  the stored second is zero-extended. Stepping back from the first element after an erase reaches the
  list's sentinel in the library of the target, and the loop goes on with the new first element.
\<close>

fun evict :: "bool \<Rightarrow> int \<Rightarrow> (nat \<times> uint32) list \<Rightarrow> conn_heap \<Rightarrow> ((nat \<times> uint32) list \<times> conn_heap) res" where
  "evict il now_s [] H = Inr ([], H)"
| "evict il now_s ((p, t) # es) H =
     (if 15 < now_s - uint t
      then res_bind (call_conn p (forceClose il) H) (evict il now_s es)
      else res_bind (evict il now_s es H) (\<lambda>(l, H). Inr ((p, t) # l, H)))"

definition timerCallback_recv :: "bool \<Rightarrow> Timestamp \<Rightarrow> HeartbeatRecv \<times> conn_heap \<Rightarrow> (HeartbeatRecv \<times> conn_heap) res" where
  "timerCallback_recv il clk = (\<lambda>(v, H).
     res_bind (evict il (seconds_of clk) (connList v) H) (\<lambda>(l, H). Inr (v\<lparr>connList := l\<rparr>, H)))"

text \<open>Every entry leads to a live connection object, and no connection has two.\<close>

definition recv_inv :: "HeartbeatRecv \<Rightarrow> conn_heap \<Rightarrow> bool" where
  "recv_inv v H \<longleftrightarrow> distinct (map fst (connList v)) \<and>
     (\<forall>e \<in> set (connList v). fst e \<noteq> 0 \<and> (\<exists>c. H (fst e) = Some c \<and> conn_inv c))"

lemma touch_map_of: "map_of (touch p t es) = (map_of es)(p \<mapsto> t)"
  by (induction es) auto

lemma touch_keys: "fst ` set (touch p t es) = insert p (fst ` set es)"
  by (simp flip: dom_map_of_conv_image_fst add: touch_map_of)

lemma touch_distinct: "distinct (map fst es) \<Longrightarrow> distinct (map fst (touch p t es))"
  by (induction es) (auto simp: touch_keys)

lemma forceClose_inv: "conn_inv c \<Longrightarrow> \<exists>d. forceClose il c = Inr d \<and> conn_inv d"
proof (cases "state c = eConnected")
  case True
  assume inv: "conn_inv c"
  then have inv': "conn_inv (c\<lparr>state := eDisconnected\<rparr>)" by (simp add: conn_inv_def)
  obtain e where "event (c\<lparr>state := eDisconnected\<rparr>) = Some e" using inv True by (auto simp: conn_inv_def)
  from handleClose_result [OF this] obtain d where d: "handleClose (c\<lparr>state := eDisconnected\<rparr>) = Inr d" by blast
  with True inv conn_inv_handleClose [OF inv' d] show ?thesis
    by (cases il) (auto simp: forceClose_def Let_def conn_inv_def)
qed (auto simp: forceClose_def)

lemma evict_spec:
  assumes "distinct (map fst es)" and "\<forall>e \<in> set es. fst e \<noteq> 0 \<and> (\<exists>c. H (fst e) = Some c \<and> conn_inv c)"
  shows "\<exists>H'. evict il now_s es H = Inr (filter (\<lambda>(p, t). now_s - uint t \<le> 15) es, H') \<and>
     (\<forall>(p, t) \<in> set es. 15 < now_s - uint t \<longrightarrow> (\<exists>c d. H p = Some c \<and> forceClose il c = Inr d \<and> conn_inv d \<and> H' p = Some d)) \<and>
     (\<forall>p. (\<forall>t. (p, t) \<in> set es \<longrightarrow> now_s - uint t \<le> 15) \<longrightarrow> H' p = H p)"
  using assms
proof (induction es arbitrary: H)
  case Nil
  then show ?case by simp
next
  case (Cons e es)
  obtain p t where e: "e = (p, t)" by (cases e)
  from Cons.prems e obtain c where c: "p \<noteq> 0" "H p = Some c" "conn_inv c" by auto
  have fresh: "p \<notin> fst ` set es" and dist: "distinct (map fst es)" using Cons.prems(1) e by auto
  then have not: "(p, u) \<notin> set es" for u by force
  show ?case
  proof (cases "15 < now_s - uint t")
    case True
    from forceClose_inv [OF c(3)] obtain d where d: "forceClose il c = Inr d" "conn_inv d" by blast
    have "\<forall>e \<in> set es. fst e \<noteq> 0 \<and> (\<exists>c. (H(p \<mapsto> d)) (fst e) = Some c \<and> conn_inv c)"
      using Cons.prems(2) fresh by auto
    from Cons.IH [OF dist this] obtain H' where
      H': "evict il now_s es (H(p \<mapsto> d)) = Inr (filter (\<lambda>(p, t). now_s - uint t \<le> 15) es, H')"
      "\<forall>(q, u) \<in> set es. 15 < now_s - uint u \<longrightarrow>
         (\<exists>c' d'. (H(p \<mapsto> d)) q = Some c' \<and> forceClose il c' = Inr d' \<and> conn_inv d' \<and> H' q = Some d')"
      "\<forall>q. (\<forall>u. (q, u) \<in> set es \<longrightarrow> now_s - uint u \<le> 15) \<longrightarrow> H' q = (H(p \<mapsto> d)) q"
      by (elim exE conjE)
    have "H' p = Some d" using H'(3) not by simp
    moreover have "evict il now_s (e # es) H = Inr (filter (\<lambda>(p, t). now_s - uint t \<le> 15) (e # es), H')"
      using True H'(1) c d by (simp add: e call_conn_def)
    moreover have "\<exists>c' d'. H q = Some c' \<and> forceClose il c' = Inr d' \<and> conn_inv d' \<and> H' q = Some d'"
      if "(q, u) \<in> set es" "15 < now_s - uint u" for q u
      using H'(2) that not [of u] by (auto split: if_splits)
    moreover have "H' q = H q" if "\<forall>u. (q, u) \<in> set (e # es) \<longrightarrow> now_s - uint u \<le> 15" for q
    proof -
      have "q \<noteq> p" using that True e by force
      with H'(3) that show ?thesis by simp
    qed
    ultimately show ?thesis using c d e by (intro exI [of _ H']) auto
  next
    case False
    have "\<forall>e \<in> set es. fst e \<noteq> 0 \<and> (\<exists>c. H (fst e) = Some c \<and> conn_inv c)" using Cons.prems(2) by simp
    from Cons.IH [OF dist this] obtain H' where
      H': "evict il now_s es H = Inr (filter (\<lambda>(p, t). now_s - uint t \<le> 15) es, H')"
      "\<forall>(q, u) \<in> set es. 15 < now_s - uint u \<longrightarrow>
         (\<exists>c' d'. H q = Some c' \<and> forceClose il c' = Inr d' \<and> conn_inv d' \<and> H' q = Some d')"
      "\<forall>q. (\<forall>u. (q, u) \<in> set es \<longrightarrow> now_s - uint u \<le> 15) \<longrightarrow> H' q = H q"
      by (elim exE conjE)
    with False e show ?thesis by (intro exI [of _ H']) auto
  qed
qed

section \<open>What the receiver does\<close>

lemma recv_inv_touch:
  assumes "recv_inv v H" and "p \<noteq> 0" and "H p = Some c" and "conn_inv c"
  shows "recv_inv (v\<lparr>connList := touch p t (connList v)\<rparr>) H"
proof -
  have "fst e \<noteq> 0 \<and> (\<exists>c. H (fst e) = Some c \<and> conn_inv c)" if "e \<in> set (touch p t (connList v))" for e
  proof -
    have "fst e \<in> insert p (fst ` set (connList v))" using that touch_keys [of p t "connList v"] by force
    with assms show ?thesis by (auto simp: recv_inv_def)
  qed
  with assms(1) show ?thesis by (simp add: recv_inv_def touch_distinct)
qed

lemma recv_inv_heap:
  "recv_inv v H \<Longrightarrow> conn_inv d \<Longrightarrow> recv_inv v (H(p \<mapsto> d))"
  by (auto simp: recv_inv_def)

text \<open>
  The check of the server closes exactly the connections that have been silent for more than 15
  seconds, forgets them, and leaves every other connection and entry as it is.
\<close>

theorem heartbeat_evicts:
  assumes "recv_inv v H"
  shows "\<exists>v' H'. timerCallback_recv il clk (v, H) = Inr (v', H') \<and> recv_inv v' H' \<and>
     connList v' = filter (\<lambda>(p, t). seconds_of clk - uint t \<le> 15) (connList v) \<and>
     (\<forall>p. case map_of (connList v) p of
        Some t \<Rightarrow> if 15 < seconds_of clk - uint t
                  then \<exists>c d. H p = Some c \<and> forceClose il c = Inr d \<and> H' p = Some d
                  else H' p = H p
      | None \<Rightarrow> H' p = H p)"
proof -
  let ?old = "\<lambda>t. 15 < seconds_of clk - uint t"
  have dist: "distinct (map fst (connList v))" and live: "\<forall>e \<in> set (connList v). fst e \<noteq> 0 \<and> (\<exists>c. H (fst e) = Some c \<and> conn_inv c)"
    using assms by (simp_all add: recv_inv_def)
  from evict_spec [OF this, of il "seconds_of clk"] obtain H' where
    H': "evict il (seconds_of clk) (connList v) H = Inr (filter (\<lambda>(p, t). seconds_of clk - uint t \<le> 15) (connList v), H')"
    and old: "\<forall>(p, t) \<in> set (connList v). ?old t \<longrightarrow> (\<exists>c d. H p = Some c \<and> forceClose il c = Inr d \<and> conn_inv d \<and> H' p = Some d)"
    and new: "\<forall>p. (\<forall>t. (p, t) \<in> set (connList v) \<longrightarrow> seconds_of clk - uint t \<le> 15) \<longrightarrow> H' p = H p"
    by (elim exE conjE)
  have closed: "\<exists>c d. H p = Some c \<and> forceClose il c = Inr d \<and> H' p = Some d"
    if "(p, t) \<in> set (connList v)" "?old t" for p t
    using old that by blast
  have same: "H' p = H p" if "\<And>t. (p, t) \<in> set (connList v) \<Longrightarrow> \<not> ?old t" for p
  proof -
    have all: "\<forall>t. (p, t) \<in> set (connList v) \<longrightarrow> seconds_of clk - uint t \<le> 15"
      using that by (intro allI impI) (simp only: not_less)
    show ?thesis by (rule mp [OF spec [OF new] all])
  qed
  have unique: "(p, t) \<in> set (connList v) \<longleftrightarrow> map_of (connList v) p = Some t" for p t
    by (rule map_of_eq_Some_iff [OF dist, symmetric])
  let ?v = "v\<lparr>connList := filter (\<lambda>(p, t). seconds_of clk - uint t \<le> 15) (connList v)\<rparr>"
  have "H' p = H p" if "(p, t) \<in> set (connList ?v)" for p t
  proof (rule same)
    fix u assume "(p, u) \<in> set (connList v)"
    moreover have "(p, t) \<in> set (connList v)" "\<not> ?old t" using that by simp_all
    ultimately show "\<not> ?old u" unfolding unique by simp
  qed
  moreover have "distinct (map fst (connList ?v))" using dist by (simp add: distinct_map_filter)
  moreover have "fst e \<noteq> 0 \<and> (\<exists>c. H (fst e) = Some c \<and> conn_inv c)" if "e \<in> set (connList ?v)" for e
    using bspec [OF live, of e] that by simp
  ultimately have "recv_inv ?v H'"
    unfolding recv_inv_def by (metis prod.collapse)
  moreover have "case map_of (connList v) p of
        Some t \<Rightarrow> if ?old t then \<exists>c d. H p = Some c \<and> forceClose il c = Inr d \<and> H' p = Some d else H' p = H p
      | None \<Rightarrow> H' p = H p" for p
    using same [of p] closed [of p] by (auto simp: unique split: option.splits)
  ultimately show ?thesis
    using H' by (intro exI [of _ ?v] exI [of _ H']) (simp add: timerCallback_recv_def)
qed

definition demo_recv :: HeartbeatRecv where
  "demo_recv = (new_HeartbeatRecv True)\<lparr>connList := [(4, 100), (8, 90)]\<rparr>"

definition demo_heap :: conn_heap where
  "demo_heap = [4 \<mapsto> demo_conn, 8 \<mapsto> demo_conn]"

lemma demo_recv_inv: "recv_inv demo_recv demo_heap"
  by (simp add: recv_inv_def demo_recv_def demo_heap_def new_HeartbeatRecv_def)

theorem heartbeat_evicts_witness:
  "\<exists>v' H' d. timerCallback_recv False (Timestamp 106000000) (demo_recv, demo_heap) = Inr (v', H') \<and>
     connList v' = [(4, 100)] \<and> H' 4 = Some demo_conn \<and> forceClose False demo_conn = Inr d \<and> H' 8 = Some d"
proof -
  have s: "seconds_of (Timestamp 106000000) = 106" by (simp add: seconds_of_def csMicrosecondsPerSecond_def)
  from heartbeat_evicts [OF demo_recv_inv, of False "Timestamp 106000000"] obtain v' H' where
    r: "timerCallback_recv False (Timestamp 106000000) (demo_recv, demo_heap) = Inr (v', H')"
    "connList v' = filter (\<lambda>(p, t). 106 - uint t \<le> 15) (connList demo_recv)"
    and H': "\<And>p. case map_of (connList demo_recv) p of
        Some t \<Rightarrow> if 15 < 106 - uint t
                  then \<exists>c d. demo_heap p = Some c \<and> forceClose False c = Inr d \<and> H' p = Some d
                  else H' p = demo_heap p
      | None \<Rightarrow> H' p = demo_heap p"
    unfolding s by blast
  have "connList v' = [(4, 100)]" using r(2) by (simp add: demo_recv_def)
  moreover have "H' 4 = Some demo_conn" using H' [of 4] by (simp add: demo_recv_def demo_heap_def)
  moreover have "\<exists>d. forceClose False demo_conn = Inr d \<and> H' 8 = Some d"
    using H' [of 8] by (simp add: demo_recv_def demo_heap_def)
  ultimately show ?thesis using r(1) by blast
qed



text \<open>
  The stored second has 32 bits. Up to the year 2106 a peer heard at one time survives a later check
  exactly if at most 15 whole seconds lie between; from then on every check closes every peer, however
  recently it was heard.
\<close>

theorem heartbeat_horizon:
  assumes "recv_inv v H" and "p \<noteq> 0" and "H p = Some c" and "conn_inv c"
    and "0 \<le> microsecondsSinceEpoch heard" and "seconds_of heard \<le> seconds_of clk"
  shows "\<exists>v1 v2 H2. updateConn header0 junk True w heard p [] 0 (v, H) = Inr (False, v1, H) \<and>
     timerCallback_recv il clk (v1, H) = Inr (v2, H2) \<and>
     (p \<in> fst ` set (connList v2) \<longleftrightarrow> seconds_of heard < 2 ^ 32 \<and> seconds_of clk - seconds_of heard \<le> 15)"
proof -
  let ?t = "of_int (seconds_of heard) :: uint32"
  let ?v = "v\<lparr>connList := touch p ?t (connList v)\<rparr>"
  have up: "updateConn header0 junk True w heard p [] 0 (v, H) = Inr (False, ?v, H)"
    by (simp add: updateConn_def processPing_def PING_def)
  have inv: "recv_inv ?v H" using recv_inv_touch [OF assms(1-4)] .
  then have dist: "distinct (map fst (connList ?v))" and live: "\<forall>e \<in> set (connList ?v). fst e \<noteq> 0 \<and> (\<exists>c. H (fst e) = Some c \<and> conn_inv c)"
    by (simp_all add: recv_inv_def)
  from evict_spec [OF this, of il "seconds_of clk"] obtain H2 where
    ev: "evict il (seconds_of clk) (connList ?v) H = Inr (filter (\<lambda>(p, t). seconds_of clk - uint t \<le> 15) (connList ?v), H2)"
    by blast
  have nonneg: "0 \<le> seconds_of heard"
    using assms(5) by (simp add: seconds_of_def csMicrosecondsPerSecond_def)
  have t: "uint ?t = seconds_of heard mod 2 ^ 32" by (simp add: uint_word_of_int)
  have "(p, u) \<in> set (connList ?v) \<longleftrightarrow> u = ?t" for u
    using dist touch_map_of [of p ?t "connList v"] by (auto simp flip: map_of_eq_Some_iff)
  then have "p \<in> fst ` set (filter (\<lambda>(p, t). seconds_of clk - uint t \<le> 15) (connList ?v)) \<longleftrightarrow>
      seconds_of clk - seconds_of heard mod 2 ^ 32 \<le> 15"
    using t by (force simp: image_iff)
  also have "\<dots> \<longleftrightarrow> seconds_of heard < 2 ^ 32 \<and> seconds_of clk - seconds_of heard \<le> 15"
  proof (cases "seconds_of heard < 2 ^ 32")
    case True
    with nonneg show ?thesis by simp
  next
    case False
    moreover have "seconds_of heard mod 2 ^ 32 \<le> seconds_of heard - 2 ^ 32"
      using False mod_pos_pos_trivial [of "seconds_of heard - 2 ^ 32" "2 ^ 32"]
      by (smt (verit) mod_add_self2 zmod_le_nonneg_dividend)
    ultimately show ?thesis using assms(6) by simp
  qed
  finally show ?thesis
    using up ev by (simp add: timerCallback_recv_def)
qed

theorem heartbeat_horizon_witness:
  "\<exists>v1 v2 H2. updateConn \<lparr>FIN = 0, RSV = 5, Opcode = 9, maskBit = 0, PayloadLen = 77\<rparr> (\<lambda>_. 0) True (\<lambda>_. Inr 10)
       (Timestamp 4294967297000000) 4 [] 0 (demo_recv, demo_heap) = Inr (False, v1, demo_heap) \<and>
     timerCallback_recv False (Timestamp 4294967297000000) (v1, demo_heap) = Inr (v2, H2) \<and>
     (4 \<in> fst ` set (connList v2) \<longleftrightarrow> seconds_of (Timestamp 4294967297000000) < 2 ^ 32 \<and>
        seconds_of (Timestamp 4294967297000000) - seconds_of (Timestamp 4294967297000000) \<le> 15)"
  by (rule heartbeat_horizon [OF demo_recv_inv, where c = demo_conn]) (simp_all add: demo_heap_def)

end
