(* ===== verification/Utility.thy ===== *)
theory Utility
  imports Prelude
begin

text \<open>
  \<^verbatim>\<open>websocket/Utility.cpp\<close>: the bit-field accessors \<^verbatim>\<open>getbit\<close>/\<^verbatim>\<open>setbit\<close>, the string splitter
  that \<^verbatim>\<open>WSNet\<close> parses its URL with, and the \<^verbatim>\<open>select\<close>-based sleep. \<^verbatim>\<open>ws::log\<close> only formats
  and prints and is not modelled.
\<close>

section \<open>Bit fields\<close>

definition MASK :: "byte list" where
  "MASK = [0x80, 0x40, 0x20, 0x10, 0x08, 0x04, 0x02, 0x01]"

text \<open>
  \<^verbatim>\<open>pos\<close> and \<^verbatim>\<open>count\<close> are signed \<^verbatim>\<open>char\<close>s; a negative \<^verbatim>\<open>pos\<close> passes the assert and indexes
  \<^verbatim>\<open>MASK\<close> out of its bounds.
\<close>

definition mask_at :: "int \<Rightarrow> byte res" where
  "mask_at i = (if 0 \<le> i \<and> i < 8 then Inr (MASK ! nat i) else Inl OutOfBounds)"

function getbit_loop :: "byte \<Rightarrow> int \<Rightarrow> int \<Rightarrow> byte \<Rightarrow> nat \<Rightarrow> byte res" where
  "getbit_loop src pos count r bitpos =
     (if 0 < count
      then res_bind (mask_at (7 - pos)) (\<lambda>m.
             getbit_loop src (pos + 1) (count - 1)
               (if 0 < src AND m then r OR push_bit bitpos 1 else r OR push_bit bitpos 0)
               (bitpos + 1))
      else Inr r)"
  by pat_completeness auto
termination
  by (relation "measure (\<lambda>(src, pos, count, r, bitpos). nat count)") auto

definition getbit :: "byte \<Rightarrow> int \<Rightarrow> int \<Rightarrow> byte res" where
  "getbit src pos count = c_assert (pos + count \<le> 8) (getbit_loop src pos count 0 0)"

function setbit_loop :: "byte \<Rightarrow> int \<Rightarrow> int \<Rightarrow> byte \<Rightarrow> int \<Rightarrow> byte res" where
  "setbit_loop src pos count inp i =
     (if i < count
      then res_bind (mask_at (7 - i)) (\<lambda>mi.
           res_bind (mask_at (7 - pos)) (\<lambda>mp.
             setbit_loop (if 0 < inp AND mi then src OR mp else src AND NOT mp)
               (pos + 1) count inp (i + 1)))
      else Inr src)"
  by pat_completeness auto
termination
  by (relation "measure (\<lambda>(src, pos, count, inp, i). nat (count - i))") auto

definition setbit :: "byte \<Rightarrow> int \<Rightarrow> int \<Rightarrow> byte \<Rightarrow> byte res" where
  "setbit src pos count inp = c_assert (pos + count \<le> 8) (setbit_loop src pos count inp 0)"

declare getbit_loop.simps [simp del] setbit_loop.simps [simp del]

lemma mask_at_bit:
  assumes "p < 8"
  shows "mask_at (7 - int p) = Inr (2 ^ p)"
proof -
  have "p \<in> {0, 1, 2, 3, 4, 5, 6, 7}" using assms by auto
  then show ?thesis
    by (auto simp: mask_at_def MASK_def)
qed

lemma single_bit_test: "0 < (w :: byte) AND 2 ^ p \<longleftrightarrow> bit w p"
  by (simp add: word_gt_0 and_exp_eq_0_iff_not_bit)

lemma getbit_loop_spec:
  assumes "p + c \<le> 8" and "b + c \<le> 8"
  shows "getbit_loop src (int p) (int c) r b
       = Inr (r OR push_bit b (take_bit c (drop_bit p src)))"
  using assms
proof (induction c arbitrary: p b r)
  case 0
  then show ?case by (simp add: getbit_loop.simps)
next
  case (Suc c)
  have IH: "getbit_loop src (int (Suc p)) (int c) r' (Suc b)
      = Inr (r' OR push_bit (Suc b) (take_bit c (drop_bit (Suc p) src)))" for r'
    by (rule Suc.IH) (use Suc.prems in auto)
  have step: "getbit_loop src (int p) (int (Suc c)) r b
      = getbit_loop src (int (Suc p)) (int c) (if bit src p then r OR 2 ^ b else r) (Suc b)"
    using Suc.prems by (subst getbit_loop.simps) (simp add: mask_at_bit single_bit_test add.commute)
  have bits: "(if bit src p then r OR 2 ^ b else r)
        OR push_bit (Suc b) (take_bit c (drop_bit (Suc p) src))
      = r OR push_bit b (take_bit (Suc c) (drop_bit p src))"
  proof (rule bit_word_eqI)
    fix n assume "n < LENGTH(8)"
    then show "bit ((if bit src p then r OR 2 ^ b else r)
          OR push_bit (Suc b) (take_bit c (drop_bit (Suc p) src))) n
      \<longleftrightarrow> bit (r OR push_bit b (take_bit (Suc c) (drop_bit p src))) n"
      by (cases "n = b")
        (auto simp: bit_or_iff bit_push_bit_iff bit_take_bit_iff bit_drop_bit_eq bit_exp_iff
           Suc_le_eq Suc_diff_Suc simp del: push_bit_Suc)
  qed
  show ?case unfolding step IH bits ..
qed

text \<open>\<open>getbit\<close> reads the \<open>count\<close> bits from \<open>pos\<close> up, shifted down.\<close>

lemma getbit_spec:
  assumes "p + c \<le> 8"
  shows "getbit src (int p) (int c) = Inr (take_bit c (drop_bit p src))"
  using getbit_loop_spec [of p c 0 src 0] assms by (simp add: getbit_def)

lemma setbit_loop_spec:
  assumes "p + c \<le> 8" and "i + c \<le> 8"
  shows "\<exists>w. setbit_loop src (int p) (int (i + c)) inp (int i) = Inr w \<and>
      (\<forall>n < 8. bit w n \<longleftrightarrow> (if p \<le> n \<and> n < p + c then bit inp (i + n - p) else bit src n))"
  using assms
proof (induction c arbitrary: p i src)
  case 0
  then show ?case by (auto simp: setbit_loop.simps)
next
  case (Suc c)
  let ?src = "if bit inp i then src OR 2 ^ p else src AND NOT (2 ^ p)"
  have step: "setbit_loop src (int p) (int (i + Suc c)) inp (int i)
      = setbit_loop ?src (int (Suc p)) (int (Suc i + c)) inp (int (Suc i))"
    using Suc.prems by (subst setbit_loop.simps) (simp add: mask_at_bit single_bit_test ac_simps)
  obtain w where w: "setbit_loop ?src (int (Suc p)) (int (Suc i + c)) inp (int (Suc i)) = Inr w"
    and bw: "\<forall>n < 8. bit w n \<longleftrightarrow>
      (if Suc p \<le> n \<and> n < Suc p + c then bit inp (Suc i + n - Suc p) else bit ?src n)"
    using Suc.IH [of "Suc p" "Suc i" ?src] Suc.prems by auto
  have "\<forall>n < 8. bit w n \<longleftrightarrow> (if p \<le> n \<and> n < p + Suc c then bit inp (i + n - p) else bit src n)"
    using Suc.prems
    by (auto simp: bw bit_or_iff bit_and_iff bit_not_iff bit_exp_iff
        le_Suc_eq not_less_eq_eq)
  with w step show ?case by auto
qed

lemma setbit_spec:
  assumes "p + c \<le> 8"
  obtains w where "setbit src (int p) (int c) inp = Inr w"
    and "\<And>n. n < 8 \<Longrightarrow> bit w n \<longleftrightarrow> (if p \<le> n \<and> n < p + c then bit inp (n - p) else bit src n)"
  using setbit_loop_spec [of p c 0 src inp] assms by (auto simp: setbit_def)

text \<open>
  \<^verbatim>\<open>setbit\<close> followed by \<^verbatim>\<open>getbit\<close> on the same field returns the bits that were written, and
  \<^verbatim>\<open>setbit\<close> leaves every bit outside the field as it was.
\<close>

theorem setbit_getbit:
  assumes "p + c \<le> 8"
  shows "\<exists>w. setbit src (int p) (int c) inp = Inr w \<and>
      getbit w (int p) (int c) = Inr (take_bit c inp) \<and>
      (\<forall>n < 8. \<not> (p \<le> n \<and> n < p + c) \<longrightarrow> bit w n = bit src n)"
proof -
  obtain w where w: "setbit src (int p) (int c) inp = Inr w"
    and bw: "\<And>n. n < 8 \<Longrightarrow> bit w n \<longleftrightarrow> (if p \<le> n \<and> n < p + c then bit inp (n - p) else bit src n)"
    using assms by (rule setbit_spec) blast
  have "take_bit c (drop_bit p w) = take_bit c inp"
    by (rule bit_word_eqI) (use assms bw in \<open>auto simp: bit_take_bit_iff bit_drop_bit_eq\<close>)
  then show ?thesis
    using w bw getbit_spec [OF assms, of w] by auto
qed

theorem setbit_getbit_witness:
  "\<exists>w. setbit 0xF0 2 3 5 = Inr w \<and> getbit w 2 3 = Inr (take_bit 3 5) \<and>
     (\<forall>n < 8. \<not> (2 \<le> n \<and> n < 2 + (3 :: nat)) \<longrightarrow> bit w n = bit (0xF0 :: byte) n)"
  using setbit_getbit [of 2 3 "0xF0" 5] by simp

section \<open>Splitting strings\<close>

text \<open>
  \<open>str_find s sep pos\<close> is \<^verbatim>\<open>std::string::find\<close>: the first index from \<open>pos\<close> on at which \<open>sep\<close>
  occurs, \<open>None\<close> for \<^verbatim>\<open>npos\<close>. The empty string occurs everywhere up to the end.
\<close>

definition occurs_at :: "'a list \<Rightarrow> 'a list \<Rightarrow> nat \<Rightarrow> bool" where
  "occurs_at s sep i \<longleftrightarrow> i + length sep \<le> length s \<and> take (length sep) (drop i s) = sep"

definition str_find :: "'a list \<Rightarrow> 'a list \<Rightarrow> nat \<Rightarrow> nat option" where
  "str_find s sep pos = List.find (occurs_at s sep) [pos ..< Suc (length s)]"

lemma str_find_None: "str_find s sep pos = None \<longleftrightarrow> (\<forall>i \<ge> pos. \<not> occurs_at s sep i)"
  by (auto simp: str_find_def find_None_iff occurs_at_def)

lemma str_find_Some:
  "str_find s sep pos = Some i \<Longrightarrow>
     pos \<le> i \<and> occurs_at s sep i \<and> (\<forall>j. pos \<le> j \<and> j < i \<longrightarrow> \<not> occurs_at s sep j)"
proof -
  assume "str_find s sep pos = Some i"
  then obtain k where k: "k < length [pos ..< Suc (length s)]" "occurs_at s sep ([pos ..< Suc (length s)] ! k)"
    "i = [pos ..< Suc (length s)] ! k" "\<forall>j < k. \<not> occurs_at s sep ([pos ..< Suc (length s)] ! j)"
    by (auto simp: str_find_def find_Some_iff)
  then have i: "i = pos + k" "i \<le> length s" by (auto simp: nth_upt simp del: upt_Suc)
  have "\<not> occurs_at s sep j" if "pos \<le> j" "j < i" for j
  proof -
    have "j - pos < k" and "[pos ..< Suc (length s)] ! (j - pos) = j"
      using i that by (auto simp: nth_upt simp del: upt_Suc)
    with k(4) show ?thesis by metis
  qed
  then show ?thesis using k i by (auto simp del: upt_Suc)
qed

text \<open>
  The loop of \<^verbatim>\<open>strsplit\<close> makes no progress for an empty separator, so it is a partial function;
  \<open>None\<close> means that the call does not return.
\<close>

partial_function (option) strsplit_loop ::
    "'a list \<Rightarrow> 'a list \<Rightarrow> nat \<Rightarrow> nat option \<Rightarrow> 'a list list \<Rightarrow> 'a list list option" where
  "strsplit_loop s sep pos1 pos2 v =
     (case pos2 of
        None \<Rightarrow> Some (if pos1 \<noteq> length s then v @ [drop pos1 s] else v)
      | Some p2 \<Rightarrow>
          strsplit_loop s sep (p2 + length sep) (str_find s sep (p2 + length sep))
            (v @ [take (p2 - pos1) (drop pos1 s)]))"

definition strsplit :: "'a list \<Rightarrow> 'a list \<Rightarrow> 'a list list \<Rightarrow> 'a list list option" where
  "strsplit s sep v = strsplit_loop s sep 0 (str_find s sep 0) v"

fun join_with :: "'a list \<Rightarrow> 'a list list \<Rightarrow> 'a list" where
  "join_with sep [] = []"
| "join_with sep [w] = w"
| "join_with sep (w # ws) = w @ sep @ join_with sep ws"

lemma join_with_Cons: "ws \<noteq> [] \<Longrightarrow> join_with sep (w # ws) = w @ sep @ join_with sep ws"
  by (cases ws) auto

lemma occurs_at_piece:
  assumes "occurs_at (take n (drop p s)) sep i" and "p \<le> length s"
  shows "occurs_at s sep (p + i)" and "i + length sep \<le> n"
  using assms
  by (auto simp: occurs_at_def take_drop min_def ac_simps split: if_splits)

text \<open>
  What the loop appends from \<open>pos1\<close> on: pieces that do not contain the separator and whose
  join, with a separator at the end if the text ends in one, is the rest of the text.
\<close>

definition split_of :: "'a list \<Rightarrow> 'a list \<Rightarrow> 'a list list \<Rightarrow> bool" where
  "split_of sep rest ws \<longleftrightarrow>
     (rest = join_with sep ws \<or> ws \<noteq> [] \<and> rest = join_with sep ws @ sep) \<and>
     (\<forall>w \<in> set ws. str_find w sep 0 = None)"

lemma strsplit_loop_spec:
  assumes "sep \<noteq> []" and "p \<le> length s"
  shows "\<exists>ws. strsplit_loop s sep p (str_find s sep p) v = Some (v @ ws) \<and> split_of sep (drop p s) ws"
  using assms(2)
proof (induction "length s - p" arbitrary: p v rule: less_induct)
  case less
  show ?case
  proof (cases "str_find s sep p")
    case None
    have no: "str_find (drop p s) sep 0 = None"
      using None occurs_at_piece(1) [of "length s" p s sep] less.prems
      by (auto simp: str_find_None)
    show ?thesis
    proof (cases "p = length s")
      case True
      with None show ?thesis by (simp add: strsplit_loop.simps split_of_def)
    next
      case False
      then show ?thesis
        by (intro exI [of _ "[drop p s]"]) (simp add: None strsplit_loop.simps split_of_def no)
    qed
  next
    case (Some q)
    let ?w = "take (q - p) (drop p s)" and ?p' = "q + length sep"
    from str_find_Some [OF Some] have q: "p \<le> q" "occurs_at s sep q"
      "\<And>j. p \<le> j \<Longrightarrow> j < q \<Longrightarrow> \<not> occurs_at s sep j" by auto
    from q(2) have bound: "?p' \<le> length s" and at: "take (length sep) (drop q s) = sep"
      by (auto simp: occurs_at_def)
    have "length s - ?p' < length s - p"
      using assms(1) bound q(1) by (cases sep) auto
    from less.hyps [OF this bound, of "v @ [?w]"] obtain ws where
      ws: "strsplit_loop s sep ?p' (str_find s sep ?p') (v @ [?w]) = Some (v @ [?w] @ ws)"
      and split: "split_of sep (drop ?p' s) ws" by auto
    have rest: "drop p s = ?w @ sep @ drop ?p' s"
    proof -
      have "drop p s = ?w @ drop q s"
        using q(1) by (metis append_take_drop_id drop_drop le_add_diff_inverse2)
      moreover have "drop q s = sep @ drop ?p' s"
        by (metis at append_take_drop_id drop_drop add.commute)
      ultimately show ?thesis by simp
    qed
    have "str_find ?w sep 0 = None"
      unfolding str_find_None
    proof (intro allI impI notI)
      fix i assume "occurs_at ?w sep i"
      from occurs_at_piece [OF this less.prems] have "occurs_at s sep (p + i)" and "i + length sep \<le> q - p" .
      moreover have "0 < length sep" using assms(1) by simp
      ultimately show False using q(1) q(3) [of "p + i"] by linarith
    qed
    then have "split_of sep (drop p s) (?w # ws)"
      using split rest by (cases ws) (auto simp: split_of_def join_with_Cons)
    moreover have "strsplit_loop s sep p (Some q) v = Some (v @ ?w # ws)"
      using ws by (subst strsplit_loop.simps) simp
    ultimately show ?thesis using Some by auto
  qed
qed

lemma strsplit_spec:
  assumes "sep \<noteq> []"
  shows "\<exists>ws. strsplit s sep v = Some (v @ ws) \<and> split_of sep s ws"
  using strsplit_loop_spec [OF assms, of 0 s v] by (simp add: strsplit_def)

lemma strsplit_loop_empty_sep:
  assumes "strsplit_loop s sep p1 p2 v = Some r"
  shows "\<not> (sep = [] \<and> (\<exists>q \<le> length s. p2 = Some q))"
proof (rule strsplit_loop.raw_induct
    [where P = "\<lambda>s sep p1 p2 v r. \<not> (sep = [] \<and> (\<exists>q \<le> length s. p2 = Some q))", OF _ assms])
  fix f s sep p1 p2 v r
  assume IH: "\<And>s sep p1 p2 v r. f s sep p1 p2 v = Some r \<Longrightarrow> \<not> (sep = [] \<and> (\<exists>q \<le> length s. p2 = Some q))"
    and eq: "(case p2 of None \<Rightarrow> Some (if p1 \<noteq> length s then v @ [drop p1 s] else v)
      | Some q \<Rightarrow> f s sep (q + length sep) (str_find s sep (q + length sep))
          (v @ [take (q - p1) (drop p1 s)])) = Some r"
  show "\<not> (sep = [] \<and> (\<exists>q \<le> length s. p2 = Some q))"
  proof (intro notI, elim conjE exE)
    fix q assume "sep = []" "q \<le> length s" "p2 = Some q"
    moreover from this have "str_find s [] q = Some q"
      by (simp add: str_find_def occurs_at_def upt_conv_Cons del: upt_Suc)
    ultimately have "f s [] q (Some q) (v @ [take (q - p1) (drop p1 s)]) = Some r"
      using eq by simp
    from IH [OF this] \<open>q \<le> length s\<close> show False by simp
  qed
qed



section \<open>Sleeping\<close>

text \<open>
  \<^verbatim>\<open>milliseconds_sleep\<close> fills a \<^verbatim>\<open>timeval\<close> and repeats \<^verbatim>\<open>select\<close> while it is interrupted by a
  signal. The outcomes of the \<^verbatim>\<open>select\<close> calls are an argument: \<open>(err, eintr)\<close> for the return value
  and whether \<^verbatim>\<open>errno\<close> is \<^verbatim>\<open>EINTR\<close>; the result is the number of calls made.
\<close>

definition sleep_timeval :: "nat \<Rightarrow> nat \<times> nat" where
  "sleep_timeval mSec = (mSec div 1000, (mSec mod 1000) * 1000)"

fun select_loop :: "(int \<times> bool) list \<Rightarrow> nat option" where
  "select_loop [] = None"
| "select_loop ((err, eintr) # os) =
     (if err < 0 \<and> eintr then map_option Suc (select_loop os) else Some 1)"

definition milliseconds_sleep :: "nat \<Rightarrow> (int \<times> bool) list \<Rightarrow> (nat \<times> nat) \<times> nat option" where
  "milliseconds_sleep mSec os = (sleep_timeval mSec, select_loop os)"

lemma sleep_timeval_normal:
  assumes "sleep_timeval ms = (s, us)"
  shows "us < 1000000" and "s * 1000000 + us = ms * 1000"
proof -
  from assms have s: "s = ms div 1000" and us: "us = (ms mod 1000) * 1000"
    by (simp_all add: sleep_timeval_def)
  have "ms mod 1000 < 1000" by simp
  then show "us < 1000000" by (simp add: us)
  have "ms div 1000 * 1000 + ms mod 1000 = ms" by simp
  then show "s * 1000000 + us = ms * 1000"
    unfolding s us by linarith
qed

end
