(* ===== verification/ClientEndpoint.thy ===== *)
theory ClientEndpoint
  imports Heartbeats Utility
begin

text \<open>
  \<^verbatim>\<open>websocket/WSNet.h\<close>, \<^verbatim>\<open>websocket/WSNet.cpp\<close>, \<^verbatim>\<open>websocket/WebSocket.h\<close> and \<^verbatim>\<open>websocket/WebSocket.cpp\<close>:
  the client end, from the URL to the messages that the application sends and receives.
\<close>

section \<open>The URL\<close>

text \<open>The C library's \<^verbatim>\<open>atoi\<close>: blanks, a sign, digits. (What does not fit an \<^verbatim>\<open>int\<close> is undefined in C.)\<close>

definition is_space :: "char \<Rightarrow> bool" where
  "is_space c \<longleftrightarrow> c = CHR '' '' \<or> (9 \<le> (of_char c :: nat) \<and> of_char c \<le> (13 :: nat))"

definition is_digit :: "char \<Rightarrow> bool" where
  "is_digit c \<longleftrightarrow> 48 \<le> (of_char c :: nat) \<and> of_char c \<le> (57 :: nat)"

fun digits_value :: "int \<Rightarrow> string \<Rightarrow> int" where
  "digits_value acc [] = acc"
| "digits_value acc (c # cs) = (if is_digit c then digits_value (10 * acc + (of_char c - 48)) cs else acc)"

definition atoi :: "string \<Rightarrow> int" where
  "atoi s =
     (case dropWhile is_space s of
        [] \<Rightarrow> 0
      | c # cs \<Rightarrow>
          if c = CHR ''-'' then - digits_value 0 cs
          else if c = CHR ''+'' then digits_value 0 cs
          else digits_value 0 (c # cs))"

definition vec_at :: "'a list \<Rightarrow> nat \<Rightarrow> 'a res" where
  "vec_at v i = (if i < length v then Inr (v ! i) else Inl OutOfBounds)"

text \<open>
  The constructor of \<^verbatim>\<open>WSNet\<close>: the host and the port for the new \<^verbatim>\<open>NetClient\<close>, or no client at all. The
  outer \<open>None\<close> would mean that \<^verbatim>\<open>strsplit\<close> does not return. The port is narrowed to \<^verbatim>\<open>short\<close>.
\<close>

definition parse_url :: "string \<Rightarrow> (string \<times> ushort) option res option" where
  "parse_url url =
     (case strsplit url ''/'' [] of
        None \<Rightarrow> None
      | Some vec \<Rightarrow>
          if 2 \<le> length vec
          then (case vec_at vec 2 of
                  Inl e \<Rightarrow> Some (Inl e)
                | Inr addr \<Rightarrow>
                    (case strsplit addr '':'' [] of
                       None \<Rightarrow> None
                     | Some vec \<Rightarrow>
                         Some (res_bind (vec_at vec 0) (\<lambda>host.
                               res_bind (vec_at vec 1) (\<lambda>port. Inr (Some (host, of_int (atoi port))))))))
          else Some (Inr None))"

subsection \<open>Splitting at one character\<close>

lemma occurs_char: "occurs_at s [c] i \<longleftrightarrow> i < length s \<and> s ! i = c"
proof -
  have "take 1 (drop i s) = [s ! i]" if "i < length s"
    by (simp flip: Cons_nth_drop_Suc [OF that])
  then show ?thesis by (auto simp: occurs_at_def)
qed

lemma find_char:
  assumes "drop p s = w @ c # rest" and "c \<notin> set w"
  shows "str_find s [c] p = Some (p + length w)"
proof -
  have len: "p + length w < length s"
    using drop_eq_append_length [of p s "w @ [c]" rest] assms(1) by simp
  have at: "s ! (p + j) = (w @ c # rest) ! j" if "p + j < length s" for j
    using that nth_drop [of p s j] assms(1) by simp
  have first: "\<not> occurs_at s [c] j" if "p \<le> j" "j < p + length w" for j
  proof -
    have "s ! j = w ! (j - p)" "j - p < length w"
      using that len at [of "j - p"] by (auto simp: nth_append)
    with assms(2) show ?thesis by (metis nth_mem occurs_char)
  qed
  have hit: "occurs_at s [c] (p + length w)"
    using len at [of "length w"] by (simp add: occurs_char)
  show ?thesis
  proof (cases "str_find s [c] p")
    case None
    with hit show ?thesis by (auto simp: str_find_None)
  next
    case (Some i)
    from str_find_Some [OF Some] first hit have "\<not> i < p + length w" "\<not> p + length w < i" by auto
    with Some show ?thesis by simp
  qed
qed

lemma find_no_char:
  assumes "c \<notin> set (drop p s)"
  shows "str_find s [c] p = None"
proof -
  have "\<not> occurs_at s [c] i" if "p \<le> i" for i
  proof
    assume "occurs_at s [c] i"
    then have "i < length s" "s ! i = c" by (simp_all add: occurs_char)
    then have "c = drop p s ! (i - p)" "i - p < length (drop p s)" using that by auto
    then show False using assms nth_mem by metis
  qed
  then show ?thesis by (simp add: str_find_None)
qed

lemma split_piece:
  assumes "drop p s = w @ c # rest" and "c \<notin> set w"
  shows "strsplit_loop s [c] p (str_find s [c] p) v =
     strsplit_loop s [c] (p + length w + 1) (str_find s [c] (p + length w + 1)) (v @ [w])"
  using find_char [OF assms] assms(1) by (subst strsplit_loop.simps) simp

lemma split_end:
  assumes "drop p s = w" and "c \<notin> set w" and "p \<le> length s"
  shows "strsplit_loop s [c] p (str_find s [c] p) v = Some (if w = [] then v else v @ [w])"
proof -
  have "str_find s [c] p = None" using assms(1,2) by (intro find_no_char) simp
  then show ?thesis using assms(1,3) by (subst strsplit_loop.simps) auto
qed

lemma strsplit_none: "c \<notin> set s \<Longrightarrow> strsplit s [c] [] = Some (if s = [] then [] else [s])"
  using split_end [of 0 s s c "[]"] by (simp add: strsplit_def)

lemma strsplit_one:
  assumes "c \<notin> set a" and "c \<notin> set b"
  shows "strsplit (a @ c # b) [c] [] = Some (if b = [] then [a] else [a, b])"
proof -
  let ?s = "a @ c # b"
  have "strsplit_loop ?s [c] 0 (str_find ?s [c] 0) [] =
      strsplit_loop ?s [c] (length a + 1) (str_find ?s [c] (length a + 1)) [a]"
    using split_piece [of 0 ?s a c b "[]"] assms(1) by simp
  also have "\<dots> = Some (if b = [] then [a] else [a, b])"
    using split_end [of "length a + 1" ?s b c "[a]"] assms(2) by simp
  finally show ?thesis by (simp add: strsplit_def)
qed

lemma strsplit_three:
  assumes "c \<notin> set a" and "c \<notin> set b" and "c \<notin> set d"
  shows "strsplit (a @ c # b @ c # d) [c] [] = Some (if d = [] then [a, b] else [a, b, d])"
proof -
  let ?s = "a @ c # b @ c # d"
  have "strsplit_loop ?s [c] 0 (str_find ?s [c] 0) [] =
      strsplit_loop ?s [c] (length a + 1) (str_find ?s [c] (length a + 1)) [a]"
    using split_piece [of 0 ?s a c "b @ c # d" "[]"] assms(1) by simp
  also have "\<dots> = strsplit_loop ?s [c] (length a + 1 + length b + 1) (str_find ?s [c] (length a + 1 + length b + 1)) ([a] @ [b])"
    by (rule split_piece [OF _ assms(2)]) simp
  also have "\<dots> = Some (if d = [] then [a, b] else [a, b, d])"
    using split_end [of "length a + 1 + length b + 1" ?s d c "[a, b]"] assms(3) by simp
  finally show ?thesis by (simp add: strsplit_def)
qed

lemma parse_url_good:
  assumes "CHR ''/'' \<notin> set scheme" and "CHR ''/'' \<notin> set (host @ CHR '':'' # port)" and "CHR '':'' \<notin> set host"
    and "CHR '':'' \<notin> set port" and "port \<noteq> []"
  shows "parse_url (scheme @ ''//'' @ host @ '':'' @ port) = Some (Inr (Some (host, of_int (atoi port))))"
  using strsplit_three [OF assms(1) _ assms(2), of "[]"] strsplit_one [OF assms(3,4)] assms(5)
  by (simp add: parse_url_def vec_at_def)

text \<open>
  The URL \<open>scheme//host:port\<close> gives the host and the decimal port. Text without a slash gives no
  client; one slash with something behind it, or a missing port, makes the constructor read past the
  end of a vector.
\<close>

theorem url_parsing:
  assumes "CHR ''/'' \<notin> set scheme" and "CHR ''/'' \<notin> set host" and "CHR '':'' \<notin> set host"
    and "CHR ''/'' \<notin> set port" and "CHR '':'' \<notin> set port" and "host \<noteq> []" and "port \<noteq> []"
  shows "parse_url (scheme @ ''//'' @ host @ '':'' @ port) = Some (Inr (Some (host, of_int (atoi port)))) \<and>
     parse_url (scheme @ ''//'' @ host) = Some (Inl OutOfBounds) \<and>
     parse_url (scheme @ ''/'' @ host @ '':'' @ port) = Some (Inl OutOfBounds) \<and>
     parse_url (host @ '':'' @ port) = Some (Inr None)"
proof -
  let ?addr = "host @ CHR '':'' # port"
  have addr: "CHR ''/'' \<notin> set ?addr" "?addr \<noteq> []" using assms by auto
  have "parse_url (scheme @ ''//'' @ host @ '':'' @ port) = Some (Inr (Some (host, of_int (atoi port))))"
    by (rule parse_url_good [OF assms(1) addr(1) assms(3,5,7)])
  moreover have "parse_url (scheme @ ''//'' @ host) = Some (Inl OutOfBounds)"
    using strsplit_three [OF assms(1) _ assms(2), of "[]"] strsplit_none [OF assms(3)] assms(6)
    by (simp add: parse_url_def vec_at_def)
  moreover have "parse_url (scheme @ ''/'' @ host @ '':'' @ port) = Some (Inl OutOfBounds)"
    using strsplit_one [OF assms(1) addr(1)] addr(2) by (simp add: parse_url_def vec_at_def)
  moreover have "parse_url (host @ '':'' @ port) = Some (Inr None)"
    using strsplit_none [OF addr(1)] by (simp add: parse_url_def)
  ultimately show ?thesis by blast
qed

theorem url_parsing_witness:
  "parse_url (''ws:'' @ ''//'' @ ''127.0.0.1'' @ '':'' @ ''1234'') = Some (Inr (Some (''127.0.0.1'', 1234)))"
proof -
  have "atoi ''1234'' = 1234" by (simp add: atoi_def is_space_def is_digit_def)
  then show ?thesis
    using url_parsing [of "''ws:''" "''127.0.0.1''" "''1234''"] by simp
qed

section \<open>WSNet\<close>

text \<open>
  \<open>received\<close> records the calls of the application's message callback, \<open>msgRecvCallback\<close> whether one is
  set. The reactor thread behind \<^verbatim>\<open>loop_\<close> is in \<^verbatim>\<open>ReactorThreads\<close>; \<^verbatim>\<open>startLoop\<close> never returns null.
\<close>

record WSNet =
  proto :: WSProtocol
  client :: "NetClient option"
  bconnected :: bool
  heart :: HeartbeatSender
  msgRecvCallback :: bool
  received :: "byte list list"

definition new_WSNet :: "(string \<Rightarrow> uint32 option) \<Rightarrow> (nat \<Rightarrow> byte) \<Rightarrow> bool \<Rightarrow> string \<Rightarrow> WSNet res option" where
  "new_WSNet inet_pton junk junk_net url =
     map_option (\<lambda>r. res_bind r (\<lambda>addr.
       res_bind (case addr of
                   None \<Rightarrow> Inr None
                 | Some (host, port) \<Rightarrow> res_bind (new_NetClient inet_pton host port) (\<lambda>n. Inr (Some n))) (\<lambda>n.
       Inr \<lparr>proto = new_WSProtocol junk, client = n, bconnected = False,
            heart = new_HeartbeatSender True junk_net, msgRecvCallback = False, received = []\<rparr>)))
     (parse_url url)"

definition net_connect :: "bool \<Rightarrow> errno + int \<Rightarrow> errno option \<Rightarrow> WSNet \<Rightarrow> WSNet res" where
  "net_connect il s r net =
     (case client net of
        None \<Rightarrow> Inl AssertFail
      | Some n \<Rightarrow>
          res_bind (client_connect il s r (n\<lparr>cbConn := True, cbMsg := True\<rparr>)) (\<lambda>n. Inr (net\<lparr>client := Some n\<rparr>)))"

definition net_close :: "bool \<Rightarrow> errno option \<Rightarrow> WSNet \<Rightarrow> WSNet res" where
  "net_close il r net =
     (case client net of
        None \<Rightarrow> Inl NullDeref
      | Some n \<Rightarrow> res_bind (client_disconnect il r n) (\<lambda>n. Inr (net\<lparr>client := Some n\<rparr>)))"

text \<open>The destructor only closes; the client, the loop thread and the heartbeat stay.\<close>

definition delete_WSNet :: "bool \<Rightarrow> errno option \<Rightarrow> WSNet \<Rightarrow> WSNet res" where
  "delete_WSNet il r net = net_close il r net"

definition net_encFrameCallback ::
    "(nat \<Rightarrow> byte) \<Rightarrow> bool \<Rightarrow> (nat \<Rightarrow> errno + nat) \<Rightarrow> nat \<Rightarrow> byte list \<Rightarrow> WSNet \<Rightarrow> WSNet res" where
  "net_encFrameCallback junk il w i data net =
     (case client net of
        None \<Rightarrow> Inl AssertFail
      | Some n \<Rightarrow>
          (case conn n of
             None \<Rightarrow> Inr net
           | Some c \<Rightarrow>
               res_bind (send junk il (w i) data c) (\<lambda>c. Inr (net\<lparr>client := Some (n\<lparr>conn := Some c\<rparr>)\<rparr>))))"

text \<open>
  \<^verbatim>\<open>send\<close> first polls \<^verbatim>\<open>bconnected_\<close> every 100 ms, however long it takes. \<open>polls\<close> are the values it reads; the
  result is \<open>None\<close> if none of them is true, and \<open>again\<close> is the value of the second test.
\<close>

fun wait_connected :: "bool list \<Rightarrow> nat option" where
  "wait_connected [] = None"
| "wait_connected (b # bs) = (if b then Some 0 else map_option Suc (wait_connected bs))"

definition net_send ::
    "WSHead \<Rightarrow> (nat \<Rightarrow> byte) \<Rightarrow> bool \<Rightarrow> (nat \<Rightarrow> errno + nat) \<Rightarrow> bool list \<Rightarrow> bool \<Rightarrow> byte list \<Rightarrow> int \<Rightarrow> OpCode \<Rightarrow> WSNet
     \<Rightarrow> (byte list \<times> WSNet) res option" where
  "net_send header0 junk il w polls again data len payloadType net =
     map_option (\<lambda>_.
       if again
       then res_bind (encodeFrame header0 data len payloadType) (\<lambda>(buf, frames).
            res_bind (each_frame (net_encFrameCallback junk il w) 0 frames net) (\<lambda>net. Inr (buf, net)))
       else Inr (data, net))
     (wait_connected polls)"

text \<open>
  \<^verbatim>\<open>onConnected\<close> is called when the connection is up and again when it goes down, with \<open>up\<close> the answer of
  \<^verbatim>\<open>isConnected\<close>. \<open>w\<close> and \<open>w'\<close> answer the writes of the two PING frames. The call comes from the client,
  so there is one; \<^verbatim>\<open>start\<close> asserts it.
\<close>

definition net_onConnected ::
    "WSHead \<Rightarrow> (nat \<Rightarrow> byte) \<Rightarrow> bool \<Rightarrow> (nat \<Rightarrow> errno + nat) \<Rightarrow> (nat \<Rightarrow> errno + nat) \<Rightarrow> Timestamp \<Rightarrow> int \<Rightarrow> bool
     \<Rightarrow> WSNet \<Rightarrow> WSNet res" where
  "net_onConnected header0 junk il w w' clk idx up net =
     (let net = net\<lparr>bconnected := up\<rparr> in
      case client net of
        None \<Rightarrow> Inl AssertFail
      | Some n \<Rightarrow>
          res_bind (if getHeartState (heart net) = eReconnect
                    then let h = setHeartState eWaitPing (heart net)
                         in res_bind (sendHeartbeat header0 junk il w h n) (\<lambda>n. Inr (h, n))
                    else Inr (heart net, n)) (\<lambda>(h, n).
          res_bind (if getHeartState h = eWaitPing
                    then heart_start header0 junk il w' clk idx True (h, n)
                    else Inr (h, n)) (\<lambda>(h, n).
            Inr (net\<lparr>heart := h, client := Some n\<rparr>))))"

definition net_decFrameCallback :: "bool \<Rightarrow> byte list \<Rightarrow> WSNet \<Rightarrow> WSNet" where
  "net_decFrameCallback ctx data net =
     (if \<not> ctx then net
      else if length data = length PONG \<and> data = PONG then net\<lparr>heart := processPong (heart net)\<rparr>
      else if msgRecvCallback net then net\<lparr>received := received net @ [data]\<rparr>
      else net)"

text \<open>
  \<^verbatim>\<open>onConnMessage\<close>: the read buffer as a string, whose NUL lies behind the length, through the decoder that
  the object keeps. \<open>None\<close> means that the decoder does not return.
\<close>

definition net_onConnMessage :: "bool \<Rightarrow> Buffer \<Rightarrow> WSNet \<Rightarrow> (WSNet \<times> Buffer) res option" where
  "net_onConnMessage ctx buf net =
     (let len = readableBytes buf in
      case readAll buf of
        Inl e \<Rightarrow> Some (Inl e)
      | Inr (data, buf) \<Rightarrow>
          map_option (\<lambda>r. res_bind r (\<lambda>t.
            Inr (fold (net_decFrameCallback ctx) (d_out t) (net\<lparr>proto := d_proto t\<rparr>), buf)))
          (decodeFrame (proto net) (data @ [0]) (int len)))"

section \<open>WebSocket\<close>

text \<open>
  The facade. \<open>onOpen\<close>, \<open>onClose\<close> and \<open>onError\<close> are stored and never called; \<^verbatim>\<open>close\<close> does nothing.
\<close>

record WebSocket =
  net :: WSNet
  onOpen :: bool
  onClose :: bool
  onError :: bool
  onMessage :: bool

definition new_WebSocket ::
    "(string \<Rightarrow> uint32 option) \<Rightarrow> (nat \<Rightarrow> byte) \<Rightarrow> bool \<Rightarrow> errno + int \<Rightarrow> errno option \<Rightarrow> string \<Rightarrow> WebSocket res option" where
  "new_WebSocket inet_pton junk junk_net s r url =
     map_option (\<lambda>n. res_bind n (\<lambda>n. res_bind (net_connect False s r n) (\<lambda>n.
       Inr \<lparr>net = n, onOpen = False, onClose = False, onError = False, onMessage = False\<rparr>)))
     (new_WSNet inet_pton junk junk_net url)"

definition setStateFuncCall :: "bool \<Rightarrow> bool \<Rightarrow> bool \<Rightarrow> bool \<Rightarrow> WebSocket \<Rightarrow> WebSocket" where
  "setStateFuncCall openCall closeCall errorCall msgCall k =
     k\<lparr>onOpen := openCall, onClose := closeCall, onError := errorCall, onMessage := msgCall,
       net := (net k)\<lparr>msgRecvCallback := msgCall\<rparr>\<rparr>"

definition ws_close :: "int \<Rightarrow> string \<Rightarrow> WebSocket \<Rightarrow> int \<times> WebSocket" where
  "ws_close code reason k = (0, k)"

definition sendBlob ::
    "WSHead \<Rightarrow> (nat \<Rightarrow> byte) \<Rightarrow> (nat \<Rightarrow> errno + nat) \<Rightarrow> bool list \<Rightarrow> bool \<Rightarrow> byte list \<Rightarrow> int \<Rightarrow> WebSocket
     \<Rightarrow> (int \<times> byte list \<times> WebSocket) res option" where
  "sendBlob header0 junk w polls again payload len k =
     map_option (\<lambda>r. res_bind r (\<lambda>(buf, n). Inr (0, buf, k\<lparr>net := n\<rparr>)))
       (net_send header0 junk False w polls again payload len eTextFrame (net k))"

definition sendString ::
    "WSHead \<Rightarrow> (nat \<Rightarrow> byte) \<Rightarrow> (nat \<Rightarrow> errno + nat) \<Rightarrow> bool list \<Rightarrow> bool \<Rightarrow> byte list \<Rightarrow> WebSocket
     \<Rightarrow> (int \<times> WebSocket) res option" where
  "sendString header0 junk w polls again cpayload k =
     map_option (\<lambda>r. res_bind r (\<lambda>(_, n). Inr (0, k\<lparr>net := n\<rparr>)))
       (net_send header0 junk False w polls again (cpayload @ [0]) (int (length cpayload)) eTextFrame (net k))"

section \<open>Receiving\<close>

lemma fold_decFrameCallback:
  "fold (net_decFrameCallback True) ds n =
     n\<lparr>received := received n @ (if msgRecvCallback n then filter (\<lambda>d. d \<noteq> PONG) ds else []),
       heart := if PONG \<in> set ds then processPong (heart n) else heart n\<rparr>"
proof (induction ds arbitrary: n)
  case Nil
  then show ?case by simp
next
  case (Cons d ds)
  have "processPong (processPong h) = processPong h" for h
    by (simp add: processPong_def setHeartState_def)
  with Cons show ?case by (auto simp: net_decFrameCallback_def)
qed

text \<open>What a read of whole messages gives to the callback of the decoder.\<close>

lemma client_reads:
  assumes "proto_inv (proto n)" and "buf_inv b" and "content b = concat (map (ws_enc header0) ms)"
    and "ms \<noteq> []" and "\<forall>m \<in> set ms. ws_good m" and "length (content b) < MAX_FRAMESIZE"
  shows "\<exists>p b'. net_onConnMessage True b n =
      Some (Inr (fold (net_decFrameCallback True) (map (\<lambda>m. delivered (snd m)) ms) (n\<lparr>proto := p\<rparr>), b')) \<and>
     content b' = [] \<and> buf_inv b' \<and> proto_inv p"
proof -
  from readAll_content [OF assms(2)] obtain b' where
    b': "readAll b = Inr (content b, b')" "buf_inv b'" "content b' = []" by blast
  from codec.dec_batch [OF assms(1,4,5), of header0] assms(3,6) obtain p where
    "ws_dec (proto n) (content b) = Some (p, map (\<lambda>m. delivered (snd m)) ms)" "proto_inv p" by auto
  then obtain t where t: "decodeFrame (proto n) (content b @ [0]) (int (length (content b))) = Some (Inr t)"
    "d_proto t = p" "d_out t = map (\<lambda>m. delivered (snd m)) ms"
    by (auto simp: ws_dec_def split: option.splits sum.splits)
  have "readableBytes b = length (content b)" using length_content [OF assms(2)] by simp
  with b' t show ?thesis using \<open>proto_inv p\<close> by (intro exI [of _ p] exI [of _ b']) (simp add: net_onConnMessage_def)
qed

text \<open>
  One read that holds whole messages, any number of them: the application receives them once, in order
  and in the form the codec delivers, except that a message of the four bytes PONG is taken for a
  heartbeat.
\<close>

theorem client_receives:
  assumes "proto_inv (proto n)" and "buf_inv b" and "content b = concat (map (ws_enc header0) ms)"
    and "ms \<noteq> []" and "\<forall>m \<in> set ms. ws_good m" and "length (content b) < MAX_FRAMESIZE" and "msgRecvCallback n"
  shows "\<exists>n' b'. net_onConnMessage True b n = Some (Inr (n', b')) \<and> content b' = [] \<and> buf_inv b' \<and>
     proto_inv (proto n') \<and> client n' = client n \<and>
     received n' = received n @ filter (\<lambda>d. d \<noteq> PONG) (map (\<lambda>m. delivered (snd m)) ms) \<and>
     state_of (heart n') =
       (if PONG \<in> (\<lambda>m. delivered (snd m)) ` set ms then eWaitPing else state_of (heart n))"
proof -
  from client_reads [OF assms(1-6)] obtain p b' where
    "net_onConnMessage True b n =
      Some (Inr (fold (net_decFrameCallback True) (map (\<lambda>m. delivered (snd m)) ms) (n\<lparr>proto := p\<rparr>), b'))"
    "content b' = []" "buf_inv b'" "proto_inv p" by blast
  with assms(7) show ?thesis by (simp add: fold_decFrameCallback processPong_def)
qed

definition demo_net :: WSNet where
  "demo_net = \<lparr>proto = new_WSProtocol (\<lambda>_. 1), client = Some demo_client, bconnected = True, heart = demo_heart,
     msgRecvCallback = True, received = []\<rparr>"

definition buffer_with :: "byte list \<Rightarrow> Buffer" where
  "buffer_with xs = \<lparr>readPos = 0, writePos = length xs, mem = xs @ replicate 4104 0, vsize = 0\<rparr>"

lemma buffer_with_facts [simp]: "buf_inv (buffer_with xs)" "content (buffer_with xs) = xs"
  by (simp_all add: buffer_with_def buf_defs csPrependSize_def csInitialSize_def)

lemma short_message_length:
  assumes "d \<noteq> []" and "length d < SHORT_LENGTH"
  shows "ws_good (eTextFrame, d)" and "length (ws_enc h (eTextFrame, d)) = 6 + length d"
proof -
  show good: "ws_good (eTextFrame, d)" using assms by (simp add: ws_good_def deliverable_def slice_consts)
  show "length (ws_enc h (eTextFrame, d)) = 6 + length d"
    using ws_enc_frames [OF good, of h] assms by (simp add: message_frames_def length_wire slice_consts data_frame_def)
qed

theorem client_receives_witness:
  "\<exists>n' b'. net_onConnMessage True (buffer_with (concat (map (ws_enc \<lparr>FIN = 0, RSV = 5, Opcode = 9, maskBit = 0, PayloadLen = 77\<rparr>)
       [(eTextFrame, [104]), (eTextFrame, PONG)]))) demo_net = Some (Inr (n', b')) \<and>
     received n' = received demo_net @ filter (\<lambda>d. d \<noteq> PONG) (map (\<lambda>m. delivered (snd m)) [(eTextFrame, [104]), (eTextFrame, PONG)]) \<and>
     state_of (heart n') = (if PONG \<in> (\<lambda>m. delivered (snd m)) ` set [(eTextFrame, [104]), (eTextFrame, PONG)]
       then eWaitPing else state_of (heart demo_net))"
proof -
  let ?h = "\<lparr>FIN = 0, RSV = 5, Opcode = 9, maskBit = 0, PayloadLen = 77\<rparr> :: WSHead"
  let ?ms = "[(eTextFrame, [104]), (eTextFrame, PONG)]"
  let ?b = "buffer_with (concat (map (ws_enc ?h) ?ms))"
  have short: "PONG \<noteq> []" "length PONG < SHORT_LENGTH" "[104 :: byte] \<noteq> []" "length [104 :: byte] < SHORT_LENGTH"
    by (simp_all add: PONG_def slice_consts)
  have "length PONG = 4" by (simp add: PONG_def)
  with short_message_length(2) [OF short(1,2), of ?h] short_message_length(2) [OF short(3,4), of ?h]
  have "length (content ?b) < MAX_FRAMESIZE" by (simp add: MAX_FRAMESIZE_def)
  moreover have "\<forall>m \<in> set ?ms. ws_good m" using short_message_length(1) short by simp
  moreover have "proto_inv (proto demo_net)" "msgRecvCallback demo_net" by (simp_all add: demo_net_def)
  ultimately show ?thesis
    using client_receives [of demo_net ?b ?h ?ms] by auto
qed

section \<open>Sending\<close>

lemma each_frame_posts:
  assumes "client wn = Some n" and "conn n = Some c" and "state c = eConnected"
  shows "each_frame (net_encFrameCallback junk False w) i fs wn =
     Inr (wn\<lparr>client := Some (n\<lparr>conn := Some (c\<lparr>tasks := tasks c @ map SendTask fs\<rparr>)\<rparr>)\<rparr>)"
  using assms
proof (induction fs arbitrary: i wn n c)
  case Nil
  then show ?case by simp
next
  case (Cons f fs)
  then show ?case by (simp add: net_encFrameCallback_def send_def)
qed

lemma run_tasks_write:
  assumes "conn_inv c" and "state c = eConnected" and "content (writeBuffer c) = []" and "tasks c = map SendTask fs"
  shows "\<exists>d. run_tasks junk (map (\<lambda>f. Inr (length f)) fs) c = Inr d \<and> conn_inv d \<and> state d = eConnected \<and>
     content (writeBuffer d) = [] \<and> tasks d = [] \<and> msgRecvFunc d = msgRecvFunc c \<and>
     wire_bytes (out d) = wire_bytes (out c) @ concat fs"
  using assms
proof (induction fs arbitrary: c)
  case Nil
  then show ?case by simp
next
  case (Cons f fs)
  let ?c = "c\<lparr>tasks := map SendTask fs\<rparr>"
  let ?d = "Connection.emit (Written f # (if writeCompleteFunc ?c then [WriteCompleteCb] else [])) ?c"
  have inv: "conn_inv ?c" using Cons.prems(1) by (simp add: conn_inv_def)
  have "send junk True (Inr (length f)) f ?c = Inr ?d"
    using send_whole [OF inv, of junk f] Cons.prems(2,3) by simp
  then have "run_task junk (Inr (length f)) None c = Inr ?d"
    using Cons.prems(2,4) by (simp add: run_task_def send_def)
  moreover have "conn_inv ?d" using inv by (simp add: conn_inv_def)
  moreover have "wire_bytes (out ?d) = wire_bytes (out c) @ f" by simp
  ultimately show ?case
    using Cons.IH [of ?d] Cons.prems by simp
qed

lemma wait_connected_Some: "True \<in> set polls \<Longrightarrow> \<exists>k. wait_connected polls = Some k"
  by (induction polls) auto

text \<open>
  A text or binary message that an application thread sends over an idle open connection: the frames are
  posted to the loop thread, which writes exactly the encoding of the message and nothing else, if the
  kernel takes each frame whole. The caller's buffer comes back masked.
\<close>

theorem net_send_writes:
  assumes "client wn = Some n" and "conn n = Some c" and "conn_inv c" and "state c = eConnected"
    and "content (writeBuffer c) = []" and "tasks c = []" and "True \<in> set polls"
    and "type = eTextFrame \<or> type = eBlobFrame" and "0 < k" and "k \<le> length payload"
  shows "\<exists>wn' n' c' frames d. net_send header0 junk False w polls True payload (int k) type wn
       = Some (Inr (xmask (take k payload) @ drop k payload, wn')) \<and>
     client wn' = Some n' \<and> conn n' = Some c' \<and> concat frames = ws_enc header0 (type, take k payload) \<and>
     run_tasks junk (map (\<lambda>f. Inr (length f)) frames) c' = Inr d \<and> conn_inv d \<and> tasks d = [] \<and>
     wire_bytes (out d) = wire_bytes (out c) @ ws_enc header0 (type, take k payload)"
proof -
  let ?fs = "map wire (message_frames (opcode_val type) (take k payload))"
  let ?c = "c\<lparr>tasks := map SendTask ?fs\<rparr>"
  have enc: "encodeFrame header0 payload (int k) type = Inr (xmask (take k payload) @ drop k payload, ?fs)"
    by (rule encodeFrame_data [OF assms(8-10)])
  have "ws_enc header0 (type, take k payload) = concat ?fs"
    using encodeFrame_data [OF assms(8), of "length (take k payload)" "take k payload" header0] assms(9,10)
    by (simp add: ws_enc_def min_absorb2)
  moreover obtain j where "wait_connected polls = Some j" using wait_connected_Some [OF assms(7)] by blast
  then have "net_send header0 junk False w polls True payload (int k) type wn =
      Some (Inr (xmask (take k payload) @ drop k payload, wn\<lparr>client := Some (n\<lparr>conn := Some ?c\<rparr>)\<rparr>))"
    using each_frame_posts [OF assms(1,2,4), of junk w 0 ?fs] assms(6) by (simp add: net_send_def enc)
  moreover have "conn_inv ?c" using assms(3) by (simp add: conn_inv_def)
  then obtain d where "run_tasks junk (map (\<lambda>f. Inr (length f)) ?fs) ?c = Inr d" "conn_inv d" "tasks d = []"
    "wire_bytes (out d) = wire_bytes (out c) @ concat ?fs"
    using run_tasks_write [of ?c ?fs junk] assms(4,5) by auto
  ultimately show ?thesis
    by (intro exI [of _ "wn\<lparr>client := Some (n\<lparr>conn := Some ?c\<rparr>)\<rparr>"] exI [of _ "n\<lparr>conn := Some ?c\<rparr>"] exI [of _ ?c]
        exI [of _ ?fs] exI [of _ d]) simp
qed

theorem net_send_writes_witness:
  "\<exists>wn' n' c' frames d. net_send \<lparr>FIN = 0, RSV = 5, Opcode = 9, maskBit = 0, PayloadLen = 77\<rparr> (\<lambda>_. 0) False (\<lambda>_. Inr 0)
       [False, True] True [104, 105, 0] (int 2) eTextFrame demo_net
       = Some (Inr (xmask (take 2 [104, 105, 0]) @ drop 2 [104, 105, 0], wn')) \<and>
     client wn' = Some n' \<and> conn n' = Some c' \<and>
     concat frames = ws_enc \<lparr>FIN = 0, RSV = 5, Opcode = 9, maskBit = 0, PayloadLen = 77\<rparr> (eTextFrame, take 2 [104, 105, 0]) \<and>
     run_tasks (\<lambda>_. 0) (map (\<lambda>f. Inr (length f)) frames) c' = Inr d \<and> conn_inv d \<and> tasks d = [] \<and>
     wire_bytes (out d) = wire_bytes (out demo_conn) @
       ws_enc \<lparr>FIN = 0, RSV = 5, Opcode = 9, maskBit = 0, PayloadLen = 77\<rparr> (eTextFrame, take 2 [104, 105, 0])"
  by (rule net_send_writes [of demo_net demo_client demo_conn]) (simp_all add: demo_net_def)

end
