(* ===== verification/ReactorThreads.thy ===== *)
theory ReactorThreads
  imports Prelude
begin

text \<open>
  \<^verbatim>\<open>base/ReactorThread.cpp\<close> and \<^verbatim>\<open>base/ReactorThreadPool.cpp\<close>: starting a reactor in a thread of its
  own, with the handshake that hands the address of the reactor to the starter, and the round-robin
  choice among several reactors. Reactors are named by their addresses.
\<close>

section \<open>ReactorThread\<close>

text \<open>
  The starter in \<^verbatim>\<open>startLoop\<close>: before \<^verbatim>\<open>thread_.start()\<close>, before the lock, waiting, signalled,
  returned. The new thread in \<^verbatim>\<open>threadProc\<close>: not there, before the critical section, in the loop,
  returned, with the local \<^verbatim>\<open>Reactor\<close> destroyed.
\<close>

datatype starter = SInit | SLock | SSleep | SWoken | SReturned "nat option"
datatype child = CNone | CBuilt | CLoop | CGone

record ReactorThread =
  published :: "nat option"
  starter :: starter
  child :: child

definition new_ReactorThread :: ReactorThread where
  "new_ReactorThread = \<lparr>published = None, starter = SInit, child = CNone\<rparr>"

text \<open>
  \<open>Publish p\<close> is the critical section of \<^verbatim>\<open>threadProc\<close>: store \<^verbatim>\<open>&loop\<close> and notify; \<open>Leave\<close> the return of
  \<^verbatim>\<open>loop.loop()\<close> after somebody has called \<^verbatim>\<open>quit\<close>.
\<close>

datatype rt_action = StartThread | TestLoop | Spurious | Publish nat | Leave

fun rt_exec :: "rt_action \<Rightarrow> ReactorThread \<Rightarrow> ReactorThread option" where
  "rt_exec StartThread r =
     (if starter r = SInit then Some (r\<lparr>starter := SLock, child := CBuilt\<rparr>) else None)"
| "rt_exec TestLoop r =
     (if starter r = SLock \<or> starter r = SWoken
      then Some (r\<lparr>starter := if published r = None then SSleep else SReturned (published r)\<rparr>) else None)"
| "rt_exec Spurious r = (if starter r = SSleep then Some (r\<lparr>starter := SWoken\<rparr>) else None)"
| "rt_exec (Publish p) r =
     (if child r = CBuilt
      then Some (r\<lparr>published := Some p, child := CLoop, starter := if starter r = SSleep then SWoken else starter r\<rparr>)
      else None)"
| "rt_exec Leave r = (if child r = CLoop then Some (r\<lparr>child := CGone\<rparr>) else None)"

inductive rt_step :: "ReactorThread \<Rightarrow> ReactorThread \<Rightarrow> bool" where
  act: "rt_exec a r = Some r' \<Longrightarrow> rt_step r r'"

inductive_cases rt_stepE: "rt_step r r'"

definition rt_reachable :: "ReactorThread \<Rightarrow> bool" where
  "rt_reachable r \<longleftrightarrow> rt_step\<^sup>*\<^sup>* new_ReactorThread r"

text \<open>The destructor: it quits the reactor through \<^verbatim>\<open>published\<close> and joins.\<close>

definition delete_ReactorThread :: "ReactorThread \<Rightarrow> ReactorThread res" where
  "delete_ReactorThread r =
     (if published r \<noteq> None
      then if child r = CGone then Inl UseAfterFree else Inr (r\<lparr>published := None, child := CGone\<rparr>)
      else Inr (r\<lparr>published := None\<rparr>))"

definition rt_inv :: "ReactorThread \<Rightarrow> bool" where
  "rt_inv r \<longleftrightarrow> (published r = None \<longleftrightarrow> child r = CNone \<or> child r = CBuilt) \<and>
     (starter r = SInit \<longleftrightarrow> child r = CNone) \<and>
     (starter r = SSleep \<longrightarrow> child r = CBuilt) \<and>
     (\<forall>x. starter r = SReturned x \<longrightarrow> x \<noteq> None \<and> x = published r)"

lemma rt_exec_inv: "rt_exec a r = Some r' \<Longrightarrow> rt_inv r \<Longrightarrow> rt_inv r'"
  by (cases a) (auto simp: rt_inv_def dest: sym split: if_splits)

lemma rt_reachable_inv: "rt_reachable r \<Longrightarrow> rt_inv r"
  unfolding rt_reachable_def
proof (induction rule: rtranclp_induct)
  case base
  then show ?case by (simp add: rt_inv_def new_ReactorThread_def)
next
  case (step r r')
  then show ?case by (auto elim!: rt_stepE intro: rt_exec_inv)
qed

fun rt_all :: "rt_action list \<Rightarrow> ReactorThread \<Rightarrow> ReactorThread option" where
  "rt_all [] r = Some r"
| "rt_all (a # as) r = Option.bind (rt_exec a r) (rt_all as)"

lemma rt_all_reachable: "rt_all as new_ReactorThread = Some r \<Longrightarrow> rt_reachable r"
proof -
  have "rt_all as s = Some r \<Longrightarrow> rt_step\<^sup>*\<^sup>* s r" for s
    by (induction as arbitrary: s)
      (auto simp: bind_eq_Some_conv intro: converse_rtranclp_into_rtranclp rt_step.act)
  then show "rt_all as new_ReactorThread = Some r \<Longrightarrow> rt_reachable r" by (simp add: rt_reachable_def)
qed

text \<open>
  C39. The handshake of \<^verbatim>\<open>startLoop\<close> works: it only ever returns the address the new thread has
  published, and the starter is never left waiting once that address is there.
\<close>

theorem startLoop_handshake:
  assumes "rt_reachable r"
  shows "(\<forall>x. starter r = SReturned x \<longrightarrow> x \<noteq> None \<and> x = published r) \<and>
     (starter r = SSleep \<longrightarrow> published r = None \<and> child r = CBuilt)"
  using rt_reachable_inv [OF assms] by (auto simp: rt_inv_def)

theorem startLoop_handshake_witness:
  "\<exists>r. rt_all [StartThread, TestLoop, Publish 4096, TestLoop] new_ReactorThread = Some r \<and>
     starter r = SReturned (Some 4096) \<and> published r = Some 4096"
proof -
  have "\<exists>r. rt_all [StartThread, TestLoop, Publish 4096, TestLoop] new_ReactorThread = Some r \<and>
      starter r = SReturned (Some 4096)"
    by (simp add: new_ReactorThread_def)
  then obtain r where r: "rt_all [StartThread, TestLoop, Publish 4096, TestLoop] new_ReactorThread = Some r"
    "starter r = SReturned (Some 4096)" by blast
  with startLoop_handshake [OF rt_all_reachable [OF r(1)]] show ?thesis by auto
qed

text \<open>
  The pointer outlives the reactor: once the loop has been quit through it, the destructor of the
  \<^verbatim>\<open>ReactorThread\<close> uses the destroyed object.
\<close>

lemma delete_after_quit:
  "\<exists>r. rt_reachable r \<and> delete_ReactorThread r = Inl UseAfterFree"
proof -
  have "\<exists>r. rt_all [StartThread, Publish 4096, TestLoop, Leave] new_ReactorThread = Some r \<and>
      delete_ReactorThread r = Inl UseAfterFree"
    by (simp add: new_ReactorThread_def delete_ReactorThread_def)
  then show ?thesis using rt_all_reachable by blast
qed

section \<open>ReactorThreadPool\<close>

record ReactorThreadPool =
  baseLoop :: nat
  numThreads :: nat
  index :: nat
  loops :: "nat list"

definition new_ReactorThreadPool :: "nat \<Rightarrow> ReactorThreadPool" where
  "new_ReactorThreadPool base = \<lparr>baseLoop = base, numThreads = 0, index = 0, loops = []\<rparr>"

definition setThreadNum :: "nat \<Rightarrow> ReactorThreadPool \<Rightarrow> ReactorThreadPool" where
  "setThreadNum n p = p\<lparr>numThreads := n\<rparr>"

text \<open>\<open>addr i\<close> is the reactor that the \<open>i\<close>-th \<^verbatim>\<open>startLoop\<close> returns.\<close>

definition pool_start :: "(nat \<Rightarrow> nat) \<Rightarrow> ReactorThreadPool \<Rightarrow> ReactorThreadPool" where
  "pool_start addr p = p\<lparr>loops := loops p @ map addr [0 ..< numThreads p]\<rparr>"

definition nextLoop :: "ReactorThreadPool \<Rightarrow> (nat \<times> ReactorThreadPool) res" where
  "nextLoop p =
     (if loops p = [] then Inr (baseLoop p, p)
      else if index p < length (loops p)
      then let i = index p + 1 in
        Inr (loops p ! index p, p\<lparr>index := if length (loops p) \<le> i then 0 else i\<rparr>)
      else Inl OutOfBounds)"

fun nextLoops :: "nat \<Rightarrow> ReactorThreadPool \<Rightarrow> (nat list \<times> ReactorThreadPool) res" where
  "nextLoops 0 p = Inr ([], p)"
| "nextLoops (Suc n) p =
     res_bind (nextLoop p) (\<lambda>(l, p). res_bind (nextLoops n p) (\<lambda>(ls, p). Inr (l # ls, p)))"

definition pool_inv :: "ReactorThreadPool \<Rightarrow> bool" where
  "pool_inv p \<longleftrightarrow> (if loops p = [] then index p = 0 else index p < length (loops p))"

lemma pool_inv_new: "pool_inv (pool_start addr (setThreadNum n (new_ReactorThreadPool b)))"
  by (auto simp: pool_inv_def pool_start_def setThreadNum_def new_ReactorThreadPool_def)

lemma nextLoops_round_robin:
  "pool_inv p \<Longrightarrow> loops p \<noteq> [] \<Longrightarrow>
     nextLoops n p = Inr (map (\<lambda>k. loops p ! ((index p + k) mod length (loops p))) [0 ..< n],
                         p\<lparr>index := (index p + n) mod length (loops p)\<rparr>)"
proof (induction n arbitrary: p)
  case 0
  then show ?case by (simp add: pool_inv_def)
next
  case (Suc n)
  let ?len = "length (loops p)"
  let ?p = "p\<lparr>index := (index p + 1) mod ?len\<rparr>"
  have lt: "index p < ?len" and pos: "0 < ?len" using Suc.prems by (simp_all add: pool_inv_def)
  have one: "nextLoop p = Inr (loops p ! index p, ?p)"
  proof (cases "?len \<le> index p + 1")
    case True
    with lt have "?len = index p + 1" by simp
    with lt Suc.prems(2) show ?thesis by (simp add: nextLoop_def Let_def)
  next
    case False
    with lt Suc.prems(2) show ?thesis by (simp add: nextLoop_def Let_def)
  qed
  have "pool_inv ?p" "loops ?p \<noteq> []" using Suc.prems pos by (simp_all add: pool_inv_def)
  from Suc.IH [OF this] have IH: "nextLoops n ?p = Inr (map (\<lambda>k. loops p ! ((index p + Suc k) mod ?len)) [0 ..< n],
      p\<lparr>index := (index p + Suc n) mod ?len\<rparr>)"
    by (simp add: mod_add_left_eq)
  have "map (\<lambda>k. loops p ! ((index p + k) mod ?len)) [0 ..< Suc n] =
      loops p ! index p # map (\<lambda>k. loops p ! ((index p + Suc k) mod ?len)) [0 ..< n]"
    using lt by (simp add: upt_conv_Cons map_Suc_upt [symmetric] comp_def del: upt_Suc)
  with one IH show ?case by simp
qed

text \<open>
  \<^verbatim>\<open>nextLoop\<close> never indexes out of range and is fair: any run of as many calls as there are
  reactors visits each of them once, in order from the current position, and comes back to it; an
  empty pool gives the base reactor.
\<close>

theorem nextLoop_fair:
  assumes "pool_inv p"
  shows "if loops p = [] then nextLoop p = Inr (baseLoop p, p)
     else nextLoops (length (loops p)) p = Inr (rotate (index p) (loops p), p)"
proof (cases "loops p = []")
  case False
  have lt: "index p < length (loops p)" using assms False by (simp add: pool_inv_def)
  have "map (\<lambda>k. loops p ! ((index p + k) mod length (loops p))) [0 ..< length (loops p)] = rotate (index p) (loops p)"
    by (rule nth_equalityI) (simp_all add: nth_rotate)
  with False lt nextLoops_round_robin [OF assms False, of "length (loops p)"] show ?thesis by simp
qed (simp add: nextLoop_def)

theorem nextLoop_fair_witness:
  "if loops \<lparr>baseLoop = 9, numThreads = 3, index = 1, loops = [10, 20, 30]\<rparr> = []
   then nextLoop \<lparr>baseLoop = 9, numThreads = 3, index = 1, loops = [10, 20, 30]\<rparr>
     = Inr (baseLoop \<lparr>baseLoop = 9, numThreads = 3, index = 1, loops = [10, 20, 30]\<rparr>,
            \<lparr>baseLoop = 9, numThreads = 3, index = 1, loops = [10, 20, 30]\<rparr>)
   else nextLoops (length (loops \<lparr>baseLoop = 9, numThreads = 3, index = 1, loops = [10, 20, 30]\<rparr>))
       \<lparr>baseLoop = 9, numThreads = 3, index = 1, loops = [10, 20, 30]\<rparr>
     = Inr (rotate (index \<lparr>baseLoop = 9, numThreads = 3, index = 1, loops = [10, 20, 30]\<rparr>)
              (loops \<lparr>baseLoop = 9, numThreads = 3, index = 1, loops = [10, 20, 30]\<rparr>),
            \<lparr>baseLoop = 9, numThreads = 3, index = 1, loops = [10, 20, 30]\<rparr>)"
  by (rule nextLoop_fair) (simp add: pool_inv_def)

end
