(* ===== verification/ServerSide.thy ===== *)
theory ServerSide
  imports Connection TimeModel ReactorThreads
begin

text \<open>
  \<^verbatim>\<open>net/Acceptor.cpp\<close> and \<^verbatim>\<open>net/NetServer.cpp\<close>: the listening socket, and the server's table of
  connections by the name \<^verbatim>\<open>ip#port#index\<close>. Connection objects live behind pointers in \<open>heap\<close>.
\<close>

section \<open>Acceptor\<close>

datatype acc_out = Accepted int sockaddr_in | AClose int | APollUpdate uint32 | APollRemove | ASetOpt "sock_opt \<times> int"

record Acceptor =
  acceptConnFunc :: bool
  a_event :: "EventHandler option"
  listenfd :: int
  bound :: bool
  listening :: bool
  aout :: "acc_out list"

text \<open>The constructor reports a failed \<^verbatim>\<open>bind\<close> in the log only.\<close>

definition new_Acceptor :: "errno + int \<Rightarrow> errno option \<Rightarrow> Acceptor res" where
  "new_Acceptor s b =
     res_bind (createNonblockTcpSock s) (\<lambda>sockfd.
       Inr \<lparr>acceptConnFunc = False, a_event = Some ((new_EventHandler sockfd)\<lparr>readCallback := True\<rparr>), listenfd = sockfd,
            bound = (b = None), listening = False, aout = [ASetOpt (setReuseAddr True), ASetOpt (setReusePort True)]\<rparr>)"

definition delete_Acceptor :: "Acceptor \<Rightarrow> Acceptor" where
  "delete_Acceptor a =
     (case a_event a of
        None \<Rightarrow> a
      | Some _ \<Rightarrow> a\<lparr>a_event := None, aout := aout a @ [APollUpdate csEventNone, APollRemove]\<rparr>)"

text \<open>\<open>r\<close> is the answer of \<^verbatim>\<open>accept4\<close>: an error, or a descriptor and the peer's address.\<close>

definition acc_handleRead :: "errno + int \<times> sockaddr_in \<Rightarrow> Acceptor \<Rightarrow> Acceptor res" where
  "acc_handleRead r a =
     res_bind (sock_accept (map_sum id fst r)) (\<lambda>connfd.
       Inr (if 0 < connfd
            then case r of
                   Inr (_, peer) \<Rightarrow>
                     a\<lparr>aout := aout a @ [if acceptConnFunc a then Accepted connfd peer else AClose connfd]\<rparr>
                 | Inl _ \<Rightarrow> a
            else a))"

definition acc_listen :: "errno option \<Rightarrow> Acceptor \<Rightarrow> Acceptor res" where
  "acc_listen r a =
     (let ret = sock_listen r in
      case a_event a of
        None \<Rightarrow> Inl NullDeref
      | Some e \<Rightarrow>
          Inr (a\<lparr>a_event := Some (set_enableRead e), listening := (ret = 0),
                 aout := aout a @ [APollUpdate (events (set_enableRead e))]\<rparr>))"

text \<open>
  Each accepted socket is passed on once or closed; the errors a listening socket can meet leave the
  acceptor as it is, and the errors that mean a broken program assert.
\<close>

theorem accept_branches:
  "acc_handleRead r a =
     (case r of
        Inr (connfd, peer) \<Rightarrow>
          if 0 < connfd
          then Inr (a\<lparr>aout := aout a @ [if acceptConnFunc a then Accepted connfd peer else AClose connfd]\<rparr>)
          else Inr a
      | Inl e \<Rightarrow>
          if e \<in> {EBADF, EFAULT, EINVAL, ENFILE, ENOBUFS, ENOMEM, ENOTSOCK, EOPNOTSUPP} then Inl AssertFail else Inr a)"
  by (auto simp: acc_handleRead_def sock_accept_def split: sum.splits)

section \<open>NetServer\<close>

record NetServer =
  listenAddr :: sockaddr_in
  acceptor :: Acceptor
  threadPool :: ReactorThreadPool
  connIndex :: nat
  conns :: "string \<Rightarrow> nat option"
  heap :: "nat \<Rightarrow> NetConnection option"
  ident :: "nat \<Rightarrow> string"
  cb_conn :: bool
  cb_msg :: bool
  cb_compl :: bool

text \<open>A pointer in the map may be null: 0.\<close>

definition new_NetServer ::
    "(string \<Rightarrow> uint32 option) \<Rightarrow> string \<Rightarrow> ushort \<Rightarrow> errno + int \<Rightarrow> errno option \<Rightarrow> nat \<Rightarrow> NetServer res" where
  "new_NetServer inet_pton servIp servPort s b base =
     res_bind (makeSockAddr inet_pton servIp servPort) (\<lambda>addr.
     res_bind (new_Acceptor s b) (\<lambda>a.
       Inr \<lparr>listenAddr = addr, acceptor = a\<lparr>acceptConnFunc := True\<rparr>, threadPool = new_ReactorThreadPool base,
            connIndex = 0, conns = (\<lambda>_. None), heap = (\<lambda>_. None), ident = (\<lambda>_. []),
            cb_conn = False, cb_msg = False, cb_compl = False\<rparr>))"

definition server_setThreadNum :: "int \<Rightarrow> NetServer \<Rightarrow> NetServer res" where
  "server_setThreadNum n s =
     c_assert (0 < n) (Inr (s\<lparr>threadPool := ReactorThreads.setThreadNum (nat n) (threadPool s)\<rparr>))"

definition conn_key :: "string \<Rightarrow> ushort \<Rightarrow> nat \<Rightarrow> string" where
  "conn_key ipstr port i = take 63 (ipstr @ ''#'' @ digits (unat port) @ ''#'' @ digits i)"

text \<open>
  \<^verbatim>\<open>newConnAccept\<close>. \<open>p\<close> is the pointer that \<^verbatim>\<open>new\<close> returns; \<open>same\<close> says whether the chosen reactor is the
  one of the calling thread, in which case \<^verbatim>\<open>connEstablished\<close> runs at once; otherwise it is posted to the
  connection's reactor.
\<close>

definition newConnAccept ::
    "(nat \<Rightarrow> byte) \<Rightarrow> (uint32 \<Rightarrow> string) \<Rightarrow> errno + sockaddr_in \<Rightarrow> nat \<Rightarrow> bool \<Rightarrow> int \<Rightarrow> sockaddr_in \<Rightarrow> NetServer
     \<Rightarrow> (nat \<times> NetServer) res" where
  "newConnAccept junk inet_ntop local p same sockfd clientAddr s =
     res_bind (nextLoop (threadPool s)) (\<lambda>(ioReactor, pool).
     res_bind (toIp inet_ntop 32 clientAddr) (\<lambda>ipstr.
     let buf = conn_key ipstr (network2Host16 (sin_port clientAddr)) (connIndex s) in
     res_bind (get_addr local) (\<lambda>_.
     let c = set_callbacks (cb_conn s) (cb_msg s) (cb_compl s) True (new_NetConnection junk sockfd) in
     res_bind (if same then connEstablished c else Inr (c\<lparr>tasks := tasks c @ [EstablishTask]\<rparr>)) (\<lambda>c.
       Inr (ioReactor, s\<lparr>threadPool := pool, conns := (conns s)(buf \<mapsto> p), heap := (heap s)(p \<mapsto> c),
                         ident := (ident s)(p := buf)\<rparr>)))))"

text \<open>\<^verbatim>\<open>removeConn\<close>: the entry goes, the object stays.\<close>

definition removeConnInLoop :: "nat \<Rightarrow> NetServer \<Rightarrow> NetServer" where
  "removeConnInLoop p s = s\<lparr>conns := (conns s)(ident s p := None)\<rparr>"

text \<open>\<^verbatim>\<open>getconn\<close>; \<^verbatim>\<open>operator[]\<close> of \<^verbatim>\<open>std::map\<close> inserts a null pointer for a missing key.\<close>

definition getconn :: "string \<Rightarrow> NetServer \<Rightarrow> nat \<times> NetServer" where
  "getconn connid s =
     (if dom (conns s) = {} then (0, s)
      else case conns s connid of
             Some p \<Rightarrow> (p, s)
           | None \<Rightarrow> (0, s\<lparr>conns := (conns s)(connid \<mapsto> 0)\<rparr>))"

definition server_start :: "(nat \<Rightarrow> nat) \<Rightarrow> errno option \<Rightarrow> NetServer \<Rightarrow> NetServer res" where
  "server_start addr r s =
     res_bind (acc_listen r (acceptor s)) (\<lambda>a.
       Inr (s\<lparr>threadPool := ReactorThreads.pool_start addr (threadPool s), acceptor := a\<rparr>))"

text \<open>
  The destructor deletes the connections of the table, in the order of the map (\<open>keys\<close>). Each one is closed
  first, from the calling thread, which for a connection of another reactor posts a task that keeps the
  pointer; the result lists the pointers of deleted objects with such a task. A connection that is closed at
  once calls \<^verbatim>\<open>removeConn\<close>, which takes its entry out of the table behind the iterator.
\<close>

fun delete_conns :: "bool \<Rightarrow> string list \<Rightarrow> NetServer \<Rightarrow> (nat list \<times> NetServer) res" where
  "delete_conns il [] s = Inr ([], s)"
| "delete_conns il (k # ks) s =
     (case conns s k of
        None \<Rightarrow> delete_conns il ks s
      | Some p \<Rightarrow>
          if p = 0 then delete_conns il ks s
          else
            (case heap s p of
               None \<Rightarrow> Inl UseAfterFree
             | Some c \<Rightarrow>
                 res_bind (delete_NetConnection il c) (\<lambda>c'.
                 let s = (if CloseCb \<in> set (drop (length (out c)) (out c')) then removeConnInLoop p s else s) in
                 res_bind (delete_conns il ks (s\<lparr>heap := (heap s)(p := None)\<rparr>)) (\<lambda>(ps, s).
                   Inr (if tasks c' = [] then ps else p # ps, s)))))"

definition delete_NetServer :: "bool \<Rightarrow> string list \<Rightarrow> NetServer \<Rightarrow> (nat list \<times> NetServer) res" where
  "delete_NetServer il keys s = delete_conns il keys (s\<lparr>acceptor := delete_Acceptor (acceptor s)\<rparr>)"

text \<open>Deleting a server with an open connection on another reactor leaves a task for a deleted object.\<close>

lemma delete_open_connection:
  assumes "conns s k = Some p" and "p \<noteq> 0" and "heap s p = Some c" and "state c = eConnected"
  shows "\<exists>s'. delete_NetServer False [k] s = Inr ([p], s') \<and> heap s' p = None"
  using assms by (simp add: delete_NetServer_def forceClose_def Let_def)

section \<open>Connection names\<close>

text \<open>The digits of a number determine it.\<close>

fun value_of :: "nat \<Rightarrow> string \<Rightarrow> nat" where
  "value_of acc [] = acc"
| "value_of acc (c # cs) = value_of (10 * acc + (of_char c - 48)) cs"

lemma value_of_append: "value_of acc (cs @ ds) = value_of (value_of acc cs) ds"
  by (induction cs arbitrary: acc) simp_all

lemma of_char_digit: "d < 10 \<Longrightarrow> of_char (char_of (48 + d) :: char) = (48 + d :: nat)"
  by simp

lemma value_of_digits: "value_of 0 (digits n) = n"
proof (induction n rule: digits.induct)
  case (1 n)
  show ?case
  proof (cases "n < 10")
    case True
    then show ?thesis by (simp add: digits.simps [of n])
  next
    case False
    have "n mod 10 < 10" by simp
    then have "of_char (char_of (48 + n mod 10) :: char) = (48 + n mod 10 :: nat)" by (rule of_char_digit)
    with 1 False show ?thesis by (simp add: digits.simps [of n] value_of_append)
  qed
qed

lemma digits_inj: "digits m = digits n \<longleftrightarrow> m = n"
  by (metis value_of_digits)

lemma digit_codes: "c \<in> set (digits n) \<Longrightarrow> 48 \<le> (of_char c :: nat)"
proof (induction n rule: digits.induct)
  case (1 n)
  have code: "48 \<le> (of_char (char_of (48 + d) :: char) :: nat)" if "d < 10" for d :: nat
    using of_char_digit [OF that] by linarith
  show ?case
  proof (cases "n < 10")
    case True
    with 1(2) have "c = char_of (48 + n)" by (simp add: digits.simps [of n])
    with code [OF True] show ?thesis by simp
  next
    case False
    with 1(2) have "c \<in> set (digits (n div 10)) \<or> c = char_of (48 + n mod 10)"
      by (auto simp: digits.simps [of n])
    with 1(1) [OF False] code [of "n mod 10"] show ?thesis by auto
  qed
qed

lemma hash_not_digit: "CHR ''#'' \<notin> set (digits n)"
  using digit_codes [of "CHR ''#''" n] by auto

lemma split_hash:
  assumes "xs @ CHR ''#'' # ys = xs' @ CHR ''#'' # ys'" and "CHR ''#'' \<notin> set xs" and "CHR ''#'' \<notin> set xs'"
  shows "xs = xs' \<and> ys = ys'"
  using assms
proof (induction xs arbitrary: xs')
  case Nil
  then show ?case by (cases xs') auto
next
  case (Cons x xs)
  then show ?case by (cases xs') auto
qed



section \<open>The connection table\<close>

text \<open>The table leads from names to live connections of that name, or to null.\<close>

definition server_inv :: "NetServer \<Rightarrow> bool" where
  "server_inv s \<longleftrightarrow> ReactorThreads.pool_inv (threadPool s) \<and>
     (\<forall>k p. conns s k = Some p \<longrightarrow> p = 0 \<or> (heap s p \<noteq> None \<and> ident s p = k))"

lemma nextLoop_ok: "ReactorThreads.pool_inv p \<Longrightarrow> \<exists>l q. nextLoop p = Inr (l, q) \<and> ReactorThreads.pool_inv q"
  by (auto simp: nextLoop_def ReactorThreads.pool_inv_def Let_def)

text \<open>
  Accepting a client adds one entry, under its own name and with a live connection object behind it;
  removing a connection takes away exactly its entry but keeps the object allocated.
\<close>

theorem server_table:
  assumes "server_inv s" and "heap s p = None" and "p \<noteq> 0"
  shows "\<exists>l s'. newConnAccept junk ntop (Inr local) p same sockfd addr s = Inr (l, s') \<and> server_inv s' \<and>
     conns s' = (conns s)(conn_key (ntop (sin_addr addr)) (network2Host16 (sin_port addr)) (connIndex s) \<mapsto> p) \<and>
     (\<exists>c. heap s' p = Some c \<and> (if same then state c = eConnected else tasks c = [EstablishTask])) \<and>
     server_inv (removeConnInLoop p s') \<and> p \<notin> ran (conns (removeConnInLoop p s')) \<and>
     heap (removeConnInLoop p s') p \<noteq> None"
proof -
  let ?k = "conn_key (ntop (sin_addr addr)) (network2Host16 (sin_port addr)) (connIndex s)"
  obtain l q where q: "nextLoop (threadPool s) = Inr (l, q)" "ReactorThreads.pool_inv q"
    using assms(1) nextLoop_ok [of "threadPool s"] by (auto simp: server_inv_def)
  let ?c = "set_callbacks (cb_conn s) (cb_msg s) (cb_compl s) True (new_NetConnection junk sockfd)"
  let ?est = "if same then connEstablished ?c else Inr (?c\<lparr>tasks := tasks ?c @ [EstablishTask]\<rparr>)"
  have "\<exists>c. ?est = Inr c \<and> (if same then state c = eConnected else tasks c = [EstablishTask])"
    by (simp add: connEstablished_def set_callbacks_def new_NetConnection_def Let_def with_event_def)
  then obtain c where c: "?est = Inr c" "if same then state c = eConnected else tasks c = [EstablishTask]"
    by blast
  let ?s = "s\<lparr>threadPool := q, conns := (conns s)(?k \<mapsto> p), heap := (heap s)(p \<mapsto> c), ident := (ident s)(p := ?k)\<rparr>"
  have new: "newConnAccept junk ntop (Inr local) p same sockfd addr s = Inr (l, ?s)"
    unfolding newConnAccept_def q(1) toIp_def INET_ADDRSTRLEN_def get_addr_def Let_def
    by (simp add: c(1))
  have fresh: "conns s k \<noteq> Some p" for k
  proof
    assume "conns s k = Some p"
    with assms(1) have "p = 0 \<or> heap s p \<noteq> None" by (auto simp: server_inv_def)
    with assms(2,3) show False by simp
  qed
  have inv: "server_inv ?s"
    using assms fresh q(2) by (auto simp: server_inv_def)
  moreover have "server_inv (removeConnInLoop p ?s)"
    using inv by (auto simp: server_inv_def removeConnInLoop_def)
  moreover have "p \<notin> ran (conns (removeConnInLoop p ?s))"
    using fresh by (auto simp: removeConnInLoop_def ran_def)
  moreover have "heap (removeConnInLoop p ?s) p \<noteq> None" by (simp add: removeConnInLoop_def)
  ultimately show ?thesis
    using new c(2) by (intro exI [of _ l] exI [of _ ?s]) simp
qed

definition demo_server :: NetServer where
  "demo_server =
     \<lparr>listenAddr = \<lparr>sin_family = 2, sin_port = 1, sin_addr = 1\<rparr>,
      acceptor = \<lparr>acceptConnFunc = True, a_event = None, listenfd = 3, bound = True, listening = True, aout = []\<rparr>,
      threadPool = new_ReactorThreadPool 1, connIndex = 0, conns = (\<lambda>_. None), heap = (\<lambda>_. None), ident = (\<lambda>_. []),
      cb_conn = True, cb_msg = True, cb_compl = False\<rparr>"

theorem server_table_witness:
  "\<exists>l s'. newConnAccept (\<lambda>_. 0) (\<lambda>_. ''10.0.0.1'') (Inr \<lparr>sin_family = 2, sin_port = 1, sin_addr = 1\<rparr>) 5 True 9
       \<lparr>sin_family = 2, sin_port = 1, sin_addr = 1\<rparr> demo_server = Inr (l, s') \<and> server_inv s' \<and>
     heap (removeConnInLoop 5 s') 5 \<noteq> None"
proof -
  have "server_inv demo_server" "heap demo_server 5 = None"
    by (simp_all add: demo_server_def server_inv_def ReactorThreads.pool_inv_def new_ReactorThreadPool_def)
  from server_table [OF this, of "\<lambda>_. 0" "\<lambda>_. ''10.0.0.1''" "\<lparr>sin_family = 2, sin_port = 1, sin_addr = 1\<rparr>" True 9
      "\<lparr>sin_family = 2, sin_port = 1, sin_addr = 1\<rparr>"] show ?thesis by auto
qed

text \<open>
  Looking up an unknown name is not a read: as soon as the table is not empty, \<^verbatim>\<open>getconn\<close> inserts a
  null connection under that name.
\<close>

theorem getconn_inserts:
  assumes "conns s k0 = Some p" and "conns s k = None"
  shows "getconn k s = (0, s\<lparr>conns := (conns s)(k \<mapsto> 0)\<rparr>)"
  using assms by (auto simp: getconn_def)

theorem getconn_inserts_witness:
  "getconn ''nobody'' (demo_server\<lparr>conns := (\<lambda>_. None)(''10.0.0.1#256#0'' \<mapsto> 5)\<rparr>) =
     (0, (demo_server\<lparr>conns := (\<lambda>_. None)(''10.0.0.1#256#0'' \<mapsto> 5)\<rparr>)
        \<lparr>conns := (conns (demo_server\<lparr>conns := (\<lambda>_. None)(''10.0.0.1#256#0'' \<mapsto> 5)\<rparr>))(''nobody'' \<mapsto> 0)\<rparr>)"
  by (rule getconn_inserts [where p = 5 and ?k0.0 = "''10.0.0.1#256#0''"]) simp_all

end
