(* ===== verification/ServerEndpoint.thy ===== *)
theory ServerEndpoint
  imports ClientEndpoint ServerSide
begin

text \<open>
  \<^verbatim>\<open>websocket/WebSocketServer.h\<close> and \<^verbatim>\<open>websocket/WebSocketServer.cpp\<close>: the server end on top of \<^verbatim>\<open>NetServer\<close>
  and \<^verbatim>\<open>HeartbeatRecv\<close>, and the way of a message from a client to the server's application.
\<close>

section \<open>State and operations\<close>

text \<open>
  \<open>got\<close> records the calls of the application's callback, with the connection's name. The static pointer
  \<^verbatim>\<open>server_\<close> and the pointer \<^verbatim>\<open>heartbeat_\<close> may be null; the connection objects are in the server's heap.
\<close>

record WebSocketServer =
  server :: "NetServer option"
  hb_recv :: "HeartbeatRecv option"
  onConnMsgFunc :: bool
  got :: "(string \<times> byte list) list"

text \<open>\<open>s\<close>, \<open>b\<close> and \<open>l\<close> are the answers of \<^verbatim>\<open>socket\<close>, \<^verbatim>\<open>bind\<close> and \<^verbatim>\<open>listen\<close>.\<close>

definition new_WebSocketServer ::
    "(string \<Rightarrow> uint32 option) \<Rightarrow> string \<Rightarrow> ushort \<Rightarrow> errno + int \<Rightarrow> errno option \<Rightarrow> errno option \<Rightarrow> (nat \<Rightarrow> nat) \<Rightarrow> nat \<Rightarrow> Timestamp \<Rightarrow> int \<Rightarrow> WebSocketServer res" where
  "new_WebSocketServer inet_pton servIp servPort s b l addr base clk idx =
     res_bind (new_NetServer inet_pton servIp servPort s b base) (\<lambda>srv.
     res_bind (server_setThreadNum 1 srv) (\<lambda>srv.
     res_bind (server_start addr l (srv\<lparr>cb_conn := True, cb_msg := True\<rparr>)) (\<lambda>srv.
     res_bind (recv_start clk idx (new_HeartbeatRecv True)) (\<lambda>v.
       Inr \<lparr>server = Some srv, hb_recv = Some v, onConnMsgFunc = False, got = []\<rparr>))))"

definition setOnConnMsgFunc :: "bool \<Rightarrow> WebSocketServer \<Rightarrow> WebSocketServer" where
  "setOnConnMsgFunc f k = k\<lparr>onConnMsgFunc := f\<rparr>"

text \<open>
  A frame of a peer, or the news of a connection, for \<^verbatim>\<open>HeartbeatRecv\<close>; the call may answer a PING
  through the connection. The answer is false if there is no heartbeat object.
\<close>

definition update_heartbeat ::
    "WSHead \<Rightarrow> (nat \<Rightarrow> byte) \<Rightarrow> bool \<Rightarrow> (nat \<Rightarrow> errno + nat) \<Rightarrow> Timestamp \<Rightarrow> nat \<Rightarrow> byte list \<Rightarrow> nat \<Rightarrow> WebSocketServer
     \<Rightarrow> (bool \<times> WebSocketServer) res" where
  "update_heartbeat header0 junk il w clk p data len k =
     (case (hb_recv k, server k) of
        (Some v, Some srv) \<Rightarrow>
          res_bind (updateConn header0 junk il w clk p data len (v, ServerSide.heap srv)) (\<lambda>(ret, v, H).
            Inr (ret, k\<lparr>hb_recv := Some v, server := Some (srv\<lparr>ServerSide.heap := H\<rparr>)\<rparr>))
      | _ \<Rightarrow> Inr (False, k))"

definition onConnNew ::
    "WSHead \<Rightarrow> (nat \<Rightarrow> byte) \<Rightarrow> bool \<Rightarrow> (nat \<Rightarrow> errno + nat) \<Rightarrow> Timestamp \<Rightarrow> nat \<Rightarrow> WebSocketServer \<Rightarrow> WebSocketServer res" where
  "onConnNew header0 junk il w clk p k =
     res_bind (update_heartbeat header0 junk il w clk p [] 0 k) (\<lambda>(_, k). Inr k)"

definition conn_name :: "nat \<Rightarrow> WebSocketServer \<Rightarrow> string" where
  "conn_name p k = (case server k of None \<Rightarrow> [] | Some srv \<Rightarrow> ident srv p)"

definition srv_decFrameCallback ::
    "WSHead \<Rightarrow> (nat \<Rightarrow> byte) \<Rightarrow> bool \<Rightarrow> (nat \<Rightarrow> errno + nat) \<Rightarrow> Timestamp \<Rightarrow> nat \<Rightarrow> byte list \<Rightarrow> WebSocketServer
     \<Rightarrow> WebSocketServer res" where
  "srv_decFrameCallback header0 junk il w clk p data k =
     (if p = 0 then Inr k
      else res_bind (update_heartbeat header0 junk il w clk p data (length data) k) (\<lambda>(ret, k).
        Inr (if ret then k
             else if onConnMsgFunc k then k\<lparr>got := got k @ [(conn_name p k, data)]\<rparr>
             else k)))"

fun each_message :: "(byte list \<Rightarrow> 's \<Rightarrow> 's res) \<Rightarrow> byte list list \<Rightarrow> 's \<Rightarrow> 's res" where
  "each_message f [] k = Inr k"
| "each_message f (d # ds) k = res_bind (f d k) (each_message f ds)"

text \<open>\<^verbatim>\<open>onConnMessage\<close>: a decoder of its own for every read, on a fresh reassembly buffer.\<close>

definition srv_onConnMessage ::
    "WSHead \<Rightarrow> (nat \<Rightarrow> byte) \<Rightarrow> bool \<Rightarrow> (nat \<Rightarrow> errno + nat) \<Rightarrow> Timestamp \<Rightarrow> nat \<Rightarrow> Buffer \<Rightarrow> WebSocketServer
     \<Rightarrow> (WebSocketServer \<times> Buffer) res option" where
  "srv_onConnMessage header0 junk il w clk p buf k =
     (let len = readableBytes buf in
      case readAll buf of
        Inl e \<Rightarrow> Some (Inl e)
      | Inr (data, buf) \<Rightarrow>
          map_option (\<lambda>r. res_bind r (\<lambda>t.
            res_bind (each_message (srv_decFrameCallback header0 junk il w clk p) (d_out t) k) (\<lambda>k. Inr (k, buf))))
          (decodeFrame (new_WSProtocol junk) (data @ [0]) (int len)))"

text \<open>The static \<^verbatim>\<open>send\<close>: the name is looked up with \<^verbatim>\<open>getconn\<close>, which may insert it.\<close>

definition srv_encFrameCallback ::
    "(nat \<Rightarrow> byte) \<Rightarrow> bool \<Rightarrow> (nat \<Rightarrow> errno + nat) \<Rightarrow> nat \<Rightarrow> nat \<Rightarrow> byte list \<Rightarrow> NetServer \<Rightarrow> NetServer res" where
  "srv_encFrameCallback junk il w p i data srv =
     (if p = 0 then Inr srv
      else res_bind (call_conn p (send junk il (w i) data) (ServerSide.heap srv)) (\<lambda>H. Inr (srv\<lparr>ServerSide.heap := H\<rparr>)))"

definition srv_send ::
    "WSHead \<Rightarrow> (nat \<Rightarrow> byte) \<Rightarrow> bool \<Rightarrow> (nat \<Rightarrow> errno + nat) \<Rightarrow> string \<Rightarrow> byte list \<Rightarrow> int \<Rightarrow> WebSocketServer
     \<Rightarrow> (byte list \<times> WebSocketServer) res" where
  "srv_send header0 junk il w connid data len k =
     (case server k of
        None \<Rightarrow> Inl NullDeref
      | Some srv \<Rightarrow>
          let (p, srv) = getconn connid srv in
          if p = 0 then Inr (data, k\<lparr>server := Some srv\<rparr>)
          else res_bind (encodeFrame header0 data len eTextFrame) (\<lambda>(buf, frames).
               res_bind (each_frame (srv_encFrameCallback junk il w p) 0 frames srv) (\<lambda>srv.
                 Inr (buf, k\<lparr>server := Some srv\<rparr>))))"

text \<open>
  The destructor deletes the server and the heartbeat object, which cancels its timer. The result has what
  is left behind: deleted connections with a task, and timers.
\<close>

definition delete_WebSocketServer ::
    "bool \<Rightarrow> string list \<Rightarrow> WebSocketServer \<Rightarrow> (nat list \<times> unit Timer list \<times> WebSocketServer) res" where
  "delete_WebSocketServer il keys k =
     res_bind (case server k of
                 None \<Rightarrow> Inr []
               | Some srv \<Rightarrow> res_bind (delete_NetServer il keys srv) (\<lambda>(ps, _). Inr ps)) (\<lambda>ps.
     let left = (case hb_recv k of None \<Rightarrow> [] | Some v \<Rightarrow> delete_HeartbeatRecv il v) in
       Inr (ps, left, k\<lparr>server := None, hb_recv := None\<rparr>))"

section \<open>What the server's application receives\<close>

text \<open>A live connection in a server with a heartbeat object.\<close>

definition srv_ready :: "nat \<Rightarrow> WebSocketServer \<Rightarrow> bool" where
  "srv_ready p k \<longleftrightarrow> p \<noteq> 0 \<and> onConnMsgFunc k \<and>
     (\<exists>v srv. hb_recv k = Some v \<and> server k = Some srv \<and> recv_inv v (ServerSide.heap srv) \<and>
        (\<exists>c. ServerSide.heap srv p = Some c \<and> conn_inv c))"

text \<open>Messages other than PING reach the application, in order, under the name of the connection.\<close>

lemma srv_dec_plain:
  assumes "srv_ready p k" and "d \<noteq> PING"
  shows "\<exists>k'. srv_decFrameCallback header0 junk il w clk p d k = Inr k' \<and> srv_ready p k' \<and>
     conn_name p k' = conn_name p k \<and> got k' = got k @ [(conn_name p k, d)]"
proof -
  from assms(1) obtain v srv c where k: "hb_recv k = Some v" "server k = Some srv" "recv_inv v (ServerSide.heap srv)"
    "ServerSide.heap srv p = Some c" "conn_inv c" "p \<noteq> 0" "onConnMsgFunc k"
    by (auto simp: srv_ready_def)
  have inv: "recv_inv (v\<lparr>connList := touch p (of_int (seconds_of clk)) (connList v)\<rparr>) (ServerSide.heap srv)"
    using recv_inv_touch [OF k(3,6,4,5)] .
  have "processPing header0 junk il w p d (length d) H = Inr (False, H)" for H
    using assms(2) by (simp add: processPing_def load_def)
  then show ?thesis
    using k inv by (simp add: srv_decFrameCallback_def update_heartbeat_def updateConn_def srv_ready_def conn_name_def)
qed

lemma srv_dec_all:
  assumes "srv_ready p k" and "PING \<notin> set ds"
  shows "\<exists>k'. each_message (srv_decFrameCallback header0 junk il w clk p) ds k = Inr k' \<and> srv_ready p k' \<and>
     conn_name p k' = conn_name p k \<and> got k' = got k @ map (\<lambda>d. (conn_name p k, d)) ds"
  using assms
proof (induction ds arbitrary: k)
  case Nil
  then show ?case by simp
next
  case (Cons d ds)
  then obtain k1 where k1: "srv_decFrameCallback header0 junk il w clk p d k = Inr k1" "srv_ready p k1"
    "conn_name p k1 = conn_name p k" "got k1 = got k @ [(conn_name p k, d)]"
    using srv_dec_plain [OF Cons.prems(1), of d header0 junk il w clk] by auto
  from Cons.IH [OF k1(2)] Cons.prems(2) k1 show ?case by auto
qed

lemma srv_read_result:
  assumes "srv_ready p k" and "buf_inv b" and "PING \<notin> set ds"
    and "decodeFrame (new_WSProtocol junk) (content b @ [0]) (int (length (content b))) = Some (Inr t)" and "d_out t = ds"
  shows "\<exists>k' b'. srv_onConnMessage header0 junk il w clk p b k = Some (Inr (k', b')) \<and> srv_ready p k' \<and>
     conn_name p k' = conn_name p k \<and> got k' = got k @ map (\<lambda>d. (conn_name p k, d)) ds"
proof -
  from readAll_content [OF assms(2)] obtain b' where "readAll b = Inr (content b, b')" by blast
  moreover have "readableBytes b = length (content b)" using length_content [OF assms(2)] by simp
  ultimately show ?thesis
    using srv_dec_all [OF assms(1,3), of header0 junk il w clk] assms(4,5) by (auto simp: srv_onConnMessage_def)
qed

section \<open>A message that arrives in two reads\<close>

definition continuation :: "frame list \<Rightarrow> bool" where
  "continuation fs \<longleftrightarrow> (\<forall>f \<in> set fs. f_op f = 0 \<and> \<not> f_fin f)"

lemma reassemble_continuation:
  "continuation ms \<Longrightarrow> reassemble acc ms = (acc @ concat (map f_data ms), [])"
  by (induction ms arbitrary: acc) (simp_all add: continuation_def reassemble_Cons)

lemma fits_continuation:
  "continuation ms \<Longrightarrow> length acc + length (concat (map f_data ms)) \<le> MAX_FRAMESIZE \<Longrightarrow> fits acc ms"
proof (induction ms arbitrary: acc)
  case Nil
  then show ?case by simp
next
  case (Cons f ms)
  then show ?case by (simp add: continuation_def add.assoc)
qed

lemma reassemble_tail:
  assumes "continuation ms" and "f_op l = 0" and "f_fin l"
    and "length acc + length (concat (map f_data (ms @ [l]))) \<le> MAX_FRAMESIZE"
  shows "snd (reassemble acc (ms @ [l])) = [acc @ concat (map f_data (ms @ [l]))]" and "fits acc (ms @ [l])"
  using assms fits_continuation [OF assms(1), of acc]
  by (simp_all add: reassemble_append reassemble_Cons reassemble_continuation fits_append)

text \<open>A sliced message is a first fragment, continuations and a final continuation.\<close>

lemma sliced_shape:
  assumes op: "op = 1 \<or> op = 2" and n: "deliverable (length m)" and long: "SLICE_SIZE \<le> length m"
  obtains ms l where "message_frames op m = data_frame False True op (take SLICE_SIZE m) # ms @ [l]"
    and "continuation ms" and "f_op l = 0" and "f_fin l"
    and "delivered m = take SLICE_SIZE m @ concat (map f_data (ms @ [l]))"
proof -
  obtain k where frames: "message_frames op m = middle_slices op m (Suc k) @ [last_slice m (length m mod SLICE_SIZE) (Suc k)]"
    using sliced_frames [OF op n long] by metis
  define ms where "ms = map (\<lambda>i. data_frame False True (if i = 0 then op else 0)
      (take SLICE_SIZE (drop (i * SLICE_SIZE) m))) [1 ..< Suc k]"
  define l where "l = last_slice m (length m mod SLICE_SIZE) (Suc k)"
  have shape: "message_frames op m = data_frame False True op (take SLICE_SIZE m) # ms @ [l]"
    unfolding frames middle_slices_def ms_def l_def by (simp add: upt_conv_Cons del: upt_Suc)
  have cont: "continuation ms" by (auto simp: continuation_def ms_def)
  have l: "f_op l = 0" "f_fin l" by (simp_all add: l_def)
  have "snd (reassemble [] (message_frames op m)) = [delivered m]"
    using message_frames_spec [OF op n, of "[]"] by simp
  then have "delivered m = take SLICE_SIZE m @ concat (map f_data (ms @ [l]))"
    using op cont l by (auto simp: shape reassemble_Cons reassemble_append reassemble_continuation)
  with shape cont l show thesis by (rule that)
qed

lemma length_delivered: "deliverable (length m) \<Longrightarrow> length (delivered m) = length m"
  by (auto simp: delivered_def Let_def deliverable_def slice_consts)

text \<open>The two parts of the encoding, decoded by one object or by a fresh object each.\<close>

lemma split_decoding:
  fixes header0 :: WSHead
  assumes "ws_good (type, m)" and "SLICE_SIZE \<le> length m" and "proto_inv p" and "framePos q = 0"
  defines "first \<equiv> take (8 + SLICE_SIZE) (ws_enc header0 (type, m))"
    and "second \<equiv> drop (8 + SLICE_SIZE) (ws_enc header0 (type, m))"
  shows "\<exists>t u v. decodeFrame p (first @ [0]) (int (length first)) = Some (Inr t) \<and> d_out t = [] \<and>
     decodeFrame (d_proto t) (second @ [0]) (int (length second)) = Some (Inr u) \<and> d_out u = [delivered m] \<and>
     decodeFrame q (second @ [0]) (int (length second)) = Some (Inr v) \<and> d_out v = [drop SLICE_SIZE (delivered m)]"
proof -
  let ?op = "opcode_val type"
  have op: "?op = 1 \<or> ?op = 2" and n: "deliverable (length m)"
    using assms(1) data_opcode [of type] by (auto simp: ws_good_def)
  obtain ms l where shape: "message_frames ?op m = data_frame False True ?op (take SLICE_SIZE m) # ms @ [l]"
    and tail: "continuation ms" "f_op l = 0" "f_fin l"
    and del: "delivered m = take SLICE_SIZE m @ concat (map f_data (ms @ [l]))"
    using sliced_shape [OF op n assms(2)] .
  let ?f = "data_frame False True ?op (take SLICE_SIZE m)"
  note spec = message_frames_spec [OF op n, of "[]"]
  have len: "length (take SLICE_SIZE m) = SLICE_SIZE" using assms(2) by simp
  have bytes: "ws_enc header0 (type, m) = wire ?f @ concat (map wire (ms @ [l]))"
    using ws_enc_frames [OF assms(1), of header0] shape by simp
  have fst_len: "length (wire ?f) = 8 + SLICE_SIZE" using len by (simp add: length_wire)
  then have first: "first = concat (map wire [?f])" and second: "second = concat (map wire (ms @ [l]))"
    unfolding first_def second_def bytes by (simp_all del: map_append concat_append)
  have wf: "wf_frame ?f" "\<forall>f \<in> set (ms @ [l]). wf_frame f" using spec shape by auto
  have small: "length (concat (map wire (ms @ [l]))) < MAX_FRAMESIZE" using spec shape by simp
  have "length m \<le> MAX_FRAMESIZE" using n by (simp add: deliverable_def MAX_FRAMESIZE_def)
  then have total: "length (take SLICE_SIZE m) + length (concat (map f_data (ms @ [l]))) \<le> MAX_FRAMESIZE"
    using arg_cong [OF del, of length] length_delivered [OF n] by (simp del: map_append concat_append length_take)
  have one: "reassemble (frameBuff_read p) [?f] = (take SLICE_SIZE m, [])" "fits (frameBuff_read p) [?f]"
    using op len by (auto simp: reassemble_Cons MAX_FRAMESIZE_def slice_consts)
  have "length (concat (map wire [?f])) < MAX_FRAMESIZE" using fst_len by (simp add: MAX_FRAMESIZE_def slice_consts)
  from decodeFrame_wires [OF _ _ one(2) this, of "[0]"] wf(1) one(1) obtain t where
    t: "decodeFrame p (first @ [0]) (int (length first)) = Some (Inr t)" "frameBuff_read (d_proto t) = take SLICE_SIZE m"
    "d_out t = []" unfolding first by auto
  have r: "snd (reassemble acc (ms @ [l])) = [acc @ concat (map f_data (ms @ [l]))]" "fits acc (ms @ [l])"
    if "length acc \<le> SLICE_SIZE" for acc
    using reassemble_tail [OF tail, of acc] total that unfolding len by linarith+
  have dec: "\<exists>u. decodeFrame x (second @ [0]) (int (length second)) = Some (Inr u) \<and>
      d_out u = [frameBuff_read x @ concat (map f_data (ms @ [l]))]"
    if "length (frameBuff_read x) \<le> SLICE_SIZE" for x
    using decodeFrame_wires [OF _ wf(2) r(2) [OF that] small, of "[0]"] r(1) [OF that] unfolding second by auto
  have "length (frameBuff_read (d_proto t)) \<le> SLICE_SIZE" "length (frameBuff_read q) \<le> SLICE_SIZE"
    using t(2) assms(4) len by simp_all
  from dec [OF this(1)] dec [OF this(2)] t del show ?thesis
    using assms(4) len by (auto simp: frameBuff_read_def)
qed


definition demo_server_end :: WebSocketServer where
  "demo_server_end =
     \<lparr>server = Some (demo_server\<lparr>conns := [''10.0.0.1#256#0'' \<mapsto> 4], ServerSide.heap := [4 \<mapsto> demo_conn, 8 \<mapsto> demo_conn],
        ident := (\<lambda>_. ''10.0.0.1#256#0'')\<rparr>), hb_recv = Some demo_recv, onConnMsgFunc = True, got = []\<rparr>"

lemma demo_server_ready [simp]: "srv_ready 4 demo_server_end"
  using demo_recv_inv by (simp add: srv_ready_def demo_server_end_def demo_heap_def)

lemma demo_net_facts [simp]:
  "client demo_net = Some demo_client" "proto_inv (proto demo_net)" "msgRecvCallback demo_net" "received demo_net = []"
  by (simp_all add: demo_net_def)


section \<open>From the client to the server's application\<close>

text \<open>
  End to end: a message that an application sends over an idle open connection is written by the loop
  thread, and when its bytes arrive at the server in one read, the server's application is called once
  with the message and the name of the connection it came from.
\<close>

theorem message_end_to_end:
  assumes "client wn = Some n" and "conn n = Some c" and "conn_inv c" and "state c = eConnected"
    and "content (writeBuffer c) = []" and "tasks c = []" and "True \<in> set polls"
    and "type = eTextFrame \<or> type = eBlobFrame" and "0 < k" and "k \<le> 4000000" and "k < 500 \<or> 126 \<le> k mod 500"
    and "k \<le> length payload" and "srv_ready p s" and "take k payload \<noteq> PING"
  shows "\<exists>wn' n' c' buf frames d sent s' b'.
     net_send header0 junk False w polls True payload (int k) type wn = Some (Inr (buf, wn')) \<and>
     client wn' = Some n' \<and> conn n' = Some c' \<and> concat frames = sent \<and>
     run_tasks junk (map (\<lambda>f. Inr (length f)) frames) c' = Inr d \<and> wire_bytes (out d) = wire_bytes (out c) @ sent \<and>
     srv_onConnMessage header1 junk il w' clk p (buffer_with sent) s = Some (Inr (s', b')) \<and>
     got s' = got s @ [(conn_name p s, take k payload)]"
proof -
  let ?m = "take k payload" and ?bytes = "ws_enc header0 (type, take k payload)"
  define fs where "fs = map wire (message_frames (opcode_val type) ?m)"
  let ?c = "\<lambda>ts. c\<lparr>tasks := ts\<rparr>"
  have len: "length ?m = k" using assms(12) by simp
  have good: "ws_good (type, ?m)"
    using assms(8-12) by (auto simp: ws_good_def deliverable_def slice_consts)
  have whole: "delivered ?m = ?m" using assms(11) len by (auto simp: delivered_def Let_def slice_consts)
  have enc: "encodeFrame header0 payload (int k) type = Inr (xmask ?m @ drop k payload, fs)"
    unfolding fs_def by (rule encodeFrame_data [OF assms(8,9,12)])
  have bytes: "?bytes = concat fs" using ws_enc_frames [OF good, of header0] by (simp add: fs_def)
  obtain j where "wait_connected polls = Some j" using wait_connected_Some [OF assms(7)] by blast
  then have sent: "net_send header0 junk False w polls True payload (int k) type wn =
      Some (Inr (xmask ?m @ drop k payload, wn\<lparr>client := Some (n\<lparr>conn := Some (?c (map SendTask fs))\<rparr>)\<rparr>))"
    using each_frame_posts [OF assms(1,2,4), of junk w 0 fs] assms(6) by (simp add: net_send_def enc)
  have "conn_inv (?c (map SendTask fs))" using assms(3) by (simp add: conn_inv_def)
  then obtain d where d: "run_tasks junk (map (\<lambda>f. Inr (length f)) fs) (?c (map SendTask fs)) = Inr d"
    "wire_bytes (out d) = wire_bytes (out c) @ ?bytes"
    using run_tasks_write [of "?c (map SendTask fs)" fs junk] assms(4,5) bytes by auto
  have "length ?bytes < MAX_FRAMESIZE"
    using message_frames_spec [of "opcode_val type" ?m "[]"] data_opcode [OF assms(8)] good bytes
    by (auto simp: ws_good_def fs_def)
  with codec.dec_batch [of "new_WSProtocol junk" "[(type, ?m)]" header0] good obtain q where
    "ws_dec (new_WSProtocol junk) ?bytes = Some (q, [?m])" using whole by auto
  then obtain t where "decodeFrame (new_WSProtocol junk) (?bytes @ [0]) (int (length ?bytes)) = Some (Inr t)" "d_out t = [?m]"
    by (auto simp: ws_dec_def split: option.splits sum.splits)
  with srv_read_result [OF assms(13), of "buffer_with ?bytes" "[?m]" junk t header1 il w' clk] assms(14) obtain s' b' where
    "srv_onConnMessage header1 junk il w' clk p (buffer_with ?bytes) s = Some (Inr (s', b'))"
    "got s' = got s @ [(conn_name p s, ?m)]" by auto
  moreover have "client (wn\<lparr>client := Some (n\<lparr>conn := Some (?c (map SendTask fs))\<rparr>)\<rparr>) = Some (n\<lparr>conn := Some (?c (map SendTask fs))\<rparr>)"
    "conn (n\<lparr>conn := Some (?c (map SendTask fs))\<rparr>) = Some (?c (map SendTask fs))" by simp_all
  ultimately show ?thesis
    using sent d bytes [symmetric] by blast
qed

theorem message_end_to_end_witness:
  "\<exists>wn' n' c' buf frames d sent s' b'.
     net_send \<lparr>FIN = 0, RSV = 5, Opcode = 9, maskBit = 0, PayloadLen = 77\<rparr> (\<lambda>_. 0) False (\<lambda>_. Inr 0) [False, True] True
       [104, 105, 0] (int 2) eTextFrame demo_net = Some (Inr (buf, wn')) \<and>
     client wn' = Some n' \<and> conn n' = Some c' \<and> concat frames = sent \<and>
     run_tasks (\<lambda>_. 0) (map (\<lambda>f. Inr (length f)) frames) c' = Inr d \<and> wire_bytes (out d) = wire_bytes (out demo_conn) @ sent \<and>
     srv_onConnMessage \<lparr>FIN = 0, RSV = 5, Opcode = 9, maskBit = 0, PayloadLen = 77\<rparr> (\<lambda>_. 0) True (\<lambda>_. Inr 10)
       (Timestamp 106000000) 4 (buffer_with sent) demo_server_end = Some (Inr (s', b')) \<and>
     got s' = got demo_server_end @ [(conn_name 4 demo_server_end, take 2 [104, 105, 0])]"
  by (rule message_end_to_end [of demo_net demo_client demo_conn]) (simp_all add: PING_def)

end
