(* ===== verification/Programs.thy ===== *)
theory Programs
  imports ServerEndpoint
begin

text \<open>
  The programs of the repository on top of the library: the codec test of \<^verbatim>\<open>unitest.cpp\<close>, the echo callback
  of \<^verbatim>\<open>ws_server.cpp\<close> and the messages of \<^verbatim>\<open>ws_client.cpp\<close>.
\<close>

section \<open>The codec test\<close>

text \<open>
  Every frame of the encoder goes to the decoder of one object, with its own length; what the decoder
  passes on is printed. \<open>None\<close> means that a call does not return.
\<close>

fun decode_frames :: "byte list list \<Rightarrow> WSProtocol \<Rightarrow> (byte list list \<times> WSProtocol) res option" where
  "decode_frames [] p = Some (Inr ([], p))"
| "decode_frames (f # fs) p =
     (case decodeFrame p f (int (length f)) of
        None \<Rightarrow> None
      | Some (Inl e) \<Rightarrow> Some (Inl e)
      | Some (Inr t) \<Rightarrow>
          map_option (\<lambda>r. res_bind r (\<lambda>(ds, p). Inr (d_out t @ ds, p))) (decode_frames fs (d_proto t)))"

definition test_message :: "WSHead \<Rightarrow> nat \<Rightarrow> byte \<Rightarrow> WSProtocol \<Rightarrow> (byte list list \<times> WSProtocol) res option" where
  "test_message header0 n b p =
     (case encodeFrame header0 (replicate n b) (int n) eTextFrame of
        Inl e \<Rightarrow> Some (Inl e)
      | Inr (_, frames) \<Rightarrow> decode_frames frames p)"

definition test_protocol :: "WSHead \<Rightarrow> WSProtocol \<Rightarrow> byte list list res option" where
  "test_protocol header0 decProto =
     Option.bind (test_message header0 100 2 decProto) (\<lambda>r.
     case r of Inl e \<Rightarrow> Some (Inl e) | Inr (out1, p) \<Rightarrow>
     Option.bind (test_message header0 460 3 p) (\<lambda>r.
     case r of Inl e \<Rightarrow> Some (Inl e) | Inr (out2, p) \<Rightarrow>
     Option.bind (test_message header0 2048 4 p) (\<lambda>r.
     case r of Inl e \<Rightarrow> Some (Inl e) | Inr (out3, p) \<Rightarrow> Some (Inr (out1 @ out2 @ out3)))))"

text \<open>Decoding the frames of a message one by one comes to the same as decoding them at once.\<close>

lemma decode_frames_wires:
  assumes "\<forall>f \<in> set fs. wf_frame f" and "fits (frameBuff_read p) fs" and "length (concat (map wire fs)) < MAX_FRAMESIZE"
  shows "\<exists>q. decode_frames (map wire fs) p = Some (Inr (snd (reassemble (frameBuff_read p) fs), q)) \<and>
     frameBuff_read q = fst (reassemble (frameBuff_read p) fs)"
  using assms
proof (induction fs arbitrary: p)
  case Nil
  then show ?case by simp
next
  case (Cons f fs)
  have "fits (frameBuff_read p) [f]" "length (concat (map wire [f])) < MAX_FRAMESIZE"
    using Cons.prems(2,3) by simp_all
  from decodeFrame_wires [OF _ _ this, of "[]"] Cons.prems(1) obtain t where
    t: "decodeFrame p (wire f) (int (length (wire f))) = Some (Inr t)"
    "frameBuff_read (d_proto t) = fst (reassemble (frameBuff_read p) [f])"
    "d_out t = snd (reassemble (frameBuff_read p) [f])"
    by auto
  have "\<exists>q. decode_frames (map wire fs) (d_proto t) = Some (Inr (snd (reassemble (frameBuff_read (d_proto t)) fs), q)) \<and>
     frameBuff_read q = fst (reassemble (frameBuff_read (d_proto t)) fs)"
    using Cons.prems t(2) by (intro Cons.IH) (simp_all add: reassemble_Cons del: absorb.simps)
  then show ?case
    using t by (auto simp: reassemble_Cons [of _ f fs] reassemble_Cons [of _ f "[]"] simp del: absorb.simps)
qed

lemma test_message_delivers:
  assumes "deliverable n" and "proto_inv p"
  shows "\<exists>q. test_message header0 n b p = Some (Inr ([delivered (replicate n b)], q)) \<and> proto_inv q"
proof -
  let ?fs = "message_frames 1 (replicate n b)"
  have pos: "0 < n" using assms(1) by (simp add: deliverable_def)
  have enc: "encodeFrame header0 (replicate n b) (int n) eTextFrame
      = Inr (xmask (replicate n b), map wire ?fs)"
    using encodeFrame_data [of eTextFrame n "replicate n b" header0] pos by simp
  have len: "length (frameBuff_read p) \<le> MAX_FRAMESIZE" using assms(2) by (simp add: proto_inv_def)
  have "(1 :: 4 word) = 1 \<or> (1 :: 4 word) = 2" by simp
  from message_frames_spec [OF this _ len, of "replicate n b"] assms(1)
  have spec: "\<forall>f \<in> set ?fs. wf_frame f" "length (concat (map wire ?fs)) < MAX_FRAMESIZE" "fits (frameBuff_read p) ?fs"
    "snd (reassemble (frameBuff_read p) ?fs) = [delivered (replicate n b)]" by simp_all
  from decode_frames_wires [OF spec(1,3,2)] obtain q where
    q: "decode_frames (map wire ?fs) p = Some (Inr ([delivered (replicate n b)], q))"
    "frameBuff_read q = fst (reassemble (frameBuff_read p) ?fs)" unfolding spec(4) by blast
  have "length (frameBuff_read q) \<le> MAX_FRAMESIZE" unfolding q(2) by (rule fits_bound [OF spec(3) len])
  with q(1) show ?thesis unfolding test_message_def enc by (simp add: proto_inv_def)
qed

text \<open>The bytes that the encoder puts in the place of a short tail are those of the tail, if all bytes are equal.\<close>

lemma delivered_replicate: "delivered (replicate n b) = replicate n b"
proof (cases "n < SLICE_SIZE \<or> 126 \<le> n mod SLICE_SIZE")
  case True
  then show ?thesis by (auto simp: delivered_def Let_def)
next
  case False
  then have "n mod SLICE_SIZE \<le> SLICE_SIZE" "SLICE_SIZE \<le> n" by (simp_all add: slice_consts)
  then have "take (n mod SLICE_SIZE) (drop (n - n mod SLICE_SIZE - SLICE_SIZE) (replicate n b)) = replicate (n mod SLICE_SIZE) b"
    by (simp add: min_def)
  moreover have "take (n - n mod SLICE_SIZE) (replicate n b) = replicate (n - n mod SLICE_SIZE) b" by simp
  ultimately show ?thesis
    using False by (simp add: delivered_def Let_def flip: replicate_add)
qed

text \<open>
  The codec test prints the three messages unchanged. The third has a last slice of 48 bytes, which the
  encoder takes from the wrong place; as all its bytes are equal, the test cannot notice.
\<close>

theorem test_protocol_output:
  assumes "proto_inv decProto"
  shows "test_protocol header0 decProto = Some (Inr [replicate 100 2, replicate 460 3, replicate 2048 4])"
proof -
  have d: "deliverable 100" "deliverable 460" "deliverable 2048" by (simp_all add: deliverable_def slice_consts)
  obtain p1 where p1: "test_message header0 100 2 decProto = Some (Inr ([replicate 100 2], p1))" "proto_inv p1"
    using test_message_delivers [OF d(1) assms, of header0 2] unfolding delivered_replicate by blast
  obtain p2 where p2: "test_message header0 460 3 p1 = Some (Inr ([replicate 460 3], p2))" "proto_inv p2"
    using test_message_delivers [OF d(2) p1(2), of header0 3] unfolding delivered_replicate by blast
  obtain p3 where p3: "test_message header0 2048 4 p2 = Some (Inr ([replicate 2048 4], p3))" "proto_inv p3"
    using test_message_delivers [OF d(3) p2(2), of header0 4] unfolding delivered_replicate by blast
  show ?thesis
    unfolding test_protocol_def p1(1) bind.simps sum.case prod.case p2(1) p3(1) by (simp only: append.simps)
qed

theorem test_protocol_output_witness:
  "test_protocol \<lparr>FIN = 0, RSV = 5, Opcode = 9, maskBit = 0, PayloadLen = 77\<rparr> (new_WSProtocol (\<lambda>_. 1)) =
     Some (Inr [replicate 100 2, replicate 460 3, replicate 2048 4])"
  by (rule test_protocol_output) simp

section \<open>The server's and the client's messages\<close>

text \<open>
  \<^verbatim>\<open>main\<close> of \<^verbatim>\<open>ws_server.cpp\<close> up to the loop, and of \<^verbatim>\<open>ws_client.cpp\<close> up to its messages. What the loop threads do from
  then on are the runs of \<open>ServerRuns\<close> and \<open>ClientRuns\<close>.
\<close>

definition server_main ::
    "(string \<Rightarrow> uint32 option) \<Rightarrow> errno + int \<Rightarrow> errno option \<Rightarrow> errno option \<Rightarrow> (nat \<Rightarrow> nat) \<Rightarrow> nat \<Rightarrow> Timestamp \<Rightarrow> int
     \<Rightarrow> WebSocketServer res" where
  "server_main inet_pton s b l addr base clk idx =
     res_bind (new_WebSocketServer inet_pton ''127.0.0.1'' 1234 s b l addr base clk idx) (\<lambda>k. Inr (setOnConnMsgFunc True k))"

definition client_main ::
    "(string \<Rightarrow> uint32 option) \<Rightarrow> (nat \<Rightarrow> byte) \<Rightarrow> bool \<Rightarrow> errno + int \<Rightarrow> errno option \<Rightarrow> WebSocket res option" where
  "client_main inet_pton junk junk_net s r =
     map_option (\<lambda>k. res_bind k (\<lambda>k. Inr (setStateFuncCall False True False True k)))
       (new_WebSocket inet_pton junk junk_net s r ''ws://127.0.0.1:1234'')"

text \<open>The client looks for the server where it listens.\<close>

lemma client_main_address: "parse_url ''ws://127.0.0.1:1234'' = Some (Inr (Some (''127.0.0.1'', 1234)))"
proof -
  have "atoi ''1234'' = 1234" by (simp add: atoi_def is_space_def is_digit_def)
  then show ?thesis using parse_url_good [of "''ws:''" "''127.0.0.1''" "''1234''"] by simp
qed

text \<open>The callback of \<^verbatim>\<open>ws_server.cpp\<close> answers every message with 2048 bytes.\<close>

definition servMsgRecv ::
    "WSHead \<Rightarrow> (nat \<Rightarrow> byte) \<Rightarrow> bool \<Rightarrow> (nat \<Rightarrow> errno + nat) \<Rightarrow> string \<Rightarrow> byte list \<Rightarrow> WebSocketServer \<Rightarrow> WebSocketServer res" where
  "servMsgRecv header0 junk il w connid msg k =
     res_bind (srv_send header0 junk il w connid (replicate 2048 100) 2048 k) (\<lambda>(_, k). Inr k)"

text \<open>The body of the client's loop: three messages from three buffers.\<close>

definition client_messages ::
    "WSHead \<Rightarrow> (nat \<Rightarrow> byte) \<Rightarrow> (nat \<Rightarrow> errno + nat) \<Rightarrow> bool list \<Rightarrow> WebSocket \<Rightarrow> WebSocket res option" where
  "client_messages header0 junk w polls k =
     Option.bind (sendBlob header0 junk w polls True (replicate 99 97 @ [0]) 100 k) (\<lambda>r.
     case r of Inl e \<Rightarrow> Some (Inl e) | Inr (_, _, k) \<Rightarrow>
     Option.bind (sendBlob header0 junk w polls True (replicate 459 98 @ [0]) 460 k) (\<lambda>r.
     case r of Inl e \<Rightarrow> Some (Inl e) | Inr (_, _, k) \<Rightarrow>
     Option.bind (sendBlob header0 junk w polls True (replicate 2048 99) 2048 k) (\<lambda>r.
     case r of Inl e \<Rightarrow> Some (Inl e) | Inr (_, _, k) \<Rightarrow> Some (Inr k))))"

end
