(* ===== verification/Processes.thy ===== *)
theory Processes
  imports Prelude
begin

text \<open>
  \<^verbatim>\<open>base/BCFProcessCreater.cpp\<close>, which starts a function in a detached process, and the two singleton
  templates of \<^verbatim>\<open>base/Singleton.h\<close>. The answers of \<^verbatim>\<open>fork\<close>, \<^verbatim>\<open>waitpid\<close> and \<^verbatim>\<open>stat\<close> are arguments.
\<close>

section \<open>Starting a process\<close>

text \<open>\<open>stats\<close> are the answers of \<^verbatim>\<open>stat\<close>; the result is the number of one-second sleeps, \<open>None\<close> if the file stays.\<close>

fun debug_wait :: "int list \<Rightarrow> nat option" where
  "debug_wait [] = None"
| "debug_wait (ret # rets) = (if 0 \<le> ret then map_option Suc (debug_wait rets) else Some 0)"

text \<open>
  What the three processes do: the caller returns a number or aborts; the first child exits or aborts; the
  second child, if there is one, waits for the debug file and runs the function under its own number.
\<close>

datatype first_child = NoChild | ChildExits | ChildAborts

record spawn_result =
  returned :: "int res"
  child :: first_child
  runs_in :: "int option"

definition spawn :: "int \<Rightarrow> int \<Rightarrow> int \<Rightarrow> int list \<Rightarrow> spawn_result" where
  "spawn fork1 fork2 waited stats =
     (if fork1 = - 1 then \<lparr>returned = Inr (- 1), child = NoChild, runs_in = None\<rparr>
      else
        \<lparr>returned = c_assert (waited = fork1) (Inr fork1),
         child = (if fork2 < 0 then ChildAborts else ChildExits),
         runs_in = (if fork2 < 0 then None else map_option (\<lambda>_. fork2) (debug_wait stats))\<rparr>)"

text \<open>
  \<^verbatim>\<open>spawn\<close> promises the number of the process that runs the function, but returns that of the first
  child, which has already exited and been waited for; and it returns the same success if the second
  \<^verbatim>\<open>fork\<close> fails and nothing runs.
\<close>

theorem spawn_returns_first_child:
  assumes "0 < pid" and "0 < pid'" and "pid \<noteq> pid'" and "debug_wait stats = Some n"
  shows "returned (spawn pid pid' pid stats) = Inr pid \<and> child (spawn pid pid' pid stats) = ChildExits \<and>
     runs_in (spawn pid pid' pid stats) = Some pid' \<and> runs_in (spawn pid pid' pid stats) \<noteq> Some pid \<and>
     returned (spawn pid (- 1) pid stats) = Inr pid \<and> runs_in (spawn pid (- 1) pid stats) = None"
  using assms by (simp add: spawn_def)

theorem spawn_returns_first_child_witness:
  "returned (spawn 70 71 70 [0, 0, - 1]) = Inr 70 \<and> child (spawn 70 71 70 [0, 0, - 1]) = ChildExits \<and>
     runs_in (spawn 70 71 70 [0, 0, - 1]) = Some 71 \<and> runs_in (spawn 70 71 70 [0, 0, - 1]) \<noteq> Some 70 \<and>
     returned (spawn 70 (- 1) 70 [0, 0, - 1]) = Inr 70 \<and> runs_in (spawn 70 (- 1) 70 [0, 0, - 1]) = None"
  by (rule spawn_returns_first_child [where n = 2]) simp_all

section \<open>Singletons\<close>

text \<open>
  The static pointer of an object made on demand, and the objects that exist. \<open>p\<close> is what \<^verbatim>\<open>new\<close> returns.
  \<^verbatim>\<open>BCFProcessCreater\<close> has \<^verbatim>\<open>getInstance\<close> and \<^verbatim>\<open>destroy\<close>, \<^verbatim>\<open>CSingleton\<close> its own \<^verbatim>\<open>getInstance\<close>, which asserts that \<^verbatim>\<open>new\<close>
  has returned an object, and \<^verbatim>\<open>releaseInstance\<close>, which looks at the pointer first.
\<close>

record singleton =
  instance_ptr :: "nat option"
  live :: "nat set"

definition getInstance :: "nat \<Rightarrow> singleton \<Rightarrow> nat \<times> singleton" where
  "getInstance p s =
     (case instance_ptr s of
        None \<Rightarrow> (p, s\<lparr>instance_ptr := Some p, live := insert p (live s)\<rparr>)
      | Some q \<Rightarrow> (q, s))"

definition destroy :: "singleton \<Rightarrow> singleton" where
  "destroy s =
     (case instance_ptr s of
        None \<Rightarrow> s\<lparr>instance_ptr := None\<rparr>
      | Some q \<Rightarrow> s\<lparr>live := live s - {q}, instance_ptr := None\<rparr>)"

definition singleton_getInstance :: "nat \<Rightarrow> singleton \<Rightarrow> (nat \<times> singleton) res" where
  "singleton_getInstance p s =
     (case instance_ptr s of
        None \<Rightarrow> c_assert (p \<noteq> 0) (Inr (p, s\<lparr>instance_ptr := Some p, live := insert p (live s)\<rparr>))
      | Some q \<Rightarrow> Inr (q, s))"

definition releaseInstance :: "singleton \<Rightarrow> singleton" where
  "releaseInstance s =
     (case instance_ptr s of None \<Rightarrow> s | Some q \<Rightarrow> s\<lparr>live := live s - {q}, instance_ptr := None\<rparr>)"

text \<open>At most one object exists, and the pointer leads to it.\<close>

definition singleton_inv :: "singleton \<Rightarrow> bool" where
  "singleton_inv s \<longleftrightarrow> live s = set_option (instance_ptr s)"

lemma singleton_keeps:
  assumes "singleton_inv s"
  shows "singleton_inv (snd (getInstance p s))" and "singleton_inv (destroy s)" and "singleton_inv (releaseInstance s)"
    and "singleton_getInstance p s = Inr (q, t) \<Longrightarrow> singleton_inv t"
  using assms
  by (auto simp: singleton_inv_def getInstance_def destroy_def releaseInstance_def singleton_getInstance_def c_assert_def
      split: option.splits if_splits)

text \<open>A reference that was handed out before the object was released leads to no object afterwards.\<close>

lemma stale_reference:
  assumes "singleton_inv s" and "getInstance p s = (q, t)" and "p' \<noteq> q"
  shows "q \<in> live t \<and> q \<notin> live (snd (getInstance p' (destroy t)))"
  using assms by (auto simp: singleton_inv_def getInstance_def destroy_def split: option.splits)

text \<open>\<^verbatim>\<open>CManualSingleton\<close>: the object registers itself when it is built and deregisters when it is destroyed.\<close>

datatype manual_action = Construct nat | Destruct nat

fun manual :: "manual_action \<Rightarrow> nat option \<Rightarrow> nat option res" where
  "manual (Construct p) inst = c_assert (inst = None) (Inr (Some p))"
| "manual (Destruct p) inst = c_assert (inst = Some p) (Inr None)"

definition isInitialized :: "nat option \<Rightarrow> bool" where
  "isInitialized inst \<longleftrightarrow> inst \<noteq> None"

lemma getInstance_stable: "getInstance p s = (q, t) \<Longrightarrow> getInstance p' t = (q, t)"
  by (auto simp: getInstance_def split: option.splits)

lemma manual_second_asserts: "isInitialized inst \<Longrightarrow> manual (Construct p) inst = Inl AssertFail"
  by (auto simp: isInitialized_def c_assert_def)

end
