(* ===== verification/PollSet.thy ===== *)
theory PollSet
  imports Events
begin

text \<open>
  \<^verbatim>\<open>base/Poller.h\<close>, \<^verbatim>\<open>base/SelectPoller.cpp\<close> and \<^verbatim>\<open>base/DefaultImplement.cpp\<close>: the \<^verbatim>\<open>pollfd\<close> array, the
  map from descriptors to handler pointers, and the contract a reactor relies on: the poll set is a
  finite map from descriptors to interests.
\<close>

section \<open>The code\<close>

record pollfd =
  pfd_fd :: int
  pfd_events :: ushort
  pfd_revents :: ushort

record SelectPoller =
  pollFds :: "pollfd list"
  evHandlers :: "int \<Rightarrow> nat option"

type_synonym heap = "nat \<Rightarrow> EventHandler option"

definition new_SelectPoller :: SelectPoller where
  "new_SelectPoller = \<lparr>pollFds = [], evHandlers = (\<lambda>_. None)\<rparr>"

text \<open>\<^verbatim>\<open>Poller::createPoller\<close>; \<open>None\<close> is the null pointer that it returns under \<^verbatim>\<open>USE_EPOLL\<close>.\<close>

definition createPoller :: "bool \<Rightarrow> SelectPoller option" where
  "createPoller use_epoll = (if use_epoll then None else Some new_SelectPoller)"

text \<open>The first entry of the descriptor is updated, resp. erased.\<close>

fun set_pollfd :: "int \<Rightarrow> ushort \<Rightarrow> pollfd list \<Rightarrow> pollfd list" where
  "set_pollfd f ev [] = []"
| "set_pollfd f ev (e # es) =
     (if pfd_fd e = f then e\<lparr>pfd_events := ev, pfd_revents := 0\<rparr> # es else e # set_pollfd f ev es)"

fun erase_pollfd :: "int \<Rightarrow> pollfd list \<Rightarrow> pollfd list" where
  "erase_pollfd f [] = []"
| "erase_pollfd f (e # es) = (if pfd_fd e = f then es else e # erase_pollfd f es)"

definition registerEvHandler :: "heap \<Rightarrow> nat option \<Rightarrow> SelectPoller \<Rightarrow> SelectPoller res" where
  "registerEvHandler hp event p =
     (case event of
        None \<Rightarrow> Inl AssertFail
      | Some ptr \<Rightarrow>
          (case hp ptr of
             None \<Rightarrow> Inl UseAfterFree
           | Some h \<Rightarrow>
               if evHandlers p (fd h) = None
               then Inr (p\<lparr>pollFds := pollFds p @ [\<lparr>pfd_fd = fd h, pfd_events = ucast (events h), pfd_revents = 0\<rparr>],
                           evHandlers := (evHandlers p)(fd h \<mapsto> ptr)\<rparr>)
               else Inr (p\<lparr>pollFds := set_pollfd (fd h) (ucast (events h)) (pollFds p)\<rparr>)))"

definition removeEvHandler :: "heap \<Rightarrow> nat \<Rightarrow> SelectPoller \<Rightarrow> SelectPoller res" where
  "removeEvHandler hp ptr p =
     (case hp ptr of
        None \<Rightarrow> Inl UseAfterFree
      | Some h \<Rightarrow>
          Inr (if evHandlers p (fd h) = None then p
               else p\<lparr>evHandlers := (evHandlers p)(fd h := None), pollFds := erase_pollfd (fd h) (pollFds p)\<rparr>))"

text \<open>
  \<^verbatim>\<open>findActiveEvHandlers\<close>: \<^verbatim>\<open>revents\<close> is a \<^verbatim>\<open>short\<close>, so the test \<^verbatim>\<open>revents > 0\<close> is signed.
\<close>

fun findActiveEvHandlers :: "(int \<Rightarrow> nat option) \<Rightarrow> pollfd list \<Rightarrow> int \<Rightarrow> heap \<Rightarrow> (heap \<times> nat list) res" where
  "findActiveEvHandlers m [] evNum hp = Inr (hp, [])"
| "findActiveEvHandlers m (e # es) evNum hp =
     (if evNum \<le> 0 then Inr (hp, [])
      else if 0 < sint (pfd_revents e) then
        (case m (pfd_fd e) of
           None \<Rightarrow> Inl AssertFail
         | Some ptr \<Rightarrow>
             (case hp ptr of
                None \<Rightarrow> Inl UseAfterFree
              | Some ev \<Rightarrow>
                  c_assert (fd ev = pfd_fd e)
                    (res_bind (findActiveEvHandlers m es (evNum - 1) (hp(ptr \<mapsto> ev\<lparr>revents := scast (pfd_revents e)\<rparr>)))
                       (\<lambda>(hp, act). Inr (hp, ptr # act)))))
      else findActiveEvHandlers m es evNum hp)"

text \<open>
  \<^verbatim>\<open>SelectPoller::poll\<close>. The kernel's answer is an error number or the \<^verbatim>\<open>revents\<close> it filled in;
  \<open>poll(2)\<close> returns the number of entries whose \<^verbatim>\<open>revents\<close> is not zero.
\<close>

definition poll :: "int + ushort list \<Rightarrow> SelectPoller \<Rightarrow> heap \<Rightarrow> (SelectPoller \<times> heap \<times> nat list) res" where
  "poll r p hp =
     (case r of
        Inl errno \<Rightarrow> Inr (p, hp, [])
      | Inr revs \<Rightarrow>
          let fds = map2 (\<lambda>e v. e\<lparr>pfd_revents := v\<rparr>) (pollFds p) revs;
              evNum = int (length (filter (\<lambda>v. v \<noteq> 0) revs));
              p = p\<lparr>pollFds := fds\<rparr>
          in if 0 < evNum
             then res_bind (findActiveEvHandlers (evHandlers p) fds evNum hp) (\<lambda>(hp, act). Inr (p, hp, act))
             else Inr (p, hp, []))"

section \<open>Invariant\<close>

text \<open>
  One array entry per registered descriptor, and every registered pointer leads to a live handler
  of that descriptor.
\<close>

definition poller_inv :: "SelectPoller \<Rightarrow> bool" where
  "poller_inv p \<longleftrightarrow> distinct (map pfd_fd (pollFds p)) \<and> dom (evHandlers p) = pfd_fd ` set (pollFds p)"

definition heap_ok :: "heap \<Rightarrow> SelectPoller \<Rightarrow> bool" where
  "heap_ok hp p \<longleftrightarrow> (\<forall>f ptr. evHandlers p f = Some ptr \<longrightarrow> (\<exists>h. hp ptr = Some h \<and> fd h = f))"

text \<open>The interest in a descriptor, and what the poll set is for the reactor: a map to interests.\<close>

definition watch :: "SelectPoller \<Rightarrow> int \<Rightarrow> ushort option" where
  "watch p = map_of (map (\<lambda>e. (pfd_fd e, pfd_events e)) (pollFds p))"

lemma poller_inv_new [simp]: "poller_inv new_SelectPoller" "watch new_SelectPoller = Map.empty"
  by (simp_all add: poller_inv_def new_SelectPoller_def watch_def)

lemma set_pollfd_fds [simp]: "map pfd_fd (set_pollfd f ev es) = map pfd_fd es"
  by (induction es) simp_all

lemma set_pollfd_watch:
  "f \<in> pfd_fd ` set es \<Longrightarrow>
     map_of (map (\<lambda>e. (pfd_fd e, pfd_events e)) (set_pollfd f ev es)) =
     (map_of (map (\<lambda>e. (pfd_fd e, pfd_events e)) es))(f \<mapsto> ev)"
  by (induction es) (auto simp: fun_eq_iff)

lemma erase_pollfd_set:
  "distinct (map pfd_fd es) \<Longrightarrow> set (erase_pollfd f es) = {e \<in> set es. pfd_fd e \<noteq> f}"
  by (induction es) (auto simp: image_iff)

lemma erase_pollfd_distinct: "distinct (map pfd_fd es) \<Longrightarrow> distinct (map pfd_fd (erase_pollfd f es))"
  by (induction es) (auto simp: erase_pollfd_set)

lemma erase_pollfd_watch:
  "distinct (map pfd_fd es) \<Longrightarrow>
     map_of (map (\<lambda>e. (pfd_fd e, pfd_events e)) (erase_pollfd f es)) =
     (map_of (map (\<lambda>e. (pfd_fd e, pfd_events e)) es))(f := None)"
  by (induction es) (auto simp: fun_eq_iff map_of_eq_None_iff image_iff)

lemma watch_dom: "poller_inv p \<Longrightarrow> dom (watch p) = dom (evHandlers p)"
  by (simp add: poller_inv_def watch_def dom_map_of_conv_image_fst image_image)

lemma map_of_append_fresh:
  "f \<notin> fst ` set xs \<Longrightarrow> map_of (xs @ [(f, v)]) = (map_of xs)(f \<mapsto> v)"
  by (induction xs) (auto simp: fun_eq_iff)

lemma register_watch:
  assumes inv: "poller_inv p" and h: "hp ptr = Some h"
  shows "\<exists>p'. registerEvHandler hp (Some ptr) p = Inr p' \<and> poller_inv p' \<and>
     watch p' = (watch p)(fd h \<mapsto> ucast (events h)) \<and>
     evHandlers p' = (if evHandlers p (fd h) = None then (evHandlers p)(fd h \<mapsto> ptr) else evHandlers p)"
proof (cases "evHandlers p (fd h)")
  case None
  then have "fd h \<notin> pfd_fd ` set (pollFds p)"
    using inv by (auto simp: poller_inv_def)
  then have "watch (p\<lparr>pollFds := pollFds p @ [\<lparr>pfd_fd = fd h, pfd_events = ucast (events h), pfd_revents = 0\<rparr>],
      evHandlers := (evHandlers p)(fd h \<mapsto> ptr)\<rparr>) = (watch p)(fd h \<mapsto> ucast (events h))"
    using map_of_append_fresh [of "fd h" "map (\<lambda>e. (pfd_fd e, pfd_events e)) (pollFds p)"]
    by (simp add: watch_def image_image)
  with None inv h \<open>fd h \<notin> _\<close> show ?thesis
    by (auto simp: registerEvHandler_def poller_inv_def)
next
  case (Some q)
  then have "fd h \<in> pfd_fd ` set (pollFds p)"
    using inv by (auto simp: poller_inv_def)
  moreover have "pfd_fd ` set (set_pollfd f ev es) = pfd_fd ` set es" for f ev es
    by (metis list.set_map set_pollfd_fds)
  ultimately show ?thesis
    using Some inv h by (auto simp: registerEvHandler_def poller_inv_def watch_def set_pollfd_watch)
qed

lemma remove_watch:
  assumes inv: "poller_inv p" and h: "hp ptr = Some h"
  shows "\<exists>p'. removeEvHandler hp ptr p = Inr p' \<and> poller_inv p' \<and> watch p' = (watch p)(fd h := None) \<and>
     evHandlers p' = (evHandlers p)(fd h := None)"
proof (cases "evHandlers p (fd h)")
  case None
  then have "watch p (fd h) = None" using watch_dom [OF inv] by (metis domIff)
  with None inv h show ?thesis by (auto simp: removeEvHandler_def fun_upd_idem)
next
  case (Some q)
  with inv h show ?thesis
    by (auto simp: removeEvHandler_def poller_inv_def watch_def erase_pollfd_watch erase_pollfd_distinct
        erase_pollfd_set)
qed

section \<open>The contract of a poll set\<close>

datatype poll_op = Register nat | Remove nat

text \<open>
  \<open>key\<close> and \<open>mask\<close> are the descriptor and the interest of a handler; registering stores the
  interest, removing forgets it. The client's lemma: after any history, the interest in a descriptor
  is the one of the last operation on it.
\<close>

locale poll_set =
  fixes reg :: "nat \<Rightarrow> 'p \<Rightarrow> 'p res"
    and unreg :: "nat \<Rightarrow> 'p \<Rightarrow> 'p res"
    and interest :: "'p \<Rightarrow> int \<Rightarrow> 'ev option"
    and pinv :: "'p \<Rightarrow> bool"
    and live :: "nat \<Rightarrow> bool"
    and key :: "nat \<Rightarrow> int"
    and mask :: "nat \<Rightarrow> 'ev"
  assumes reg_law: "pinv p \<Longrightarrow> live x \<Longrightarrow> \<exists>p'. reg x p = Inr p' \<and> pinv p' \<and> interest p' = (interest p)(key x \<mapsto> mask x)"
    and unreg_law: "pinv p \<Longrightarrow> live x \<Longrightarrow> \<exists>p'. unreg x p = Inr p' \<and> pinv p' \<and> interest p' = (interest p)(key x := None)"
begin

fun op_ptr :: "poll_op \<Rightarrow> nat" where
  "op_ptr (Register x) = x"
| "op_ptr (Remove x) = x"

fun perform :: "poll_op list \<Rightarrow> 'p \<Rightarrow> 'p res" where
  "perform [] p = Inr p"
| "perform (Register x # ops) p = res_bind (reg x p) (perform ops)"
| "perform (Remove x # ops) p = res_bind (unreg x p) (perform ops)"

fun last_interest :: "poll_op list \<Rightarrow> (int \<Rightarrow> 'ev option) \<Rightarrow> int \<Rightarrow> 'ev option" where
  "last_interest [] m = m"
| "last_interest (Register x # ops) m = last_interest ops (m(key x \<mapsto> mask x))"
| "last_interest (Remove x # ops) m = last_interest ops (m(key x := None))"

lemma perform_interest:
  assumes "pinv p" and "\<forall>op \<in> set ops. live (op_ptr op)"
  shows "\<exists>p'. perform ops p = Inr p' \<and> pinv p' \<and> interest p' = last_interest ops (interest p)"
  using assms
proof (induction ops arbitrary: p)
  case Nil
  then show ?case by simp
next
  case (Cons op ops)
  show ?case
  proof (cases op)
    case (Register x)
    then obtain p' where p': "reg x p = Inr p'" "pinv p'" "interest p' = (interest p)(key x \<mapsto> mask x)"
      using reg_law [of p x] Cons.prems by auto
    have "\<exists>r. perform ops p' = Inr r \<and> pinv r \<and> interest r = last_interest ops (interest p')"
      using Cons.IH [OF p'(2)] Cons.prems by simp
    then show ?thesis unfolding p'(3) using p'(1) Register by simp
  next
    case (Remove x)
    then obtain p' where p': "unreg x p = Inr p'" "pinv p'" "interest p' = (interest p)(key x := None)"
      using unreg_law [of p x] Cons.prems by auto
    have "\<exists>r. perform ops p' = Inr r \<and> pinv r \<and> interest r = last_interest ops (interest p')"
      using Cons.IH [OF p'(2)] Cons.prems by simp
    then show ?thesis unfolding p'(3) using p'(1) Remove by simp
  qed
qed

end

text \<open>The model's \<^verbatim>\<open>SelectPoller\<close> over a fixed heap of handlers.\<close>

interpretation sp: poll_set "\<lambda>x. registerEvHandler hp (Some x)" "removeEvHandler hp" watch poller_inv
    "\<lambda>x. hp x \<noteq> None" "\<lambda>x. fd (the (hp x))" "\<lambda>x. ucast (events (the (hp x)))" for hp
proof unfold_locales
  fix hp :: heap and p x
  assume "poller_inv p" and "hp x \<noteq> None"
  then show "\<exists>p'. registerEvHandler hp (Some x) p = Inr p' \<and> poller_inv p' \<and>
      watch p' = (watch p)(fd (the (hp x)) \<mapsto> ucast (events (the (hp x))))"
    using register_watch [of p hp x] by auto
next
  fix hp :: heap and p x
  assume "poller_inv p" and "hp x \<noteq> None"
  then show "\<exists>p'. removeEvHandler hp x p = Inr p' \<and> poller_inv p' \<and> watch p' = (watch p)(fd (the (hp x)) := None)"
    using remove_watch [of p hp x] by auto
qed

section \<open>Polling\<close>

lemma findActive_correct:
  assumes "distinct (map pfd_fd es)" and "\<forall>e \<in> set es. \<exists>ptr h. m (pfd_fd e) = Some ptr \<and> hp ptr = Some h \<and> fd h = pfd_fd e"
    and "\<forall>e \<in> set es. 0 \<le> sint (pfd_revents e)"
    and "int (length (filter (\<lambda>e. pfd_revents e \<noteq> 0) es)) \<le> n"
  shows "\<exists>hp'. findActiveEvHandlers m es n hp =
      Inr (hp', map (\<lambda>e. the (m (pfd_fd e))) (filter (\<lambda>e. pfd_revents e \<noteq> 0) es)) \<and>
     (\<forall>e \<in> set es. pfd_revents e \<noteq> 0 \<longrightarrow>
        (\<exists>h. hp (the (m (pfd_fd e))) = Some h \<and> hp' (the (m (pfd_fd e))) = Some (h\<lparr>revents := scast (pfd_revents e)\<rparr>))) \<and>
     (\<forall>ptr. ptr \<notin> (\<lambda>e. the (m (pfd_fd e))) ` {e \<in> set es. pfd_revents e \<noteq> 0} \<longrightarrow> hp' ptr = hp ptr)"
  using assms
proof (induction es arbitrary: n hp)
  case Nil
  then show ?case by simp
next
  case (Cons e es)
  obtain ptr h where ptr: "m (pfd_fd e) = Some ptr" "hp ptr = Some h" "fd h = pfd_fd e"
    using Cons.prems(2) by auto
  have other: "the (m (pfd_fd x)) \<noteq> ptr" if "x \<in> set es" for x
    using Cons.prems(1,2) that ptr by fastforce
  have tail: "distinct (map pfd_fd es)" "\<forall>e \<in> set es. 0 \<le> sint (pfd_revents e)"
    using Cons.prems by simp_all
  show ?case
  proof (cases "pfd_revents e = 0")
    case True
    have n: "int (length (filter (\<lambda>e. pfd_revents e \<noteq> 0) es)) \<le> n" using Cons.prems(4) True by simp
    have ok: "\<forall>e \<in> set es. \<exists>ptr h. m (pfd_fd e) = Some ptr \<and> hp ptr = Some h \<and> fd h = pfd_fd e"
      using Cons.prems(2) by simp
    have same: "{x \<in> set (e # es). pfd_revents x \<noteq> 0} = {x \<in> set es. pfd_revents x \<noteq> 0}"
      using True by auto
    show ?thesis
    proof (cases "n \<le> 0")
      case True
      with n have "length (filter (\<lambda>e. pfd_revents e \<noteq> 0) es) = 0" by linarith
      then have "filter (\<lambda>e. pfd_revents e \<noteq> 0) es = []" by (simp only: length_0_conv)
      with True \<open>pfd_revents e = 0\<close> show ?thesis by (auto simp: filter_empty_conv)
    next
      case False
      then have "findActiveEvHandlers m (e # es) n hp = findActiveEvHandlers m es n hp"
        using \<open>pfd_revents e = 0\<close> by simp
      with Cons.IH [OF tail(1) ok tail(2) n] \<open>pfd_revents e = 0\<close> show ?thesis
        unfolding same by (simp only: filter.simps if_False if_True set_simps ball_simps simp_thms)
    qed
  next
    case False
    have pos: "0 < sint (pfd_revents e)"
      using Cons.prems(3) False by (simp add: order_le_less) (metis signed_eq_0_iff)
    have n: "0 < n" "int (length (filter (\<lambda>e. pfd_revents e \<noteq> 0) es)) \<le> n - 1"
      using Cons.prems(4) False by simp_all
    let ?hp = "hp(ptr \<mapsto> h\<lparr>revents := scast (pfd_revents e)\<rparr>)"
    have ok: "\<forall>e \<in> set es. \<exists>ptr h. m (pfd_fd e) = Some ptr \<and> ?hp ptr = Some h \<and> fd h = pfd_fd e"
    proof
      fix x assume x: "x \<in> set es"
      with Cons.prems(2) obtain q g where "m (pfd_fd x) = Some q" "hp q = Some g" "fd g = pfd_fd x" by auto
      with other [OF x] show "\<exists>ptr' h'. m (pfd_fd x) = Some ptr' \<and> ?hp ptr' = Some h' \<and> fd h' = pfd_fd x" by auto
    qed
    from Cons.IH [OF tail(1) ok tail(2) n(2)] obtain hp' where hp': "findActiveEvHandlers m es (n - 1) ?hp =
        Inr (hp', map (\<lambda>e. the (m (pfd_fd e))) (filter (\<lambda>e. pfd_revents e \<noteq> 0) es))"
      "\<forall>e \<in> set es. pfd_revents e \<noteq> 0 \<longrightarrow>
        (\<exists>h. ?hp (the (m (pfd_fd e))) = Some h \<and> hp' (the (m (pfd_fd e))) = Some (h\<lparr>revents := scast (pfd_revents e)\<rparr>))"
      "\<forall>ptr. ptr \<notin> (\<lambda>e. the (m (pfd_fd e))) ` {e \<in> set es. pfd_revents e \<noteq> 0} \<longrightarrow> hp' ptr = ?hp ptr"
      by blast
    have "ptr \<notin> (\<lambda>e. the (m (pfd_fd e))) ` {e \<in> set es. pfd_revents e \<noteq> 0}" using other by auto
    with hp'(3) have here: "hp' ptr = Some (h\<lparr>revents := scast (pfd_revents e)\<rparr>)" by simp
    have run: "findActiveEvHandlers m (e # es) n hp =
        Inr (hp', map (\<lambda>e. the (m (pfd_fd e))) (filter (\<lambda>e. pfd_revents e \<noteq> 0) (e # es)))"
      using n(1) pos False ptr hp'(1) by simp
    have stored: "\<exists>h. hp (the (m (pfd_fd x))) = Some h \<and>
        hp' (the (m (pfd_fd x))) = Some (h\<lparr>revents := scast (pfd_revents x)\<rparr>)"
      if "x \<in> set (e # es)" "pfd_revents x \<noteq> 0" for x
    proof (cases "x = e")
      case True
      with ptr here show ?thesis by simp
    next
      case False
      with that have x: "x \<in> set es" by simp
      with hp'(2) that(2) other [OF x] show ?thesis by auto
    qed
    have kept: "hp' q = hp q" if "q \<notin> (\<lambda>e. the (m (pfd_fd e))) ` {x \<in> set (e # es). pfd_revents x \<noteq> 0}" for q
    proof -
      have "q \<noteq> ptr" using that False ptr by force
      moreover have "q \<notin> (\<lambda>e. the (m (pfd_fd e))) ` {x \<in> set es. pfd_revents x \<noteq> 0}" using that by auto
      ultimately show ?thesis using hp'(3) by simp
    qed
    show ?thesis using run stored kept by blast
  qed
qed

section \<open>Properties\<close>

definition poll_perform :: "heap \<Rightarrow> poll_op list \<Rightarrow> SelectPoller \<Rightarrow> SelectPoller res" where
  "poll_perform hp ops p = sp.perform hp ops p"

definition poll_history :: "heap \<Rightarrow> poll_op list \<Rightarrow> (int \<Rightarrow> ushort option) \<Rightarrow> int \<Rightarrow> ushort option" where
  "poll_history hp ops m = sp.last_interest hp ops m"

definition poll_op_ptr :: "poll_op \<Rightarrow> nat" where
  "poll_op_ptr op = (case op of Register x \<Rightarrow> x | Remove x \<Rightarrow> x)"

lemma op_ptr_eq: "sp.op_ptr op = poll_op_ptr op"
  by (cases op) (simp_all add: poll_op_ptr_def)

text \<open>
  C15. After any history of registrations and removals of live handlers, the poll array has one entry
  per registered descriptor and the interest in each descriptor is the one of the last operation on
  it.
\<close>

theorem poller_interest:
  assumes "poller_inv p" and "\<forall>op \<in> set ops. hp (poll_op_ptr op) \<noteq> None"
  shows "\<exists>p'. poll_perform hp ops p = Inr p' \<and> poller_inv p' \<and> watch p' = poll_history hp ops (watch p)"
  using sp.perform_interest [of p ops hp] assms
  by (simp add: op_ptr_eq poll_perform_def poll_history_def)

theorem poller_interest_witness:
  "\<exists>p'. poll_perform ((\<lambda>_. None)(1 \<mapsto> set_enableRead (new_EventHandler 5), 2 \<mapsto> new_EventHandler 6))
       [Register 1, Register 2, Remove 1] new_SelectPoller = Inr p' \<and> poller_inv p' \<and>
     watch p' = poll_history ((\<lambda>_. None)(1 \<mapsto> set_enableRead (new_EventHandler 5), 2 \<mapsto> new_EventHandler 6))
       [Register 1, Register 2, Remove 1] (watch new_SelectPoller)"
  by (rule poller_interest) (auto simp: poll_op_ptr_def)

text \<open>
  \<^verbatim>\<open>poll\<close> on a consistent poll set returns exactly the handlers of the descriptors the kernel
  reported, in array order, each with its reported events stored.
\<close>

theorem poll_reports:
  assumes "poller_inv p" and "heap_ok hp p" and "length revs = length (pollFds p)"
    and "\<forall>v \<in> set revs. 0 \<le> sint v"
  shows "\<exists>p' hp'. poll (Inr revs) p hp = Inr (p', hp',
       map (\<lambda>e. the (evHandlers p (pfd_fd e))) (filter (\<lambda>e. pfd_revents e \<noteq> 0) (pollFds p'))) \<and>
     pollFds p' = map2 (\<lambda>e v. e\<lparr>pfd_revents := v\<rparr>) (pollFds p) revs \<and>
     poller_inv p' \<and> watch p' = watch p \<and> evHandlers p' = evHandlers p \<and>
     (\<forall>e \<in> set (pollFds p'). pfd_revents e \<noteq> 0 \<longrightarrow>
        (\<exists>h. hp (the (evHandlers p (pfd_fd e))) = Some h \<and>
             hp' (the (evHandlers p (pfd_fd e))) = Some (h\<lparr>revents := scast (pfd_revents e)\<rparr>))) \<and>
     (\<forall>ptr. ptr \<notin> (\<lambda>e. the (evHandlers p (pfd_fd e))) ` {e \<in> set (pollFds p'). pfd_revents e \<noteq> 0} \<longrightarrow> hp' ptr = hp ptr)"
proof -
  let ?fds = "map2 (\<lambda>e v. e\<lparr>pfd_revents := v\<rparr>) (pollFds p) revs"
  let ?p = "p\<lparr>pollFds := ?fds\<rparr>"
  have keys: "map pfd_fd ?fds = map pfd_fd (pollFds p)"
    "map (\<lambda>e. (pfd_fd e, pfd_events e)) ?fds = map (\<lambda>e. (pfd_fd e, pfd_events e)) (pollFds p)"
    using assms(3) by (auto intro!: nth_equalityI)
  have revs: "map pfd_revents ?fds = revs"
    using assms(3) by (auto intro!: nth_equalityI)
  have fdset: "pfd_fd ` set ?fds = pfd_fd ` set (pollFds p)"
    using arg_cong [OF keys(1), of set] by (simp only: set_map)
  have inv: "poller_inv ?p" "watch ?p = watch p"
    using assms(1) keys fdset by (simp_all add: poller_inv_def watch_def del: map_map)
  have count: "length (filter (\<lambda>v. v \<noteq> 0) revs) = length (filter (\<lambda>e. pfd_revents e \<noteq> 0) ?fds)"
    by (subst revs [symmetric]) (simp add: filter_map comp_def del: map_map)
  have dist: "distinct (map pfd_fd ?fds)" using inv(1) by (simp add: poller_inv_def)
  have owner: "\<forall>e \<in> set ?fds. \<exists>ptr h. evHandlers p (pfd_fd e) = Some ptr \<and> hp ptr = Some h \<and> fd h = pfd_fd e"
  proof
    fix e assume "e \<in> set ?fds"
    then have "pfd_fd e \<in> dom (evHandlers p)"
      using assms(1) fdset by (auto simp only: poller_inv_def)
    then obtain ptr where "evHandlers p (pfd_fd e) = Some ptr" by auto
    with assms(2) show "\<exists>ptr h. evHandlers p (pfd_fd e) = Some ptr \<and> hp ptr = Some h \<and> fd h = pfd_fd e"
      by (auto simp: heap_ok_def)
  qed
  have pos: "\<forall>e \<in> set ?fds. 0 \<le> sint (pfd_revents e)"
  proof
    fix e assume "e \<in> set ?fds"
    then have "pfd_revents e \<in> set (map pfd_revents ?fds)" unfolding set_map by (rule imageI)
    then show "0 \<le> sint (pfd_revents e)" unfolding revs using assms(4) by blast
  qed
  define n where "n = int (length (filter (\<lambda>v. v \<noteq> 0) revs))"
  have "int (length (filter (\<lambda>e. pfd_revents e \<noteq> 0) ?fds)) \<le> n" by (simp add: n_def count)
  note act = findActive_correct [OF dist owner pos this]
  have "poll (Inr revs) p hp =
      (if 0 < n then res_bind (findActiveEvHandlers (evHandlers p) ?fds n hp) (\<lambda>(hp, act). Inr (?p, hp, act))
       else Inr (?p, hp, []))"
    by (simp add: poll_def Let_def n_def)
  show ?thesis
  proof (cases "0 < n")
    case True
    with act inv show ?thesis by (auto simp: poll_def Let_def n_def [symmetric])
  next
    case False
    then have "length (filter (\<lambda>e. pfd_revents e \<noteq> 0) ?fds) = 0"
      unfolding count [symmetric] n_def by linarith
    then have none: "filter (\<lambda>e. pfd_revents e \<noteq> 0) ?fds = []" by (simp only: length_0_conv)
    then have "\<forall>e \<in> set ?fds. pfd_revents e = 0" unfolding filter_empty_conv by simp
    with False none inv show ?thesis
      by (intro exI [of _ ?p] exI [of _ hp]) (simp add: poll_def Let_def n_def [symmetric])
  qed
qed

theorem poll_reports_witness:
  "\<exists>p' hp'. poll (Inr [1]) \<lparr>pollFds = [\<lparr>pfd_fd = 5, pfd_events = 3, pfd_revents = 0\<rparr>], evHandlers = (\<lambda>_. None)(5 \<mapsto> 1)\<rparr>
       ((\<lambda>_. None)(1 \<mapsto> new_EventHandler 5)) = Inr (p', hp',
       map (\<lambda>e. the (evHandlers \<lparr>pollFds = [\<lparr>pfd_fd = 5, pfd_events = 3, pfd_revents = 0\<rparr>], evHandlers = (\<lambda>_. None)(5 \<mapsto> 1)\<rparr> (pfd_fd e)))
         (filter (\<lambda>e. pfd_revents e \<noteq> 0) (pollFds p')))"
proof -
  let ?p = "\<lparr>pollFds = [\<lparr>pfd_fd = 5, pfd_events = 3, pfd_revents = 0\<rparr>], evHandlers = (\<lambda>_. None)(5 \<mapsto> 1)\<rparr>"
  have "poller_inv ?p" "heap_ok ((\<lambda>_. None)(1 \<mapsto> new_EventHandler 5)) ?p"
    by (auto simp: poller_inv_def heap_ok_def new_EventHandler_def)
  then show ?thesis
    using poll_reports [of ?p "(\<lambda>_. None)(1 \<mapsto> new_EventHandler 5)" "[1]"] by auto
qed

text \<open>
  Registering a second handler object for a descriptor that is still registered replaces the
  interest but not the owner: the events of the descriptor go to the first object.
\<close>

theorem register_keeps_owner:
  assumes "poller_inv p" and "hp new = Some h" and "evHandlers p (fd h) = Some old"
  shows "\<exists>p'. registerEvHandler hp (Some new) p = Inr p' \<and> evHandlers p' (fd h) = Some old \<and>
     watch p' (fd h) = Some (ucast (events h))"
  using register_watch [of p hp new h] assms by auto

theorem register_keeps_owner_witness:
  "\<exists>p'. registerEvHandler ((\<lambda>_. None)(2 \<mapsto> new_EventHandler 5)) (Some 2)
       \<lparr>pollFds = [\<lparr>pfd_fd = 5, pfd_events = 3, pfd_revents = 0\<rparr>], evHandlers = (\<lambda>_. None)(5 \<mapsto> 1)\<rparr> = Inr p' \<and>
     evHandlers p' (fd (new_EventHandler 5)) = Some 1 \<and>
     watch p' (fd (new_EventHandler 5)) = Some (ucast (events (new_EventHandler 5)))"
  by (rule register_keeps_owner) (auto simp: poller_inv_def new_EventHandler_def)

end
