(* ===== verification/Timers.thy ===== *)
theory Timers
  imports TimeModel
begin

text \<open>
  \<^verbatim>\<open>base/TimerQueue.h\<close> and \<^verbatim>\<open>base/TimerQueue.cpp\<close>: the ordered set of timers of a reactor and the
  \<^verbatim>\<open>timerfd\<close> that wakes it. Timer objects live behind pointers; the set is the ascending list of its
  \<^verbatim>\<open>(Timestamp, Timer*)\<close> entries, with pointers as numbers below \<^verbatim>\<open>UINTPTR_MAX\<close>.
\<close>

section \<open>The timer descriptor\<close>

text \<open>What \<^verbatim>\<open>timerfd_settime\<close> was last given: an absolute second, or seconds and nanoseconds from now.\<close>

datatype fd_setting = AbsTime int | RelTime int int

definition howMuchTimeFromNow :: "Timestamp \<Rightarrow> Timestamp \<Rightarrow> fd_setting" where
  "howMuchTimeFromNow clk when =
     (let microseconds = microsecondsSinceEpoch when - microsecondsSinceEpoch clk;
          microseconds = (if microseconds < 100 then 100 else microseconds)
      in RelTime (c_div microseconds csMicrosecondsPerSecond)
           (c_mod microseconds csMicrosecondsPerSecond * 1000))"

definition UINTPTR_MAX :: nat where "UINTPTR_MAX = 2 ^ 64 - 1"

text \<open>
  \<open>timers\<close> is the heap of \<^verbatim>\<open>Timer\<close> objects, \<open>started\<close> the callbacks handed to a thread so far;
  \<open>bsetup\<close> and \<open>sIndexNum\<close> are the two function and class statics of the code.
\<close>

record 'cb TimerQueue =
  timerLists :: "(Timestamp \<times> nat) list"
  timers :: "nat \<Rightarrow> 'cb Timer option"
  timerfd :: "fd_setting option"
  bsetup :: bool
  sIndexNum :: int
  started :: "'cb list"

definition resetTimerFd :: "Timestamp \<Rightarrow> Timestamp \<Rightarrow> 'cb TimerQueue \<Rightarrow> 'cb TimerQueue" where
  "resetTimerFd clk t q =
     (if \<not> bsetup q
      then q\<lparr>timerfd := Some (AbsTime (c_div (microsecondsSinceEpoch t) csMicrosecondsPerSecond)), bsetup := True\<rparr>
      else q\<lparr>timerfd := Some (howMuchTimeFromNow clk t)\<rparr>)"

section \<open>Operations\<close>

text \<open>\<^verbatim>\<open>insert\<close> answers whether the head changed; a timer with an invalid time is deleted.\<close>

definition tq_insert :: "nat \<Rightarrow> 'cb TimerQueue \<Rightarrow> (bool \<times> 'cb TimerQueue) res" where
  "tq_insert p q =
     (case timers q p of
        None \<Rightarrow> Inl UseAfterFree
      | Some tmer \<Rightarrow>
          let newtm = expiration tmer in
          if \<not> valid newtm then Inr (False, q\<lparr>timers := (timers q)(p := None)\<rparr>)
          else Inr (timerLists q = [] \<or> newtm < fst (hd (timerLists q)),
                    q\<lparr>timerLists := insort_insert (newtm, p) (timerLists q)\<rparr>))"

text \<open>
  The two overloads of \<^verbatim>\<open>addTimer\<close>. Both read \<^verbatim>\<open>index()\<close> of the timer after \<^verbatim>\<open>insert\<close>. \<open>p\<close> is the
  pointer that \<^verbatim>\<open>new\<close> returns, resp. the argument.
\<close>

definition addTimer_ptr :: "Timestamp \<Rightarrow> nat option \<Rightarrow> 'cb TimerQueue \<Rightarrow> ((int \<times> nat) \<times> 'cb TimerQueue) res" where
  "addTimer_ptr clk tm q =
     (case tm of
        None \<Rightarrow> Inl AssertFail
      | Some p \<Rightarrow>
          res_bind (tq_insert p q) (\<lambda>(bupdate, q).
          case timers q p of
            None \<Rightarrow> Inl UseAfterFree
          | Some t \<Rightarrow> Inr ((timer_index t, p), if bupdate then resetTimerFd clk (expiration t) q else q)))"

definition addTimer :: "Timestamp \<Rightarrow> nat \<Rightarrow> Timestamp \<Rightarrow> 'cb \<Rightarrow> rat \<Rightarrow> bool \<Rightarrow> 'cb TimerQueue
    \<Rightarrow> ((int \<times> nat) \<times> 'cb TimerQueue) res" where
  "addTimer clk p time cb intv rep q =
     (let (i, n) = indexCreate (sIndexNum q);
          q = q\<lparr>timers := (timers q)(p \<mapsto> new_Timer cb i time intv rep), sIndexNum := n\<rparr> in
      res_bind (tq_insert p q) (\<lambda>(bupdate, q).
        let q = (if bupdate then resetTimerFd clk time q else q) in
        case timers q p of
          None \<Rightarrow> Inl UseAfterFree
        | Some t \<Rightarrow> Inr ((timer_index t, p), q)))"

text \<open>
  \<^verbatim>\<open>getExpireTimer\<close>: everything below \<open>(tm, UINTPTR_MAX)\<close>, unless that is the whole set.
\<close>

definition getExpireTimer :: "Timestamp \<Rightarrow> 'cb TimerQueue \<Rightarrow> (Timestamp \<times> nat) list \<times> 'cb TimerQueue" where
  "getExpireTimer t q =
     (let below = (\<lambda>e. e < (t, UINTPTR_MAX)); expireUper = dropWhile below (timerLists q) in
      if expireUper = [] then ([], q)
      else (takeWhile below (timerLists q), q\<lparr>timerLists := expireUper\<rparr>))"

text \<open>
  \<^verbatim>\<open>resetExpired\<close>: repeating timers are restarted and reinserted, the others stay allocated. \<open>clk p\<close>
  is the clock when the timer at \<open>p\<close> is restarted.
\<close>

fun reinsert :: "(nat \<Rightarrow> Timestamp) \<Rightarrow> (Timestamp \<times> nat) list \<Rightarrow> 'cb TimerQueue \<Rightarrow> 'cb TimerQueue res" where
  "reinsert clk [] q = Inr q"
| "reinsert clk ((_, p) # es) q =
     (case timers q p of
        None \<Rightarrow> Inl UseAfterFree
      | Some t \<Rightarrow>
          if brepeat t
          then res_bind (tq_insert p (q\<lparr>timers := (timers q)(p \<mapsto> restartTimer (clk p) t)\<rparr>))
                 (\<lambda>(_, q). reinsert clk es q)
          else reinsert clk es q)"

definition resetExpired :: "(nat \<Rightarrow> Timestamp) \<Rightarrow> Timestamp \<Rightarrow> (Timestamp \<times> nat) list \<Rightarrow> 'cb TimerQueue
    \<Rightarrow> 'cb TimerQueue res" where
  "resetExpired clk clk' expire q =
     res_bind (reinsert clk expire q) (\<lambda>q.
       case timerLists q of
         [] \<Rightarrow> Inr q
       | (_, p) # _ \<Rightarrow>
           (case timers q p of
              None \<Rightarrow> Inl UseAfterFree
            | Some t \<Rightarrow> Inr (if valid (expiration t) then resetTimerFd clk' (expiration t) q else q)))"

text \<open>\<^verbatim>\<open>Timer::run\<close> for each expired timer: the callback is handed to a new thread.\<close>

fun run_timers :: "(Timestamp \<times> nat) list \<Rightarrow> 'cb TimerQueue \<Rightarrow> 'cb TimerQueue res" where
  "run_timers [] q = Inr q"
| "run_timers ((_, p) # es) q =
     (case timers q p of
        None \<Rightarrow> Inl UseAfterFree
      | Some t \<Rightarrow> run_timers es (q\<lparr>started := started q @ [timerCallback t]\<rparr>))"

text \<open>The handler of the descriptor. It reads the head of the set for its log line first.\<close>

definition eventRead :: "(nat \<Rightarrow> Timestamp) \<Rightarrow> Timestamp \<Rightarrow> Timestamp \<Rightarrow> 'cb TimerQueue \<Rightarrow> 'cb TimerQueue res" where
  "eventRead clk clk' evtime q =
     (if timerLists q = [] then Inl OutOfBounds
      else
        let (vec, q) = getExpireTimer evtime q in
        if vec = [] then Inr q
        else res_bind (run_timers vec q) (resetExpired clk clk' vec))"

text \<open>\<^verbatim>\<open>delTimerInLoop\<close>: the first entry with this pointer.\<close>

definition delTimerInLoop :: "Timestamp \<Rightarrow> int \<times> nat \<Rightarrow> 'cb TimerQueue \<Rightarrow> 'cb TimerQueue" where
  "delTimerInLoop clk tid q =
     (case dropWhile (\<lambda>e. snd e \<noteq> snd tid) (timerLists q) of
        [] \<Rightarrow> q
      | e # rest \<Rightarrow>
          let q = q\<lparr>timers := (timers q)(snd e := None),
                    timerLists := takeWhile (\<lambda>e. snd e \<noteq> snd tid) (timerLists q) @ rest\<rparr>
          in if timerLists q = [] then q else resetTimerFd clk (fst (hd (timerLists q))) q)"

text \<open>The constructor adds a one-shot timer a year ahead; its callback asserts.\<close>

definition new_TimerQueue :: "Timestamp \<Rightarrow> Timestamp \<Rightarrow> nat \<Rightarrow> 'cb \<Rightarrow> bool \<Rightarrow> int \<Rightarrow> 'cb TimerQueue res" where
  "new_TimerQueue clk clk' p defaultTimerCallback setup idx =
     res_bind (addTimer clk' p (addSeconds clk (24 * 3600 * 365)) defaultTimerCallback 0 False
        \<lparr>timerLists = [], timers = (\<lambda>_. None), timerfd = None, bsetup = setup, sIndexNum = idx, started = []\<rparr>)
       (\<lambda>(_, q). Inr q)"

text \<open>The destructor deletes every timer that is still in the set.\<close>

definition delete_TimerQueue :: "'cb TimerQueue \<Rightarrow> 'cb TimerQueue" where
  "delete_TimerQueue q =
     q\<lparr>timers := (\<lambda>p. if p \<in> snd ` set (timerLists q) then None else timers q p), timerLists := [], timerfd := None\<rparr>"

section \<open>Invariant\<close>

definition entry_ok :: "'cb TimerQueue \<Rightarrow> Timestamp \<times> nat \<Rightarrow> bool" where
  "entry_ok q e \<longleftrightarrow> snd e < UINTPTR_MAX \<and> valid (fst e) \<and>
     (\<exists>t. timers q (snd e) = Some t \<and> expiration t = fst e)"

definition tq_inv :: "'cb TimerQueue \<Rightarrow> bool" where
  "tq_inv q \<longleftrightarrow> sorted (timerLists q) \<and> distinct (map snd (timerLists q)) \<and>
     (\<forall>e \<in> set (timerLists q). entry_ok q e)"

lemma resetTimerFd_fields [simp]:
  "timerLists (resetTimerFd clk t q) = timerLists q" "timers (resetTimerFd clk t q) = timers q"
  "started (resetTimerFd clk t q) = started q" "sIndexNum (resetTimerFd clk t q) = sIndexNum q"
  by (simp_all add: resetTimerFd_def)

lemma tq_inv_cong:
  "timerLists q' = timerLists q \<Longrightarrow> timers q' = timers q \<Longrightarrow> tq_inv q' = tq_inv q"
  by (simp add: tq_inv_def entry_ok_def)

lemma tq_inv_resetTimerFd [simp]: "tq_inv (resetTimerFd clk t q) = tq_inv q"
  by (rule tq_inv_cong) simp_all

lemma sorted_insort_insert': "sorted xs \<Longrightarrow> sorted (insort_insert x xs)"
  by (simp add: insort_insert_key_def sorted_insort)

lemma set_insort_insert' [simp]: "set (insort_insert x xs) = insert x (set xs)"
  by (simp add: set_insort_insert)

lemma distinct_insort_insert_snd:
  "distinct (map snd xs) \<Longrightarrow> p \<notin> snd ` set xs \<Longrightarrow> distinct (map snd (insort_insert (t, p) xs))"
proof -
  assume "distinct (map snd xs)" "p \<notin> snd ` set xs"
  then have "distinct (map snd (insort (t, p) xs))"
  proof (induction xs)
    case (Cons x xs)
    then show ?case by (auto simp: set_insort_key)
  qed simp
  moreover have "(t, p) \<notin> set xs" using \<open>p \<notin> snd ` set xs\<close> by force
  ultimately show ?thesis by (simp add: insort_insert_insort)
qed

text \<open>A timer that is not in the set goes in, without disturbing the others.\<close>

lemma tq_insert_inv:
  assumes "tq_inv q" and "timers q p = Some t" and "p \<notin> snd ` set (timerLists q)" and "p < UINTPTR_MAX"
  shows "\<exists>b q'. tq_insert p q = Inr (b, q') \<and> tq_inv q' \<and> started q' = started q \<and>
     set (timerLists q') = set (timerLists q) \<union> (if valid (expiration t) then {(expiration t, p)} else {}) \<and>
     (\<forall>p'. p' \<noteq> p \<longrightarrow> timers q' p' = timers q p') \<and> (valid (expiration t) \<longrightarrow> timers q' p = Some t) \<and>
     bsetup q' = bsetup q"
proof (cases "valid (expiration t)")
  case True
  with assms show ?thesis
    by (auto simp: tq_insert_def Let_def tq_inv_def entry_ok_def sorted_insort_insert'
        distinct_insort_insert_snd)
next
  case False
  with assms show ?thesis
    by (auto simp: tq_insert_def Let_def tq_inv_def entry_ok_def)
qed

lemma tq_inv_fresh:
  "tq_inv q \<Longrightarrow> p \<notin> snd ` set (timerLists q) \<Longrightarrow> tq_inv (q\<lparr>timers := (timers q)(p := x)\<rparr>)"
  by (auto simp: tq_inv_def entry_ok_def)

lemma addTimer_inv:
  assumes "tq_inv q" and "timers q p = None" and "p < UINTPTR_MAX" and "valid time"
  shows "\<exists>i q'. addTimer clk p time cb intv rep q = Inr ((i, p), q') \<and> tq_inv q' \<and> started q' = started q \<and>
     set (timerLists q') = insert (time, p) (set (timerLists q)) \<and>
     timers q' p = Some (new_Timer cb i time intv rep) \<and> (\<forall>p'. p' \<noteq> p \<longrightarrow> timers q' p' = timers q p')"
proof -
  have new: "p \<notin> snd ` set (timerLists q)"
    using assms(1,2) by (auto simp: tq_inv_def entry_ok_def)
  let ?t = "new_Timer cb (sIndexNum q) time intv rep"
  let ?q = "q\<lparr>timers := (timers q)(p \<mapsto> ?t), sIndexNum := sIndexNum q + 1\<rparr>"
  have "tq_inv (q\<lparr>timers := (timers q)(p \<mapsto> ?t)\<rparr>)"
    by (rule tq_inv_fresh [OF assms(1) new])
  then have inv: "tq_inv ?q" by (simp add: tq_inv_def entry_ok_def)
  have t: "expiration ?t = time" by (simp add: new_Timer_def)
  from tq_insert_inv [OF inv, of p ?t] new assms(3,4) t obtain b q' where
    ins: "tq_insert p ?q = Inr (b, q')" "tq_inv q'" "started q' = started q"
      "set (timerLists q') = insert (time, p) (set (timerLists q))" "timers q' p = Some ?t" "\<forall>p'. p' \<noteq> p \<longrightarrow> timers q' p' = timers q p'"
    by auto
  let ?r = "if b then resetTimerFd clk time q' else q'"
  have "addTimer clk p time cb intv rep q = Inr ((sIndexNum q, p), ?r)"
    using ins(5) by (simp add: addTimer_def indexCreate_def Let_def ins(1)) (simp add: new_Timer_def)
  then show ?thesis using ins by auto
qed

section \<open>Expiry\<close>

lemma takeWhile_sorted:
  fixes xs :: "'a::linorder list"
  assumes "sorted xs" and "\<And>x y. x \<le> y \<Longrightarrow> P y \<Longrightarrow> P x"
  shows "takeWhile P xs = filter P xs" and "dropWhile P xs = filter (\<lambda>x. \<not> P x) xs"
proof -
  have "takeWhile P xs = filter P xs \<and> dropWhile P xs = filter (\<lambda>x. \<not> P x) xs"
    using assms(1)
  proof (induction xs)
    case (Cons x xs)
    show ?case
    proof (cases "P x")
      case False
      with Cons.prems assms(2) have "\<forall>y \<in> set xs. \<not> P y" by auto
      with False show ?thesis by (simp add: filter_empty_conv filter_id_conv)
    qed (use Cons in simp)
  qed simp
  then show "takeWhile P xs = filter P xs" and "dropWhile P xs = filter (\<lambda>x. \<not> P x) xs"
    by simp_all
qed

definition due :: "Timestamp \<Rightarrow> Timestamp \<times> nat \<Rightarrow> bool" where
  "due t e \<longleftrightarrow> fst e \<le> t"

lemma getExpireTimer_split:
  assumes "tq_inv q"
  shows "getExpireTimer t q =
    (if \<exists>e \<in> set (timerLists q). \<not> due t e
     then (filter (due t) (timerLists q), q\<lparr>timerLists := filter (\<lambda>e. \<not> due t e) (timerLists q)\<rparr>)
     else ([], q))"
proof -
  let ?below = "\<lambda>e. e < (t, UINTPTR_MAX)"
  have s: "sorted (timerLists q)" using assms by (simp add: tq_inv_def)
  have b: "?below e = due t e" if "e \<in> set (timerLists q)" for e
    using assms that by (auto simp: tq_inv_def entry_ok_def due_def less_prod_def' order_le_less)
  have tw: "takeWhile ?below (timerLists q) = filter ?below (timerLists q)"
    "dropWhile ?below (timerLists q) = filter (\<lambda>e. \<not> ?below e) (timerLists q)"
    using takeWhile_sorted [OF s, of ?below] by (auto intro: le_less_trans)
  have f: "filter ?below (timerLists q) = filter (due t) (timerLists q)"
    "filter (\<lambda>e. \<not> ?below e) (timerLists q) = filter (\<lambda>e. \<not> due t e) (timerLists q)"
    using b by (auto cong: filter_cong)
  show ?thesis
    unfolding getExpireTimer_def Let_def tw f by (simp add: filter_empty_conv)
qed

lemma run_timers_eq:
  "\<forall>e \<in> set es. timers q (snd e) \<noteq> None \<Longrightarrow>
     run_timers es q = Inr (q\<lparr>started := started q @ map (\<lambda>e. timerCallback (the (timers q (snd e)))) es\<rparr>)"
  by (induction es arbitrary: q) (auto split: option.splits)

definition rearmed :: "(nat \<Rightarrow> Timestamp) \<Rightarrow> 'cb TimerQueue \<Rightarrow> nat set \<Rightarrow> (Timestamp \<times> nat) set" where
  "rearmed clk q ps =
     {(x, p). p \<in> ps \<and> (\<exists>t. timers q p = Some t \<and> brepeat t \<and> x = expiration (restartTimer (clk p) t) \<and> valid x)}"

lemma rearmed_insert:
  "rearmed clk q (insert p ps) = rearmed clk q {p} \<union> rearmed clk q ps"
  by (auto simp: rearmed_def)

lemma rearmed_cong: "(\<And>p. p \<in> ps \<Longrightarrow> timers q p = timers q' p) \<Longrightarrow> rearmed clk q ps = rearmed clk q' ps"
  by (auto simp: rearmed_def)

lemma reinsert_spec:
  assumes "tq_inv q" and "distinct (map snd es)" and "snd ` set es \<inter> snd ` set (timerLists q) = {}"
    and "\<forall>e \<in> set es. snd e < UINTPTR_MAX \<and> timers q (snd e) \<noteq> None"
  shows "\<exists>q'. reinsert clk es q = Inr q' \<and> tq_inv q' \<and> started q' = started q \<and>
     set (timerLists q') = set (timerLists q) \<union> rearmed clk q (snd ` set es) \<and>
     (\<forall>p. p \<notin> snd ` set es \<longrightarrow> timers q' p = timers q p) \<and> bsetup q' = bsetup q"
  using assms
proof (induction es arbitrary: q)
  case Nil
  then show ?case by (simp add: rearmed_def)
next
  case (Cons e es)
  obtain x p where e: "e = (x, p)" by (cases e)
  obtain t where t: "timers q p = Some t" using Cons.prems(4) e by auto
  have p: "p \<notin> snd ` set (timerLists q)" "p < UINTPTR_MAX" "p \<notin> snd ` set es"
    using Cons.prems e by auto
  show ?case
  proof (cases "brepeat t")
    case False
    with t have "rearmed clk q {p} = {}" by (simp add: rearmed_def)
    moreover obtain q' where "reinsert clk es q = Inr q'" "tq_inv q'" "started q' = started q"
      "set (timerLists q') = set (timerLists q) \<union> rearmed clk q (snd ` set es)"
      "\<forall>p. p \<notin> snd ` set es \<longrightarrow> timers q' p = timers q p" "bsetup q' = bsetup q"
      using Cons.IH [of q] Cons.prems by auto
    ultimately show ?thesis
      using e t False rearmed_insert [of clk q p "snd ` set es"] by simp
  next
    case True
    let ?t = "restartTimer (clk p) t"
    let ?q = "q\<lparr>timers := (timers q)(p \<mapsto> ?t)\<rparr>"
    have inv: "tq_inv ?q" using Cons.prems(1) p(1) by (rule tq_inv_fresh)
    have "timers ?q p = Some ?t" "p \<notin> snd ` set (timerLists ?q)" using p by simp_all
    from tq_insert_inv [OF inv this p(2)] obtain b r where r: "tq_insert p ?q = Inr (b, r)" "tq_inv r"
      "started r = started q"
      "set (timerLists r) = set (timerLists q) \<union> (if valid (expiration ?t) then {(expiration ?t, p)} else {})"
      "\<forall>p'. p' \<noteq> p \<longrightarrow> timers r p' = timers q p'" "bsetup r = bsetup q" by auto
    have one: "rearmed clk q {p} = (if valid (expiration ?t) then {(expiration ?t, p)} else {})"
      using t True by (auto simp: rearmed_def)
    have es: "rearmed clk r (snd ` set es) = rearmed clk q (snd ` set es)"
      using r(5) p(3) by (intro rearmed_cong) auto
    have d: "snd ` set es \<inter> snd ` set (timerLists r) = {}"
      using Cons.prems(3) p(3) r(4) by (auto simp: e split: if_splits)
    have h: "\<forall>e \<in> set es. snd e < UINTPTR_MAX \<and> timers r (snd e) \<noteq> None"
      using Cons.prems(4) r(5) p(3) by force
    have "distinct (map snd es)" using Cons.prems(2) by simp
    from Cons.IH [OF r(2) this d h] obtain q' where q': "reinsert clk es r = Inr q'" "tq_inv q'"
      "started q' = started r" "set (timerLists q') = set (timerLists r) \<union> rearmed clk r (snd ` set es)"
      "\<forall>p. p \<notin> snd ` set es \<longrightarrow> timers q' p = timers r p" "bsetup q' = bsetup r" by blast
    have "reinsert clk (e # es) q = Inr q'"
      using t True r(1) q'(1) by (simp add: e)
    moreover have "set (timerLists q') = set (timerLists q) \<union> rearmed clk q (snd ` set (e # es))"
      using q'(4) r(4) one es rearmed_insert [of clk q p "snd ` set es"] by (auto simp: e)
    ultimately show ?thesis
      using q' r e by auto
  qed
qed

lemma tq_inv_filter:
  assumes "tq_inv q"
  shows "tq_inv (q\<lparr>timerLists := filter P (timerLists q)\<rparr>)"
  using assms
  by (auto simp: tq_inv_def entry_ok_def sorted_wrt_filter distinct_map_filter)

lemma tq_inv_started [simp]: "tq_inv (q\<lparr>started := s\<rparr>) = tq_inv q"
  by (rule tq_inv_cong) simp_all

text \<open>
  One expiry, with a later entry left in the set: the due timers are started in order, the
  repeating ones rearmed, the rest of the set is untouched and the descriptor is set for the head.
\<close>

lemma eventRead_expiry:
  assumes inv: "tq_inv q" and later: "\<exists>e \<in> set (timerLists q). \<not> due t e"
    and some: "\<exists>e \<in> set (timerLists q). due t e"
  shows "\<exists>q'. eventRead clk clk' t q = Inr q' \<and> tq_inv q' \<and>
     started q' = started q @ map (\<lambda>e. timerCallback (the (timers q (snd e)))) (filter (due t) (timerLists q)) \<and>
     set (timerLists q') = {e \<in> set (timerLists q). \<not> due t e} \<union> rearmed clk q (snd ` {e \<in> set (timerLists q). due t e}) \<and>
     (\<forall>e \<in> set (timerLists q). \<not> due t e \<longrightarrow> timers q' (snd e) = timers q (snd e)) \<and>
     (\<exists>r. bsetup r = bsetup q \<and> q' = resetTimerFd clk' (fst (hd (timerLists q'))) r)"
proof -
  let ?vec = "filter (due t) (timerLists q)"
  let ?q = "q\<lparr>timerLists := filter (\<lambda>e. \<not> due t e) (timerLists q)\<rparr>"
  let ?s = "started q @ map (\<lambda>e. timerCallback (the (timers q (snd e)))) ?vec"
  have ne: "timerLists q \<noteq> []" "?vec \<noteq> []"
    using later some by (auto simp: filter_empty_conv)
  have ok: "entry_ok q e" if "e \<in> set (timerLists q)" for e
    using inv that by (simp add: tq_inv_def)
  have heap: "\<forall>e \<in> set ?vec. timers q (snd e) \<noteq> None"
    using ok by (fastforce simp: entry_ok_def)
  then have run: "run_timers ?vec ?q = Inr (?q\<lparr>started := ?s\<rparr>)"
    by (simp add: run_timers_eq del: set_filter)
  have "inj_on snd (set (timerLists q))"
    using inv by (simp add: tq_inv_def distinct_map)
  then have disj: "snd ` set ?vec \<inter> snd ` set (timerLists (?q\<lparr>started := ?s\<rparr>)) = {}"
    by (auto dest: inj_onD)
  have dist: "distinct (map snd ?vec)" using inv by (simp add: tq_inv_def distinct_map_filter)
  have small: "\<forall>e \<in> set ?vec. snd e < UINTPTR_MAX \<and> timers (?q\<lparr>started := ?s\<rparr>) (snd e) \<noteq> None"
    using ok by (fastforce simp: entry_ok_def)
  from reinsert_spec [OF _ dist disj small, of clk] tq_inv_filter [OF inv]
  obtain r where r: "reinsert clk ?vec (?q\<lparr>started := ?s\<rparr>) = Inr r" "tq_inv r" "started r = ?s"
    "set (timerLists r) = set (timerLists ?q) \<union> rearmed clk (?q\<lparr>started := ?s\<rparr>) (snd ` set ?vec)"
    "\<And>p. p \<notin> snd ` set ?vec \<Longrightarrow> timers r p = timers q p" "bsetup r = bsetup q"
    by auto
  have "rearmed clk (?q\<lparr>started := ?s\<rparr>) (snd ` set ?vec) = rearmed clk q (snd ` {e \<in> set (timerLists q). due t e})"
    by (simp add: rearmed_def)
  with r(4) have set: "set (timerLists r) =
      {e \<in> set (timerLists q). \<not> due t e} \<union> rearmed clk q (snd ` {e \<in> set (timerLists q). due t e})" by simp
  have "eventRead clk clk' t q = resetExpired clk clk' ?vec (?q\<lparr>started := ?s\<rparr>)"
    using ne later by (simp add: eventRead_def getExpireTimer_split [OF inv] run del: filter.simps)
  also have "\<dots> = Inr (case timerLists r of [] \<Rightarrow> r | e # _ \<Rightarrow>
       if valid (fst e) then resetTimerFd clk' (fst e) r else r)"
    using r(2) by (auto simp: resetExpired_def r(1) tq_inv_def entry_ok_def split: list.splits)
  finally have "eventRead clk clk' t q = Inr (case timerLists r of [] \<Rightarrow> r | e # _ \<Rightarrow>
       if valid (fst e) then resetTimerFd clk' (fst e) r else r)" .
  moreover obtain h hs where h: "timerLists r = h # hs" using later set by (cases "timerLists r") auto
  moreover have "valid (fst h)" using r(2) h by (simp add: tq_inv_def entry_ok_def)
  ultimately have ev: "eventRead clk clk' t q = Inr (resetTimerFd clk' (fst h) r)" by simp
  have "timers r (snd e) = timers q (snd e)" if "e \<in> set (timerLists q)" "\<not> due t e" for e
    using that \<open>inj_on snd (set (timerLists q))\<close> by (intro r(5)) (auto dest: inj_onD)
  with r(2,3,6) set h show ?thesis unfolding ev by auto
qed

text \<open>Otherwise nothing is started, and the descriptor is not set again.\<close>

lemma eventRead_nothing:
  assumes "tq_inv q" and "timerLists q \<noteq> []"
    and "(\<forall>e \<in> set (timerLists q). due t e) \<or> (\<forall>e \<in> set (timerLists q). \<not> due t e)"
  shows "eventRead clk clk' t q = Inr q"
  using assms by (auto simp: eventRead_def getExpireTimer_split filter_empty_conv)

lemma delTimerInLoop_spec:
  assumes "tq_inv q"
  shows "tq_inv (delTimerInLoop clk (i, p) q) \<and>
     set (timerLists (delTimerInLoop clk (i, p) q)) = {e \<in> set (timerLists q). snd e \<noteq> p} \<and>
     (\<forall>p'. p' \<noteq> p \<longrightarrow> timers (delTimerInLoop clk (i, p) q) p' = timers q p')"
proof (cases "dropWhile (\<lambda>e. snd e \<noteq> p) (timerLists q)")
  case Nil
  then have "p \<notin> snd ` set (timerLists q)" by (auto simp: dropWhile_eq_Nil_conv)
  moreover have "delTimerInLoop clk (i, p) q = q"
    unfolding delTimerInLoop_def snd_conv Nil by simp
  ultimately show ?thesis using assms by auto
next
  case (Cons e rest)
  let ?pre = "takeWhile (\<lambda>e. snd e \<noteq> p) (timerLists q)"
  have xs: "timerLists q = ?pre @ e # rest" using Cons takeWhile_dropWhile_id by metis
  have e: "snd e = p" using Cons by (simp add: dropWhile_eq_Cons_conv)
  have pre: "\<forall>x \<in> set ?pre. snd x \<noteq> p" by (auto dest: set_takeWhileD)
  have dist: "distinct (map snd (?pre @ e # rest))" and srt: "sorted (?pre @ e # rest)"
    and ok: "\<forall>x \<in> set (?pre @ e # rest). entry_ok q x"
    using assms xs by (auto simp: tq_inv_def)
  let ?q = "q\<lparr>timers := (timers q)(p := None), timerLists := ?pre @ rest\<rparr>"
  have "snd e \<notin> snd ` set rest" using dist by simp
  then have rest: "\<forall>x \<in> set rest. snd x \<noteq> p" using e by (auto simp: image_iff)
  have inv: "tq_inv ?q"
    using dist srt ok pre rest by (auto simp: tq_inv_def entry_ok_def sorted_append)
  have "set (timerLists q) = insert e (set ?pre \<union> set rest)" by (subst xs) auto
  with pre rest e have "{x \<in> set (timerLists q). snd x \<noteq> p} = set (?pre @ rest)" by auto
  moreover have "delTimerInLoop clk (i, p) q = (if ?pre @ rest = [] then ?q else resetTimerFd clk (fst (hd (?pre @ rest))) ?q)"
    using Cons e unfolding delTimerInLoop_def snd_conv by (simp add: Let_def del: append_is_Nil_conv)
  ultimately show ?thesis using inv by (auto simp del: append_is_Nil_conv)
qed

section \<open>Properties\<close>

text \<open>
  A timer event that finds due timers and a later entry in the set starts exactly the due
  callbacks, in the order of their times; the repeating timers are rearmed, the one-shot timers
  leave the set, and every other entry stays. The set stays ordered and consistent.
\<close>

theorem eventRead_correct:
  assumes "tq_inv q" and "e \<in> set (timerLists q)" and "due t e"
    and "l \<in> set (timerLists q)" and "\<not> due t l"
  shows "\<exists>q'. eventRead clk clk' t q = Inr q' \<and> tq_inv q' \<and>
     started q' = started q @ map (\<lambda>e. timerCallback (the (timers q (snd e)))) (filter (due t) (timerLists q)) \<and>
     set (timerLists q') = {e \<in> set (timerLists q). \<not> due t e} \<union> rearmed clk q (snd ` {e \<in> set (timerLists q). due t e})"
  using eventRead_expiry [OF assms(1), of t clk clk'] assms(2-5) by blast

text \<open>
  A queue with one repeating timer due at 10 and the constructor's sentinel; it is built by the
  code's own operations.
\<close>

definition demo_queue :: "string TimerQueue" where
  "demo_queue =
     \<lparr>timerLists = [(Timestamp 10, 7), (Timestamp 90, 5)],
      timers = (\<lambda>_. None)(7 \<mapsto> new_Timer ''tick'' 1 (Timestamp 10) 1 True, 5 \<mapsto> new_Timer ''max'' 0 (Timestamp 90) 0 False),
      timerfd = None, bsetup = True, sIndexNum = 2, started = []\<rparr>"

lemma demo_queue_inv: "tq_inv demo_queue"
  by (simp add: demo_queue_def tq_inv_def entry_ok_def UINTPTR_MAX_def valid_def new_Timer_def less_eq_prod_def)

theorem eventRead_correct_witness:
  "\<exists>q'. eventRead (\<lambda>_. Timestamp 20) (Timestamp 21) (Timestamp 15) demo_queue = Inr q' \<and> tq_inv q' \<and>
     started q' = started demo_queue @
       map (\<lambda>e. timerCallback (the (timers demo_queue (snd e)))) (filter (due (Timestamp 15)) (timerLists demo_queue)) \<and>
     set (timerLists q') = {e \<in> set (timerLists demo_queue). \<not> due (Timestamp 15) e} \<union>
       rearmed (\<lambda>_. Timestamp 20) demo_queue (snd ` {e \<in> set (timerLists demo_queue). due (Timestamp 15) e})"
  by (rule eventRead_correct [OF demo_queue_inv, of "(Timestamp 10, 7)" _ "(Timestamp 90, 5)"])
    (simp_all add: demo_queue_def due_def)

text \<open>
  When every timer of the set is due, \<^verbatim>\<open>getExpireTimer\<close> returns nothing: no callback runs and the
  descriptor is not armed again.
\<close>

theorem eventRead_all_due_stalls:
  assumes "tq_inv q" and "timerLists q \<noteq> []" and "\<forall>e \<in> set (timerLists q). due t e"
  shows "eventRead clk clk' t q = Inr q"
  using assms by (intro eventRead_nothing) simp_all

theorem eventRead_all_due_stalls_witness:
  "eventRead (\<lambda>_. Timestamp 100) (Timestamp 100) (Timestamp 95) demo_queue = Inr demo_queue"
  by (rule eventRead_all_due_stalls [OF demo_queue_inv]) (simp_all add: demo_queue_def due_def)

text \<open>
  After a timer event no timer of the set is due at the event's time, if every due repeating
  timer computes its next time with an algorithm that moves ahead of the clock.
\<close>

theorem eventRead_clears_due:
  assumes "tq_inv q" and "l \<in> set (timerLists q)" and "\<not> due t l"
    and "\<And>p tmr. timers q p = Some tmr \<Longrightarrow> brepeat tmr \<Longrightarrow> t < expiration (restartTimer (clk p) tmr)"
    and "eventRead clk clk' t q = Inr q'"
  shows "\<forall>e \<in> set (timerLists q'). \<not> due t e"
proof (cases "\<exists>e \<in> set (timerLists q). due t e")
  case True
  with eventRead_expiry [OF assms(1) _ True, of clk clk'] assms(2,3,5)
  have "set (timerLists q') = {e \<in> set (timerLists q). \<not> due t e} \<union> rearmed clk q (snd ` {e \<in> set (timerLists q). due t e})"
    by auto
  with assms(4) show ?thesis by (auto simp: rearmed_def due_def not_le)
next
  case False
  then show ?thesis
    using eventRead_nothing [of q t clk clk'] assms(1,2,5) by fastforce
qed

theorem eventRead_clears_due_witness:
  "\<exists>q'. eventRead (\<lambda>_. Timestamp 20) (Timestamp 21) (Timestamp 15) demo_queue = Inr q' \<and>
     (\<forall>e \<in> set (timerLists q'). \<not> due (Timestamp 15) e)"
proof -
  obtain q' where q': "eventRead (\<lambda>_. Timestamp 20) (Timestamp 21) (Timestamp 15) demo_queue = Inr q'"
    using eventRead_expiry [OF demo_queue_inv, of "Timestamp 15" "\<lambda>_. Timestamp 20" "Timestamp 21"]
    by (auto simp: demo_queue_def due_def)
  have "\<forall>e \<in> set (timerLists q'). \<not> due (Timestamp 15) e"
  proof (rule eventRead_clears_due [OF demo_queue_inv _ _ _ q'])
    show "(Timestamp 90, 5) \<in> set (timerLists demo_queue)" "\<not> due (Timestamp 15) (Timestamp 90, 5)"
      by (simp_all add: demo_queue_def due_def)
    show "Timestamp 15 < expiration (restartTimer (Timestamp 20) tmr)"
      if "timers demo_queue p = Some tmr" "brepeat tmr" for p tmr
      using that by (auto simp: demo_queue_def new_Timer_def restartTimer_def split: if_splits)
  qed
  with q' show ?thesis by blast
qed

text \<open>
  C0. \<^verbatim>\<open>addTimer\<close> with a fresh timer and an instant after the epoch adds exactly one entry and keeps
  the set ordered and consistent; with an invalid instant \<^verbatim>\<open>insert\<close> deletes the timer and \<^verbatim>\<open>addTimer\<close>
  goes on to read it.
\<close>

theorem addTimer_correct:
  assumes "tq_inv q" and "timers q p = None" and "p < UINTPTR_MAX"
  shows "if valid time
     then \<exists>i q'. addTimer clk p time cb intv rep q = Inr ((i, p), q') \<and> tq_inv q' \<and>
       set (timerLists q') = insert (time, p) (set (timerLists q))
     else addTimer clk p time cb intv rep q = Inl UseAfterFree"
proof (cases "valid time")
  case True
  with addTimer_inv [OF assms, of time clk cb intv rep] show ?thesis by fastforce
next
  case False
  then show ?thesis
    by (simp add: addTimer_def indexCreate_def Let_def tq_insert_def new_Timer_def)
qed

theorem addTimer_correct_witness:
  "if valid (Timestamp 40)
   then \<exists>i q'. addTimer (Timestamp 3) 9 (Timestamp 40) ''once'' 0 False demo_queue = Inr ((i, 9), q') \<and> tq_inv q' \<and>
     set (timerLists q') = insert (Timestamp 40, 9) (set (timerLists demo_queue))
   else addTimer (Timestamp 3) 9 (Timestamp 40) ''once'' 0 False demo_queue = Inl UseAfterFree"
  by (rule addTimer_correct [OF demo_queue_inv]) (simp_all add: demo_queue_def UINTPTR_MAX_def)

text \<open>
  After \<^verbatim>\<open>delTimerInLoop\<close> no entry of the timer is left, every other timer is as before, and the
  set is still consistent.
\<close>

theorem delTimer_correct:
  assumes "tq_inv q"
  shows "tq_inv (delTimerInLoop clk (i, p) q) \<and>
     set (timerLists (delTimerInLoop clk (i, p) q)) = {e \<in> set (timerLists q). snd e \<noteq> p} \<and>
     (\<forall>p'. p' \<noteq> p \<longrightarrow> timers (delTimerInLoop clk (i, p) q) p' = timers q p')"
  using assms by (rule delTimerInLoop_spec)

theorem delTimer_correct_witness:
  "tq_inv (delTimerInLoop (Timestamp 3) (1, 7) demo_queue) \<and>
     set (timerLists (delTimerInLoop (Timestamp 3) (1, 7) demo_queue)) = {e \<in> set (timerLists demo_queue). snd e \<noteq> 7} \<and>
     timers (delTimerInLoop (Timestamp 3) (1, 7) demo_queue) 5 = timers demo_queue 5"
  using delTimer_correct [OF demo_queue_inv, of "Timestamp 3" 1 7] by simp

text \<open>
  The relative setting is always one the kernel accepts: at least 100 microseconds, with the
  nanoseconds below one second, and it never expires before the instant asked for.
\<close>

theorem howMuchTimeFromNow_valid:
  "case howMuchTimeFromNow clk when of
     AbsTime _ \<Rightarrow> False
   | RelTime s ns \<Rightarrow> 0 \<le> s \<and> 0 \<le> ns \<and> ns < 1000000000 \<and> 100000 \<le> s * 1000000000 + ns \<and>
       microsecondsSinceEpoch when * 1000 \<le> microsecondsSinceEpoch clk * 1000 + s * 1000000000 + ns"
proof -
  define us where "us = (if microsecondsSinceEpoch when - microsecondsSinceEpoch clk < 100 then 100
      else microsecondsSinceEpoch when - microsecondsSinceEpoch clk)"
  have us: "100 \<le> us" "microsecondsSinceEpoch when - microsecondsSinceEpoch clk \<le> us" by (auto simp: us_def)
  have s: "howMuchTimeFromNow clk when = RelTime (us div 1000000) (us mod 1000000 * 1000)"
    using us(1) by (simp add: howMuchTimeFromNow_def Let_def us_def [symmetric] csMicrosecondsPerSecond_def)
  have sum: "us div 1000000 * 1000000000 + us mod 1000000 * 1000 = us * 1000"
    using div_mult_mod_eq [of us 1000000] by linarith
  have "us mod 1000000 < 1000000" "0 \<le> us mod 1000000" by simp_all
  moreover have "0 \<le> us div 1000000" using us(1) by (simp add: pos_imp_zdiv_nonneg_iff)
  ultimately show ?thesis using us sum by (simp add: s)
qed

end
