(* ===== verification/ReactorApi.thy ===== *)
theory ReactorApi
  imports PollSet Timers SocketOps
begin

text \<open>
  The rest of \<^verbatim>\<open>base/Reactor.cpp\<close>: building and destroying the object, its calls into the poller, running a
  function at once or as a task, and the timer interface on top of \<^verbatim>\<open>TimerQueue\<close>. The task queue itself is
  in \<^verbatim>\<open>ReactorLoop\<close>. The methods of \<^verbatim>\<open>EventHandler\<close> that go through the reactor, its destructor included, are
  here as operations on handler objects, with the contract their owners rely on.
\<close>

section \<open>The object\<close>

text \<open>
  \<open>poller\<close> is \<open>None\<close> for a null pointer; \<open>handlers\<close> is the heap of event handlers, among them the one of the
  wake-up descriptor; \<open>timerEvs\<close> are the addresses of the handlers inside the timer queues; \<open>queue\<close> the
  tasks not yet run and \<open>done_now\<close> those that ran at once.
\<close>

record ('cb, 'task) ReactorObj =
  poller :: "SelectPoller option"
  handlers :: heap
  taskHandler :: "nat option"
  timersList :: "'cb TimerQueue list"
  timerEvs :: "nat list"
  queue :: "'task list"
  done_now :: "'task list"

definition loop_registerEvHandler :: "nat option \<Rightarrow> ('cb, 'task) ReactorObj \<Rightarrow> ('cb, 'task) ReactorObj res" where
  "loop_registerEvHandler h r =
     (case poller r of
        None \<Rightarrow> Inl NullDeref
      | Some p \<Rightarrow> res_bind (registerEvHandler (handlers r) h p) (\<lambda>p. Inr (r\<lparr>poller := Some p\<rparr>)))"

definition loop_removeEvHandler :: "nat \<Rightarrow> ('cb, 'task) ReactorObj \<Rightarrow> ('cb, 'task) ReactorObj res" where
  "loop_removeEvHandler h r =
     (case poller r of
        None \<Rightarrow> Inl NullDeref
      | Some p \<Rightarrow> res_bind (removeEvHandler (handlers r) h p) (\<lambda>p. Inr (r\<lparr>poller := Some p\<rparr>)))"

section \<open>Handler objects\<close>

text \<open>
  \<^verbatim>\<open>EventHandler::update\<close> and \<^verbatim>\<open>remove\<close>; the functions that change the mask, which all end in \<^verbatim>\<open>update\<close>; the
  destructor.
\<close>

definition ev_update :: "nat \<Rightarrow> ('cb, 'task) ReactorObj \<Rightarrow> ('cb, 'task) ReactorObj res" where
  "ev_update ptr r = loop_registerEvHandler (Some ptr) r"

definition ev_remove :: "nat \<Rightarrow> ('cb, 'task) ReactorObj \<Rightarrow> ('cb, 'task) ReactorObj res" where
  "ev_remove ptr r = loop_removeEvHandler ptr r"

definition ev_change ::
    "(EventHandler \<Rightarrow> EventHandler) \<Rightarrow> nat \<Rightarrow> ('cb, 'task) ReactorObj \<Rightarrow> ('cb, 'task) ReactorObj res" where
  "ev_change f ptr r =
     (case handlers r ptr of
        None \<Rightarrow> Inl UseAfterFree
      | Some h \<Rightarrow> ev_update ptr (r\<lparr>handlers := (handlers r)(ptr \<mapsto> f h)\<rparr>))"

definition delete_EventHandler :: "nat \<Rightarrow> ('cb, 'task) ReactorObj \<Rightarrow> ('cb, 'task) ReactorObj res" where
  "delete_EventHandler ptr r =
     res_bind (ev_change set_disableAll ptr r) (\<lambda>r.
     res_bind (ev_remove ptr r) (\<lambda>r. Inr (r\<lparr>handlers := (handlers r)(ptr := None)\<rparr>)))"

section \<open>Construction and destruction\<close>

text \<open>A failed \<^verbatim>\<open>timerfd_create\<close> goes unnoticed: the descriptor is -1.\<close>

definition createTimerfd :: "errno + int \<Rightarrow> int" where
  "createTimerfd r = (case r of Inl _ \<Rightarrow> - 1 | Inr f \<Rightarrow> f)"

text \<open>
  The constructor: the handler at \<open>ptr\<close> watches the wake-up descriptor, which goes through the poller, and
  then the timer queue is made, whose handler at \<open>tev\<close> watches the timer descriptor. \<open>evfd\<close> and \<open>tfd\<close> are the
  answers of \<^verbatim>\<open>eventfd\<close> and \<^verbatim>\<open>timerfd_create\<close>.
\<close>

definition reactor_ctor ::
    "bool \<Rightarrow> int \<Rightarrow> errno + int \<Rightarrow> nat \<Rightarrow> nat \<Rightarrow> Timestamp \<Rightarrow> Timestamp \<Rightarrow> nat \<Rightarrow> 'cb \<Rightarrow> bool \<Rightarrow> int
     \<Rightarrow> ('cb, 'task) ReactorObj res" where
  "reactor_ctor use_epoll evfd tfd ptr tev clk clk' tptr defaultTimerCallback setup idx =
     c_assert (0 \<le> evfd)
       (let r = \<lparr>poller = createPoller use_epoll, handlers = (\<lambda>_. None)(ptr \<mapsto> new_EventHandler evfd), taskHandler = Some ptr,
                 timersList = [], timerEvs = [], queue = [], done_now = []\<rparr> in
        res_bind (ev_change set_enableRead ptr r) (\<lambda>r.
        let r = r\<lparr>handlers := (\<lambda>p. if p = ptr then map_option (\<lambda>h. h\<lparr>readCallback := True\<rparr>) (handlers r p)
                                   else if p = tev then Some ((new_EventHandler (createTimerfd tfd))\<lparr>readCallback := True\<rparr>)
                                   else handlers r p)\<rparr> in
        res_bind (ev_change set_enableRead tev r) (\<lambda>r.
        res_bind (new_TimerQueue clk clk' tptr defaultTimerCallback setup idx) (\<lambda>q.
          Inr (r\<lparr>timersList := timersList r @ [q], timerEvs := timerEvs r @ [tev]\<rparr>)))))"

text \<open>
  The destructor: the timer queues and tasks go, then the handler of the wake-up descriptor, then the
  poller. \<^verbatim>\<open>~TimerQueue\<close> removes its handler, and the handler's own destructor, which runs after it,
  registers and removes it once more.
\<close>

fun delete_timer_queues :: "nat list \<Rightarrow> ('cb, 'task) ReactorObj \<Rightarrow> ('cb, 'task) ReactorObj res" where
  "delete_timer_queues [] r = Inr (r\<lparr>timersList := [], timerEvs := []\<rparr>)"
| "delete_timer_queues (tev # tevs) r =
     res_bind (ev_change set_disableAll tev r) (\<lambda>r.
     res_bind (ev_remove tev r) (\<lambda>r.
     res_bind (delete_EventHandler tev r) (delete_timer_queues tevs)))"

definition reactor_dtor :: "('cb, 'task) ReactorObj \<Rightarrow> ('cb, 'task) ReactorObj res" where
  "reactor_dtor r =
     res_bind (delete_timer_queues (timerEvs r) r) (\<lambda>r.
     let r = r\<lparr>queue := []\<rparr> in
     res_bind (case taskHandler r of None \<Rightarrow> Inr r | Some ptr \<Rightarrow> delete_EventHandler ptr r) (\<lambda>r.
       Inr (r\<lparr>taskHandler := None, poller := None\<rparr>)))"

definition runInLoop :: "bool \<Rightarrow> 'task \<Rightarrow> ('cb, 'task) ReactorObj \<Rightarrow> ('cb, 'task) ReactorObj" where
  "runInLoop in_loop f r = (if in_loop then r\<lparr>done_now := done_now r @ [f]\<rparr> else r\<lparr>queue := queue r @ [f]\<rparr>)"

section \<open>Timers\<close>

text \<open>All of them use the first timer queue, \<^verbatim>\<open>timersList_[0]\<close>. \<open>clk\<close> and \<open>clk'\<close> are readings of the clock.\<close>

definition on_timers ::
    "('cb TimerQueue \<Rightarrow> ('a \<times> 'cb TimerQueue) res) \<Rightarrow> ('cb, 'task) ReactorObj \<Rightarrow> ('a \<times> ('cb, 'task) ReactorObj) res" where
  "on_timers f r =
     (case timersList r of
        [] \<Rightarrow> Inl OutOfBounds
      | q # qs \<Rightarrow> res_bind (f q) (\<lambda>(a, q). Inr (a, r\<lparr>timersList := q # qs\<rparr>)))"

definition runAt ::
    "Timestamp \<Rightarrow> nat \<Rightarrow> Timestamp \<Rightarrow> 'cb \<Rightarrow> ('cb, 'task) ReactorObj \<Rightarrow> ((int \<times> nat) \<times> ('cb, 'task) ReactorObj) res" where
  "runAt clk p time cb = on_timers (addTimer clk p time cb 0 False)"

definition runAt_timer ::
    "Timestamp \<Rightarrow> nat option \<Rightarrow> ('cb, 'task) ReactorObj \<Rightarrow> ((int \<times> nat) \<times> ('cb, 'task) ReactorObj) res" where
  "runAt_timer clk tm r = (case tm of None \<Rightarrow> Inl NullDeref | Some p \<Rightarrow> on_timers (addTimer_ptr clk (Some p)) r)"

definition runDelay ::
    "Timestamp \<Rightarrow> Timestamp \<Rightarrow> nat \<Rightarrow> rat \<Rightarrow> 'cb \<Rightarrow> ('cb, 'task) ReactorObj \<Rightarrow> ((int \<times> nat) \<times> ('cb, 'task) ReactorObj) res" where
  "runDelay clk clk' p delay cb = runAt clk' p (addSeconds clk delay) cb"

definition runEvery ::
    "Timestamp \<Rightarrow> Timestamp \<Rightarrow> nat \<Rightarrow> rat \<Rightarrow> 'cb \<Rightarrow> ('cb, 'task) ReactorObj \<Rightarrow> ((int \<times> nat) \<times> ('cb, 'task) ReactorObj) res" where
  "runEvery clk clk' p intv cb = on_timers (addTimer clk' p (addSeconds clk intv) cb intv True)"

text \<open>\<^verbatim>\<open>delTimer\<close> runs \<^verbatim>\<open>delTimerInLoop\<close> on the loop thread: at once, or later as a task.\<close>

datatype timer_task = DelTimer "int \<times> nat"

definition cancelTimer ::
    "bool \<Rightarrow> Timestamp \<Rightarrow> int \<times> nat \<Rightarrow> ('cb, timer_task) ReactorObj \<Rightarrow> ('cb, timer_task) ReactorObj res" where
  "cancelTimer in_loop clk tid r =
     (case timersList r of
        [] \<Rightarrow> Inl OutOfBounds
      | q # qs \<Rightarrow>
          Inr (if in_loop then r\<lparr>timersList := delTimerInLoop clk tid q # qs\<rparr>
               else runInLoop False (DelTimer tid) r))"

section \<open>Handlers and the poll set\<close>

text \<open>
  The poll set has, for every handler, exactly its mask, once it has been registered; its pointers lead to
  live handlers; and no two live handlers have the same descriptor.
\<close>

definition masks_ok :: "heap \<Rightarrow> (int \<Rightarrow> ushort option) \<Rightarrow> bool" where
  "masks_ok H m \<longleftrightarrow> (\<forall>p h. H p = Some h \<longrightarrow>
     m (fd h) = Some (ucast (events h)) \<or> m (fd h) = None \<and> events h = csEventNone)"

definition fds_apart :: "heap \<Rightarrow> bool" where
  "fds_apart H \<longleftrightarrow> (\<forall>p q h k. H p = Some h \<longrightarrow> H q = Some k \<longrightarrow> fd h = fd k \<longrightarrow> p = q)"

definition reg_inv :: "('cb, 'task) ReactorObj \<Rightarrow> bool" where
  "reg_inv r \<longleftrightarrow>
     (case poller r of
        None \<Rightarrow> False
      | Some ps \<Rightarrow> poller_inv ps \<and> heap_ok (handlers r) ps \<and> masks_ok (handlers r) (watch ps) \<and> fds_apart (handlers r))"

definition interest :: "('cb, 'task) ReactorObj \<Rightarrow> int \<Rightarrow> ushort option" where
  "interest r = (case poller r of None \<Rightarrow> Map.empty | Some ps \<Rightarrow> watch ps)"

lemma reg_invD:
  assumes "reg_inv r"
  obtains ps where "poller r = Some ps" and "poller_inv ps" and "interest r = watch ps" and "heap_ok (handlers r) ps"
    and "masks_ok (handlers r) (watch ps)" and "fds_apart (handlers r)"
proof (cases "poller r")
  case None
  with assms show ?thesis by (simp add: reg_inv_def)
next
  case (Some ps)
  with assms show ?thesis by (intro that [of ps]) (simp_all add: reg_inv_def interest_def)
qed

lemma fds_apart_upd:
  assumes "fds_apart H" and "H p = Some h" and "fd k = fd h"
  shows "fds_apart (H(p \<mapsto> k))" "fds_apart (H(p := None))"
proof -
  show "fds_apart (H(p := None))" using assms(1) by (auto simp: fds_apart_def)
  show "fds_apart (H(p \<mapsto> k))" unfolding fds_apart_def
  proof (intro allI impI)
    fix q q' g g' assume *: "(H(p \<mapsto> k)) q = Some g" "(H(p \<mapsto> k)) q' = Some g'" "fd g = fd g'"
    have "\<exists>g. H q = Some g \<and> fd g = fd x" if "(H(p \<mapsto> k)) q = Some x" for q x
      using that assms(2,3) by (auto split: if_splits)
    from this [OF *(1)] this [OF *(2)] *(3) assms(1) show "q = q'" unfolding fds_apart_def by metis
  qed
qed

lemma masks_ok_other:
  assumes "masks_ok H m" and "fds_apart H" and "H p = Some h" and "H q = Some k" and "q \<noteq> p"
  shows "(m(fd h := x)) (fd k) = Some (ucast (events k)) \<or> (m(fd h := x)) (fd k) = None \<and> events k = csEventNone"
proof -
  have "fd k \<noteq> fd h" using assms unfolding fds_apart_def by metis
  with assms(1,4) show ?thesis by (simp add: masks_ok_def)
qed

lemma masks_ok_upd:
  assumes "masks_ok H m" and "fds_apart H" and "H p = Some h" and "fd k = fd h"
  shows "masks_ok (H(p \<mapsto> k)) (m(fd h \<mapsto> ucast (events k)))" "masks_ok (H(p := None)) (m(fd h := None))"
    "events h = csEventNone \<Longrightarrow> masks_ok H (m(fd h := None))"
proof -
  show "masks_ok (H(p \<mapsto> k)) (m(fd h \<mapsto> ucast (events k)))" "masks_ok (H(p := None)) (m(fd h := None))"
    using masks_ok_other [OF assms(1-3)] assms(3,4) unfolding masks_ok_def by (auto split: if_splits)
  show "masks_ok H (m(fd h := None))" if "events h = csEventNone" unfolding masks_ok_def
  proof (intro allI impI)
    fix q g assume "H q = Some g"
    with masks_ok_other [OF assms(1-3) this, of None] that assms(3)
    show "(m(fd h := None)) (fd g) = Some (ucast (events g)) \<or> (m(fd h := None)) (fd g) = None \<and> events g = csEventNone"
      by (cases "q = p") auto
  qed
qed

lemma reg_unregistered:
  assumes "reg_inv r" and "\<And>p h. handlers r p = Some h \<Longrightarrow> fd h \<noteq> f"
  shows "interest r f = None"
proof -
  from assms(1) obtain ps where ps: "interest r = watch ps" "poller_inv ps" "heap_ok (handlers r) ps" by (rule reg_invD)
  have "evHandlers ps f = None" using ps(3) assms(2) unfolding heap_ok_def by (metis option.exhaust)
  then show ?thesis using watch_dom [OF ps(2)] ps(1) by (metis domIff)
qed

text \<open>A new handler, a change of the mask, and the end of a handler.\<close>

lemma reg_inv_new:
  assumes "reg_inv r" and "handlers r p = None" and "\<And>q h. handlers r q = Some h \<Longrightarrow> fd h \<noteq> fd e" and "events e = csEventNone"
  shows "reg_inv (r\<lparr>handlers := (handlers r)(p \<mapsto> e)\<rparr>)"
proof -
  from assms(1) obtain ps where ps: "poller r = Some ps" "poller_inv ps" "interest r = watch ps" "heap_ok (handlers r) ps"
    "masks_ok (handlers r) (watch ps)" "fds_apart (handlers r)"
    by (rule reg_invD)
  have "watch ps (fd e) = None" using reg_unregistered [OF assms(1,3)] ps(3) by simp
  then have "masks_ok ((handlers r)(p \<mapsto> e)) (watch ps)" using ps(5) assms(4) by (simp add: masks_ok_def)
  moreover have "heap_ok ((handlers r)(p \<mapsto> e)) ps" using ps(4) assms(2) by (fastforce simp: heap_ok_def)
  moreover have "fds_apart ((handlers r)(p \<mapsto> e))" unfolding fds_apart_def
  proof (intro allI impI)
    fix q q' g g' assume "((handlers r)(p \<mapsto> e)) q = Some g" "((handlers r)(p \<mapsto> e)) q' = Some g'" "fd g = fd g'"
    with ps(6) assms(3) show "q = q'" by (cases "q = p"; cases "q' = p") (fastforce simp: fds_apart_def)+
  qed
  ultimately show ?thesis using ps(1,2) by (simp add: reg_inv_def)
qed

lemma ev_change_law:
  assumes "reg_inv r" and "handlers r p = Some h" and "fd (f h) = fd h"
  shows "\<exists>ps. ev_change f p r = Inr (r\<lparr>handlers := (handlers r)(p \<mapsto> f h), poller := Some ps\<rparr>) \<and>
     reg_inv (r\<lparr>handlers := (handlers r)(p \<mapsto> f h), poller := Some ps\<rparr>) \<and>
     watch ps = (interest r)(fd h \<mapsto> ucast (events (f h)))"
proof -
  from assms(1) obtain ps where ps: "poller r = Some ps" "poller_inv ps" "interest r = watch ps" "heap_ok (handlers r) ps"
    "masks_ok (handlers r) (watch ps)" "fds_apart (handlers r)"
    by (rule reg_invD)
  let ?H = "(handlers r)(p \<mapsto> f h)"
  from register_watch [OF ps(2), of ?H p "f h"] assms(3) obtain ps' where
    ps': "registerEvHandler ?H (Some p) ps = Inr ps'" "poller_inv ps'" "watch ps' = (watch ps)(fd h \<mapsto> ucast (events (f h)))"
      "evHandlers ps' = (if evHandlers ps (fd h) = None then (evHandlers ps)(fd h \<mapsto> p) else evHandlers ps)"
    by auto
  have "heap_ok ?H ps'" using ps(4) ps'(4) assms(2,3) by (fastforce simp: heap_ok_def split: if_splits)
  then have "reg_inv (r\<lparr>handlers := ?H, poller := Some ps'\<rparr>)"
    using ps'(2,3) masks_ok_upd(1) [OF ps(5,6) assms(2,3)] fds_apart_upd(1) [OF ps(6) assms(2,3)]
    by (simp add: reg_inv_def)
  moreover have "ev_change f p r = Inr (r\<lparr>handlers := ?H, poller := Some ps'\<rparr>)"
    using ps(1) ps'(1) assms(2) by (simp add: ev_change_def ev_update_def loop_registerEvHandler_def)
  ultimately show ?thesis using ps'(3) ps(3) by (intro exI [of _ ps']) simp
qed

lemma ev_remove_law:
  assumes "reg_inv r" and "handlers r p = Some h"
  shows "\<exists>ps. ev_remove p r = Inr (r\<lparr>poller := Some ps\<rparr>) \<and> watch ps = (interest r)(fd h := None) \<and>
     reg_inv (r\<lparr>handlers := (handlers r)(p := None), poller := Some ps\<rparr>) \<and>
     (events h = csEventNone \<longrightarrow> reg_inv (r\<lparr>poller := Some ps\<rparr>))"
proof -
  from assms(1) obtain ps where ps: "poller r = Some ps" "poller_inv ps" "interest r = watch ps" "heap_ok (handlers r) ps"
    "masks_ok (handlers r) (watch ps)" "fds_apart (handlers r)"
    by (rule reg_invD)
  from remove_watch [of ps "handlers r" p h] ps(2) assms(2) obtain ps' where
    ps': "removeEvHandler (handlers r) p ps = Inr ps'" "poller_inv ps'" "watch ps' = (watch ps)(fd h := None)"
      "evHandlers ps' = (evHandlers ps)(fd h := None)"
    by auto
  have "ev_remove p r = Inr (r\<lparr>poller := Some ps'\<rparr>)"
    using ps(1) ps'(1) by (simp add: ev_remove_def loop_removeEvHandler_def)
  moreover have "heap_ok ((handlers r)(p := None)) ps'" "heap_ok (handlers r) ps'"
    using ps(4) ps'(4) assms(2) by (fastforce simp: heap_ok_def split: if_splits)+
  then have "reg_inv (r\<lparr>handlers := (handlers r)(p := None), poller := Some ps'\<rparr>)"
    "events h = csEventNone \<longrightarrow> reg_inv (r\<lparr>poller := Some ps'\<rparr>)"
    using ps'(2,3) ps(6) masks_ok_upd [OF ps(5,6) assms(2), of h] fds_apart_upd [OF ps(6) assms(2), of h]
    by (simp_all add: reg_inv_def)
  ultimately show ?thesis using ps'(3) ps(3) by (intro exI [of _ ps']) simp
qed

lemma delete_EventHandler_law:
  assumes "reg_inv r" and "handlers r p = Some h"
  shows "\<exists>ps. delete_EventHandler p r = Inr (r\<lparr>handlers := (handlers r)(p := None), poller := Some ps\<rparr>) \<and>
     reg_inv (r\<lparr>handlers := (handlers r)(p := None), poller := Some ps\<rparr>) \<and> watch ps = (interest r)(fd h := None)"
proof -
  have fd: "fd (set_disableAll h) = fd h" by (simp add: set_disableAll_def)
  from ev_change_law [OF assms, of set_disableAll, OF fd] obtain ps where
    ps: "ev_change set_disableAll p r = Inr (r\<lparr>handlers := (handlers r)(p \<mapsto> set_disableAll h), poller := Some ps\<rparr>)"
      "reg_inv (r\<lparr>handlers := (handlers r)(p \<mapsto> set_disableAll h), poller := Some ps\<rparr>)"
      "watch ps = (interest r)(fd h \<mapsto> ucast (events (set_disableAll h)))"
    by blast
  from ev_remove_law [OF ps(2), of p "set_disableAll h"] fd obtain ps' where
    ps': "ev_remove p (r\<lparr>handlers := (handlers r)(p \<mapsto> set_disableAll h), poller := Some ps\<rparr>) =
        Inr (r\<lparr>handlers := (handlers r)(p \<mapsto> set_disableAll h), poller := Some ps'\<rparr>)"
      "watch ps' = (watch ps)(fd h := None)"
      "reg_inv (r\<lparr>handlers := (handlers r)(p := None), poller := Some ps'\<rparr>)"
    by (auto simp: interest_def)
  show ?thesis using ps(1,3) ps' by (intro exI [of _ ps']) (simp add: delete_EventHandler_def)
qed

text \<open>
  What the owner of a handler relies on, whatever it is (connection, acceptor, connector): each change of
  the mask and the end of the handler is seen by the poll set, for this descriptor and no other. An owner
  leaves a trace of such calls.
\<close>

datatype handler_op = Mask uint32 | Gone

fun outcome :: "handler_op list \<Rightarrow> EventHandler \<Rightarrow> EventHandler option" where
  "outcome [] h = Some h"
| "outcome (Mask m # ops) h = outcome ops (h\<lparr>events := m\<rparr>)"
| "outcome (Gone # ops) h = None"

locale registry =
  fixes upd :: "uint32 \<Rightarrow> nat \<Rightarrow> 'r \<Rightarrow> 'r res"
    and del :: "nat \<Rightarrow> 'r \<Rightarrow> 'r res"
    and rinv :: "'r \<Rightarrow> bool"
    and obj :: "'r \<Rightarrow> nat \<Rightarrow> EventHandler option"
    and wants :: "'r \<Rightarrow> int \<Rightarrow> ushort option"
  assumes upd_law: "rinv r \<Longrightarrow> obj r p = Some h \<Longrightarrow>
      \<exists>r'. upd m p r = Inr r' \<and> rinv r' \<and> obj r' = (obj r)(p \<mapsto> h\<lparr>events := m\<rparr>) \<and> wants r' = (wants r)(fd h \<mapsto> ucast m)"
    and del_law: "rinv r \<Longrightarrow> obj r p = Some h \<Longrightarrow>
      \<exists>r'. del p r = Inr r' \<and> rinv r' \<and> obj r' = (obj r)(p := None) \<and> wants r' = (wants r)(fd h := None)"
begin

fun replay :: "nat \<Rightarrow> handler_op list \<Rightarrow> 'r \<Rightarrow> 'r res" where
  "replay p [] r = Inr r"
| "replay p (Mask m # ops) r = res_bind (upd m p r) (replay p ops)"
| "replay p (Gone # ops) r = res_bind (del p r) (replay p ops)"

lemma replay_law:
  assumes "rinv r" and "obj r p = Some h" and "Gone \<notin> set (butlast ops)"
  shows "\<exists>r'. replay p ops r = Inr r' \<and> rinv r' \<and> obj r' = (obj r)(p := outcome ops h) \<and>
     wants r' = (wants r)(fd h := if ops = [] then wants r (fd h) else map_option (\<lambda>h. ucast (events h)) (outcome ops h))"
  using assms
proof (induction ops arbitrary: r h)
  case (Cons a ops)
  show ?case
  proof (cases a)
    case (Mask m)
    from upd_law [OF Cons.prems(1,2), of m] obtain r' where
      r': "upd m p r = Inr r'" "rinv r'" "obj r' = (obj r)(p \<mapsto> h\<lparr>events := m\<rparr>)" "wants r' = (wants r)(fd h \<mapsto> ucast m)"
      by blast
    have "Gone \<notin> set (butlast ops)" using Cons.prems(3) by (auto split: if_splits)
    moreover have "obj r' p = Some (h\<lparr>events := m\<rparr>)" using r'(3) by simp
    ultimately obtain r'' where
      r'': "replay p ops r' = Inr r''" "rinv r''" "obj r'' = (obj r')(p := outcome ops (h\<lparr>events := m\<rparr>))"
      "wants r'' = (wants r')(fd (h\<lparr>events := m\<rparr>) := if ops = [] then wants r' (fd (h\<lparr>events := m\<rparr>))
         else map_option (\<lambda>h. ucast (events h)) (outcome ops (h\<lparr>events := m\<rparr>)))"
      using Cons.IH [OF r'(2), of "h\<lparr>events := m\<rparr>"] by blast
    have "obj r'' = (obj r)(p := outcome (a # ops) h)" using r''(3) r'(3) Mask by simp
    moreover have "wants r'' = (wants r)(fd h := map_option (\<lambda>h. ucast (events h)) (outcome (a # ops) h))"
      using r''(4) r'(4) Mask by (cases "ops = []") simp_all
    ultimately show ?thesis using r'(1) r''(1,2) Mask by (intro exI [of _ r'']) simp
  next
    case Gone
    with Cons.prems(3) have "ops = []" by (auto split: if_splits)
    with del_law [OF Cons.prems(1,2)] Gone show ?thesis by auto
  qed
qed (auto simp: fun_upd_idem)

end

definition set_events :: "uint32 \<Rightarrow> EventHandler \<Rightarrow> EventHandler" where
  "set_events m h = h\<lparr>events := m\<rparr>"

interpretation rx: registry "\<lambda>m. ev_change (set_events m)" delete_EventHandler reg_inv handlers interest
proof unfold_locales
  fix r :: "('a, 'b) ReactorObj" and p h m
  assume "reg_inv r" and "handlers r p = Some h"
  from ev_change_law [OF this, of "set_events m"]
  show "\<exists>r'. ev_change (set_events m) p r = Inr r' \<and> reg_inv r' \<and> handlers r' = (handlers r)(p \<mapsto> h\<lparr>events := m\<rparr>) \<and>
      interest r' = (interest r)(fd h \<mapsto> ucast m)"
    by (auto simp: set_events_def interest_def)
next
  fix r :: "('a, 'b) ReactorObj" and p h
  assume "reg_inv r" and "handlers r p = Some h"
  from delete_EventHandler_law [OF this]
  show "\<exists>r'. delete_EventHandler p r = Inr r' \<and> reg_inv r' \<and> handlers r' = (handlers r)(p := None) \<and>
      interest r' = (interest r)(fd h := None)"
    by (auto simp: interest_def)
qed

definition handler_trace :: "nat \<Rightarrow> handler_op list \<Rightarrow> ('cb, 'task) ReactorObj \<Rightarrow> ('cb, 'task) ReactorObj res" where
  "handler_trace p ops r = rx.replay p ops r"

lemma handler_trace_simps [simp]:
  "handler_trace p [] r = Inr r"
  "handler_trace p (Mask m # ops) r = res_bind (ev_change (set_events m) p r) (handler_trace p ops)"
  "handler_trace p (Gone # ops) r = res_bind (delete_EventHandler p r) (handler_trace p ops)"
  unfolding handler_trace_def by simp_all

lemmas handler_trace_law = rx.replay_law [folded handler_trace_def]

text \<open>
  A reactor comes up watching its two descriptors for input, and its destructor takes every handler of its
  own out of the poll set.
\<close>

lemma reg_inv_cong: "poller r' = poller r \<Longrightarrow> handlers r' = handlers r \<Longrightarrow> reg_inv r' = reg_inv r"
  by (simp add: reg_inv_def split: option.split)

lemma reg_inv_callbacks:
  assumes "reg_inv r" and "handlers r p = Some h" and "fd k = fd h" and "events k = events h"
  shows "reg_inv (r\<lparr>handlers := (handlers r)(p \<mapsto> k)\<rparr>)"
proof -
  from assms(1) obtain ps where ps: "poller r = Some ps" "poller_inv ps" "heap_ok (handlers r) ps"
    "masks_ok (handlers r) (watch ps)" "fds_apart (handlers r)"
    by (rule reg_invD)
  have "heap_ok ((handlers r)(p \<mapsto> k)) ps" using ps(3) assms(2,3) by (fastforce simp: heap_ok_def)
  moreover have "masks_ok ((handlers r)(p \<mapsto> k)) (watch ps)" using ps(4) assms(2-4) by (auto simp: masks_ok_def)
  ultimately show ?thesis using ps fds_apart_upd(1) [OF ps(5) assms(2,3)] by (simp add: reg_inv_def)
qed

lemma reg_inv_start:
  assumes "poller r = Some new_SelectPoller" and "handlers r = [p \<mapsto> new_EventHandler f]"
  shows "reg_inv r"
proof -
  have "heap_ok (handlers r) new_SelectPoller" by (simp add: heap_ok_def new_SelectPoller_def)
  moreover have "masks_ok (handlers r) (watch new_SelectPoller)"
    using assms(2) by (simp add: masks_ok_def new_EventHandler_def csEventNone_def)
  moreover have "fds_apart (handlers r)" using assms(2) by (simp add: fds_apart_def)
  ultimately show ?thesis using assms(1) by (simp add: reg_inv_def)
qed

lemma enableRead_new:
  assumes "events h = csEventNone" and "reg_inv r" and "handlers r p = Some h"
  shows "\<exists>ps. ev_change set_enableRead p r = Inr (r\<lparr>handlers := (handlers r)(p \<mapsto> set_enableRead h), poller := Some ps\<rparr>) \<and>
     reg_inv (r\<lparr>handlers := (handlers r)(p \<mapsto> set_enableRead h), poller := Some ps\<rparr>) \<and>
     watch ps = (interest r)(fd h \<mapsto> ucast csEventRead)"
proof -
  have "fd (set_enableRead h) = fd h" "events (set_enableRead h) = csEventRead"
    using assms(1) by (simp_all add: set_enableRead_def csEventNone_def)
  with ev_change_law [OF assms(2,3), of set_enableRead] show ?thesis by metis
qed

lemma reactor_ctor_ok:
  assumes "0 \<le> evfd" and "evfd \<noteq> createTimerfd tfd" and "ptr \<noteq> tev" and "tptr < UINTPTR_MAX" and "valid clk"
  shows "\<exists>r. reactor_ctor False evfd tfd ptr tev clk clk' tptr cb setup idx = Inr r \<and> reg_inv r \<and>
     interest r = [evfd \<mapsto> ucast csEventRead, createTimerfd tfd \<mapsto> ucast csEventRead] \<and>
     dom (handlers r) = {ptr, tev} \<and> taskHandler r = Some ptr \<and> timerEvs r = [tev] \<and>
     (\<forall>p h. handlers r p = Some h \<longrightarrow> fd h = evfd \<or> fd h = createTimerfd tfd)"
proof -
  let ?h = "new_EventHandler evfd" and ?h1 = "(set_enableRead (new_EventHandler evfd))\<lparr>readCallback := True\<rparr>"
  let ?k = "(new_EventHandler (createTimerfd tfd))\<lparr>readCallback := True\<rparr>"
  define r0 where "r0 = \<lparr>poller = createPoller False, handlers = (\<lambda>_. None)(ptr \<mapsto> ?h), taskHandler = Some ptr,
      timersList = [] :: 'a TimerQueue list, timerEvs = [], queue = [] :: 'b list, done_now = []\<rparr>"
  have none: "events ?h = csEventNone" "events ?k = csEventNone" "fd ?h = evfd" "fd ?k = createTimerfd tfd"
    "fd ?h1 = evfd" by (simp_all add: new_EventHandler_def csEventNone_def set_enableRead_def)
  have "reg_inv r0" by (rule reg_inv_start) (simp_all add: r0_def createPoller_def)
  moreover have "handlers r0 = [ptr \<mapsto> ?h]" "interest r0 = Map.empty"
    by (simp_all add: r0_def interest_def createPoller_def)
  ultimately obtain ps where ps:
    "ev_change set_enableRead ptr r0 = Inr (r0\<lparr>handlers := [ptr \<mapsto> set_enableRead ?h], poller := Some ps\<rparr>)"
    "reg_inv (r0\<lparr>handlers := [ptr \<mapsto> set_enableRead ?h], poller := Some ps\<rparr>)" "watch ps = [evfd \<mapsto> ucast csEventRead]"
    using enableRead_new [OF none(1), of r0 ptr] none(3) by auto
  define r1 where "r1 = r0\<lparr>poller := Some ps, handlers := [ptr \<mapsto> ?h1]\<rparr>"
  have "reg_inv r1"
    using reg_inv_callbacks [OF ps(2), of ptr "set_enableRead ?h" ?h1] by (simp add: r1_def)
  moreover have "handlers r1 = [ptr \<mapsto> ?h1]" by (simp add: r1_def)
  ultimately have inv: "reg_inv (r1\<lparr>handlers := (handlers r1)(tev \<mapsto> ?k)\<rparr>)"
    using assms(2,3) none by (intro reg_inv_new) (auto split: if_splits)
  let ?r = "r0\<lparr>handlers := [ptr \<mapsto> set_enableRead ?h], poller := Some ps\<rparr>"
  have "(\<lambda>p. if p = ptr then map_option (\<lambda>h. h\<lparr>readCallback := True\<rparr>) (handlers ?r p)
      else if p = tev then Some ?k else handlers ?r p) = (handlers r1)(tev \<mapsto> ?k)"
    using assms(3) by (auto simp: fun_eq_iff r1_def)
  then have H: "?r\<lparr>handlers := (\<lambda>p. if p = ptr then map_option (\<lambda>h. h\<lparr>readCallback := True\<rparr>) (handlers ?r p)
      else if p = tev then Some ?k else handlers ?r p)\<rparr> = r1\<lparr>handlers := (handlers r1)(tev \<mapsto> ?k)\<rparr>"
    by (simp add: r1_def)
  obtain ps' where ps': "ev_change set_enableRead tev (r1\<lparr>handlers := (handlers r1)(tev \<mapsto> ?k)\<rparr>) =
      Inr (r1\<lparr>handlers := (handlers r1)(tev \<mapsto> set_enableRead ?k), poller := Some ps'\<rparr>)"
    "reg_inv (r1\<lparr>handlers := (handlers r1)(tev \<mapsto> set_enableRead ?k), poller := Some ps'\<rparr>)"
    "watch ps' = (watch ps)(createTimerfd tfd \<mapsto> ucast csEventRead)"
    using enableRead_new [OF none(2) inv, of tev] none(4) by (auto simp: interest_def r1_def)
  have "valid (addSeconds clk (24 * 3600 * 365))"
    using addSeconds_at_least [of "24 * 3600 * 365" clk] assms(5) by (simp add: valid_def less_eq_Timestamp_def)
  then obtain q where q: "new_TimerQueue clk clk' tptr cb setup idx = Inr q"
    using addTimer_inv [of "\<lparr>timerLists = [], timers = (\<lambda>_. None), timerfd = None, bsetup = setup, sIndexNum = idx, started = []\<rparr>"
        tptr "addSeconds clk (24 * 3600 * 365)" clk' cb 0 False] assms(4)
    by (auto simp: new_TimerQueue_def tq_inv_def)
  define r2 where "r2 = r1\<lparr>handlers := (handlers r1)(tev \<mapsto> set_enableRead ?k), poller := Some ps', timersList := [q], timerEvs := [tev]\<rparr>"
  have "reactor_ctor False evfd tfd ptr tev clk clk' tptr cb setup idx = Inr r2"
    unfolding reactor_ctor_def Let_def r0_def [symmetric] ps(1) res_bind_Inr H ps'(1) q
    using assms(1) by (simp add: r2_def) (simp add: r1_def r0_def)
  moreover have "reg_inv r2" by (rule reg_inv_cong [THEN iffD2, OF _ _ ps'(2)]) (simp_all add: r2_def)
  moreover have "interest r2 = [evfd \<mapsto> ucast csEventRead, createTimerfd tfd \<mapsto> ucast csEventRead]"
    using ps'(3) ps(3) by (simp add: interest_def r2_def)
  moreover have "\<forall>p h. handlers r2 p = Some h \<longrightarrow> fd h = evfd \<or> fd h = createTimerfd tfd"
    using none(4,5) by (auto simp: r2_def r1_def set_enableRead_def)
  ultimately show ?thesis by (intro exI [of _ r2]) (auto simp: r2_def r1_def r0_def)
qed

lemma reactor_dtor_ok:
  assumes "reg_inv r" and "taskHandler r = Some ptr" and "timerEvs r = [tev]" and "ptr \<noteq> tev"
    and "handlers r ptr \<noteq> None" and "handlers r tev \<noteq> None"
  shows "\<exists>r'. reactor_dtor r = Inr r' \<and> handlers r' = (handlers r)(ptr := None, tev := None) \<and> poller r' = None"
proof -
  from assms(6) obtain k where k: "handlers r tev = Some k" by auto
  have fd: "fd (set_disableAll k) = fd k" "events (set_disableAll k) = csEventNone" by (simp_all add: set_disableAll_def)
  from ev_change_law [OF assms(1) k, of set_disableAll, OF fd(1)] obtain ps where
    ps: "ev_change set_disableAll tev r = Inr (r\<lparr>handlers := (handlers r)(tev \<mapsto> set_disableAll k), poller := Some ps\<rparr>)"
      "reg_inv (r\<lparr>handlers := (handlers r)(tev \<mapsto> set_disableAll k), poller := Some ps\<rparr>)" by blast
  from ev_remove_law [OF ps(2), of tev "set_disableAll k"] fd(2) obtain ps' where
    ps': "ev_remove tev (r\<lparr>handlers := (handlers r)(tev \<mapsto> set_disableAll k), poller := Some ps\<rparr>) =
        Inr (r\<lparr>handlers := (handlers r)(tev \<mapsto> set_disableAll k), poller := Some ps'\<rparr>)"
      "reg_inv (r\<lparr>handlers := (handlers r)(tev \<mapsto> set_disableAll k), poller := Some ps'\<rparr>)" by auto
  from delete_EventHandler_law [OF ps'(2), of tev "set_disableAll k"] obtain qs where
    qs: "delete_EventHandler tev (r\<lparr>handlers := (handlers r)(tev \<mapsto> set_disableAll k), poller := Some ps'\<rparr>) =
        Inr (r\<lparr>handlers := (handlers r)(tev := None), poller := Some qs\<rparr>)"
      "reg_inv (r\<lparr>handlers := (handlers r)(tev := None), poller := Some qs\<rparr>)" by auto
  let ?r1 = "r\<lparr>handlers := (handlers r)(tev := None), poller := Some qs, timersList := [], timerEvs := [], queue := []\<rparr>"
  have "reg_inv ?r1" using qs(2) by (simp add: reg_inv_def)
  with delete_EventHandler_law [of ?r1 ptr] assms(4,5) obtain qs' where
    "delete_EventHandler ptr ?r1 = Inr (?r1\<lparr>handlers := (handlers r)(tev := None, ptr := None), poller := Some qs'\<rparr>)" by auto
  with ps(1) ps'(1) qs(1) assms(2-4) show ?thesis
    by (intro exI [of _ "?r1\<lparr>handlers := (handlers r)(tev := None, ptr := None), taskHandler := None, poller := None\<rparr>"])
      (simp add: reactor_dtor_def fun_upd_twist)
qed

section \<open>What they do\<close>

text \<open>Under \<^verbatim>\<open>USE_EPOLL\<close> there is no poller, and the constructor of every reactor uses it.\<close>

lemma reactor_ctor_epoll: "0 \<le> evfd \<Longrightarrow> reactor_ctor True evfd tfd ptr tev clk clk' tptr cb setup idx = Inl NullDeref"
  by (simp add: reactor_ctor_def ev_change_def ev_update_def loop_registerEvHandler_def createPoller_def Let_def)

lemma runEvery_entry:
  assumes "timersList r = q # qs" and "tq_inv q" and "Timers.timers q p = None" and "p < UINTPTR_MAX"
    and "0 \<le> intv" and "valid clk"
  shows "\<exists>i q'. runEvery clk clk' p intv cb r = Inr ((i, p), r\<lparr>timersList := q' # qs\<rparr>) \<and> tq_inv q' \<and>
     set (timerLists q') = insert (addSeconds clk intv, p) (set (timerLists q)) \<and>
     Timers.timers q' p = Some (new_Timer cb i (addSeconds clk intv) intv True)"
proof -
  have "valid (addSeconds clk intv)"
    using addSeconds_at_least [OF assms(5), of clk] assms(6) by (simp add: valid_def less_eq_Timestamp_def)
  from addTimer_inv [OF assms(2-4) this, of clk' cb intv True]
  show ?thesis using assms(1) by (auto simp: runEvery_def on_timers_def)
qed

end
