(* ===== verification/ReactorLoop.thy ===== *)
theory ReactorLoop
  imports PollSet
begin

text \<open>
  \<^verbatim>\<open>base/Reactor.h\<close>, \<^verbatim>\<open>base/Reactor.cpp\<close> and the \<^verbatim>\<open>eventfd\<close> helpers of \<^verbatim>\<open>base/common.h\<close>: the task queue
  of a reactor, its wake-up descriptor and its loop, as the interleaving of the loop thread with
  any number of posting threads. Each action is one step that other threads can see: a section
  under \<^verbatim>\<open>mutex_\<close>, a system call on the \<^verbatim>\<open>eventfd\<close>, or an access to one of the flags.
\<close>

section \<open>State\<close>

text \<open>
  Where the loop thread is: at the loop's test, in \<^verbatim>\<open>poll\<close>, handling events (with or without the
  wake-up descriptor still to read), at the test of \<^verbatim>\<open>runningTask\<close>, before the swap, running the
  swapped batch, or gone with the \<^verbatim>\<open>Reactor\<close> destroyed.
\<close>

datatype loop_pc = LTop | LPoll | LHandle bool | LCheck | LSwap | LRun | LExit

text \<open>
  Where a posting thread is in \<^verbatim>\<open>queueInLoop\<close> or \<^verbatim>\<open>quit\<close>: the first write, the test of
  \<^verbatim>\<open>btaskRunning_\<close>, or a last write.
\<close>

datatype ext_pc = XIdle | XWrite | XCheck | XLast

record 'task Reactor =
  functorList :: "'task list"
  btaskRunning :: bool
  bquit :: bool
  taskWakeup :: nat
  lpc :: loop_pc
  batch :: "'task list"
  ext :: "nat \<Rightarrow> ext_pc"
  aborted :: bool
  posted :: "'task list"
  ran :: "'task list"

definition new_Reactor :: "'task Reactor" where
  "new_Reactor =
     \<lparr>functorList = [], btaskRunning = False, bquit = False, taskWakeup = 0, lpc = LTop, batch = [],
      ext = (\<lambda>_. XIdle), aborted = False, posted = [], ran = []\<rparr>"

section \<open>Operations\<close>

text \<open>The helpers of \<^verbatim>\<open>common.h\<close>; a failed call asserts. The descriptor is closed by \<^verbatim>\<open>~Reactor\<close>.\<close>

definition eventfdWrite :: "'task Reactor \<Rightarrow> 'task Reactor" where
  "eventfdWrite s = (if lpc s = LExit then s\<lparr>aborted := True\<rparr> else s\<lparr>taskWakeup := taskWakeup s + 1\<rparr>)"

definition eventfdRead :: "'task Reactor \<Rightarrow> 'task Reactor" where
  "eventfdRead s = (if lpc s = LExit \<or> taskWakeup s = 0 then s\<lparr>aborted := True\<rparr> else s\<lparr>taskWakeup := 0\<rparr>)"

definition push_task :: "'task \<Rightarrow> 'task Reactor \<Rightarrow> 'task Reactor" where
  "push_task f s = s\<lparr>functorList := functorList s @ [f], posted := posted s @ [f]\<rparr>"

text \<open>\<^verbatim>\<open>queueInLoop\<close> when the caller is the loop thread.\<close>

definition queueInLoop_own :: "'task \<Rightarrow> 'task Reactor \<Rightarrow> 'task Reactor" where
  "queueInLoop_own f s = (let s = push_task f s in if btaskRunning s then eventfdWrite s else s)"

text \<open>
  The actions. \<open>Post\<close>, \<open>Write\<close>, \<open>Test\<close>, \<open>Last\<close> are the steps of \<^verbatim>\<open>queueInLoop\<close> in another thread,
  \<open>Quit\<close> with \<open>Last\<close> those of \<^verbatim>\<open>quit\<close>; the others belong to the loop thread. \<open>tasks_of f\<close> is what
  the task \<open>f\<close> posts to its own reactor while it runs.
\<close>

datatype 'task action =
    Post nat 'task | Write nat | Test nat | Last nat | Quit nat
  | Enter | Return | Handler 'task | HandlerQuit | Wake | Handled | Check | Swap | RunTask | Done

fun exec :: "('task \<Rightarrow> 'task list) \<Rightarrow> 'task action \<Rightarrow> 'task Reactor \<Rightarrow> 'task Reactor option" where
  "exec tasks_of (Post i f) s = (if ext s i = XIdle then Some ((push_task f s)\<lparr>ext := (ext s)(i := XWrite)\<rparr>) else None)"
| "exec tasks_of (Write i) s = (if ext s i = XWrite then Some ((eventfdWrite s)\<lparr>ext := (ext s)(i := XCheck)\<rparr>) else None)"
| "exec tasks_of (Test i) s =
     (if ext s i = XCheck then Some (s\<lparr>ext := (ext s)(i := if btaskRunning s then XLast else XIdle)\<rparr>) else None)"
| "exec tasks_of (Last i) s = (if ext s i = XLast then Some ((eventfdWrite s)\<lparr>ext := (ext s)(i := XIdle)\<rparr>) else None)"
| "exec tasks_of (Quit i) s = (if ext s i = XIdle then Some (s\<lparr>bquit := True, ext := (ext s)(i := XLast)\<rparr>) else None)"
| "exec tasks_of Enter s = (if lpc s = LTop then Some (s\<lparr>lpc := if bquit s then LExit else LPoll\<rparr>) else None)"
| "exec tasks_of Return s = (if lpc s = LPoll then Some (s\<lparr>lpc := LHandle (0 < taskWakeup s)\<rparr>) else None)"
| "exec tasks_of (Handler f) s = (case lpc s of LHandle w \<Rightarrow> Some (queueInLoop_own f s) | _ \<Rightarrow> None)"
| "exec tasks_of HandlerQuit s = (case lpc s of LHandle w \<Rightarrow> Some (eventfdWrite (s\<lparr>bquit := True\<rparr>)) | _ \<Rightarrow> None)"
| "exec tasks_of Wake s = (if lpc s = LHandle True then Some ((eventfdRead s)\<lparr>lpc := LHandle False\<rparr>) else None)"
| "exec tasks_of Handled s = (if lpc s = LHandle False then Some (s\<lparr>lpc := LCheck\<rparr>) else None)"
| "exec tasks_of Check s =
     (if lpc s = LCheck
      then Some (if functorList s = [] then s\<lparr>lpc := LTop\<rparr> else s\<lparr>btaskRunning := True, lpc := LSwap\<rparr>) else None)"
| "exec tasks_of Swap s =
     (if lpc s = LSwap then Some (s\<lparr>batch := functorList s, functorList := [], lpc := LRun\<rparr>) else None)"
| "exec tasks_of RunTask s =
     (case batch s of
        [] \<Rightarrow> None
      | f # fs \<Rightarrow> if lpc s = LRun
                 then Some ((fold queueInLoop_own (tasks_of f) s)\<lparr>batch := fs, ran := ran s @ [f]\<rparr>) else None)"
| "exec tasks_of Done s =
     (if lpc s = LRun \<and> batch s = [] then Some (s\<lparr>btaskRunning := False, lpc := LTop\<rparr>) else None)"

inductive rstep :: "('task \<Rightarrow> 'task list) \<Rightarrow> 'task Reactor \<Rightarrow> 'task Reactor \<Rightarrow> bool" for tasks_of where
  act: "\<not> aborted s \<Longrightarrow> exec tasks_of a s = Some t \<Longrightarrow> rstep tasks_of s t"

inductive_cases rstepE: "rstep tasks_of s t"
inductive_simps rstep_iff: "rstep tasks_of s t"

definition reachable :: "('task \<Rightarrow> 'task list) \<Rightarrow> 'task Reactor \<Rightarrow> bool" where
  "reachable tasks_of s \<longleftrightarrow> (rstep tasks_of)\<^sup>*\<^sup>* new_Reactor s"

section \<open>Invariant\<close>

text \<open>
  A queued task is never stranded: while the loop thread is on its way to \<^verbatim>\<open>poll\<close>, in it, or running
  a batch, either the counter is positive or a poster is about to write. The counter the loop
  thread has seen positive stays so until it reads it. Tasks run once, in the order of posting.
\<close>

definition wake_pending :: "'task Reactor \<Rightarrow> bool" where
  "wake_pending s \<longleftrightarrow> 0 < taskWakeup s \<or> (\<exists>i. ext s i = XWrite)"

definition loop_inv :: "'task Reactor \<Rightarrow> bool" where
  "loop_inv s \<longleftrightarrow>
     (lpc s \<in> {LTop, LPoll, LRun} \<longrightarrow> functorList s \<noteq> [] \<longrightarrow> wake_pending s) \<and>
     (lpc s = LHandle True \<longrightarrow> 0 < taskWakeup s) \<and>
     (btaskRunning s \<longleftrightarrow> lpc s = LSwap \<or> lpc s = LRun) \<and>
     (lpc s \<noteq> LRun \<longrightarrow> batch s = []) \<and>
     (lpc s \<noteq> LExit \<longrightarrow> \<not> aborted s) \<and>
     posted s = ran s @ batch s @ functorList s"

lemma loop_inv_new [simp]: "loop_inv new_Reactor"
  by (simp add: loop_inv_def new_Reactor_def)

lemma queueInLoop_own_fields [simp]:
  "lpc (queueInLoop_own f s) = lpc s" "ext (queueInLoop_own f s) = ext s" "batch (queueInLoop_own f s) = batch s"
  "ran (queueInLoop_own f s) = ran s" "bquit (queueInLoop_own f s) = bquit s"
  "btaskRunning (queueInLoop_own f s) = btaskRunning s"
  "functorList (queueInLoop_own f s) = functorList s @ [f]" "posted (queueInLoop_own f s) = posted s @ [f]"
  by (simp_all add: queueInLoop_own_def Let_def push_task_def eventfdWrite_def)

lemma fold_queueInLoop_fields [simp]:
  "lpc (fold queueInLoop_own fs s) = lpc s" "ext (fold queueInLoop_own fs s) = ext s"
  "batch (fold queueInLoop_own fs s) = batch s" "ran (fold queueInLoop_own fs s) = ran s"
  "bquit (fold queueInLoop_own fs s) = bquit s"
  "btaskRunning (fold queueInLoop_own fs s) = btaskRunning s"
  "functorList (fold queueInLoop_own fs s) = functorList s @ fs" "posted (fold queueInLoop_own fs s) = posted s @ fs"
  by (induction fs arbitrary: s) simp_all

lemma queueInLoop_own_running:
  "btaskRunning s \<Longrightarrow> lpc s \<noteq> LExit \<Longrightarrow> taskWakeup (queueInLoop_own f s) = taskWakeup s + 1"
  "lpc s \<noteq> LExit \<Longrightarrow> aborted (queueInLoop_own f s) = aborted s"
  "\<not> btaskRunning s \<Longrightarrow> taskWakeup (queueInLoop_own f s) = taskWakeup s"
  by (simp_all add: queueInLoop_own_def Let_def push_task_def eventfdWrite_def)

lemma fold_queueInLoop_running:
  assumes "btaskRunning s" and "lpc s \<noteq> LExit"
  shows "taskWakeup (fold queueInLoop_own fs s) = taskWakeup s + length fs \<and>
     aborted (fold queueInLoop_own fs s) = aborted s"
  using assms by (induction fs arbitrary: s) (simp_all add: queueInLoop_own_running)

lemma wake_pending_other:
  assumes "wake_pending s" and "taskWakeup t = taskWakeup s" and "ext t = (ext s)(i := x)" and "ext s i \<noteq> XWrite"
  shows "wake_pending t"
  using assms by (auto simp: wake_pending_def)

text \<open>Each action preserves the invariant.\<close>

lemma exec_inv:
  assumes "loop_inv s" and "exec tasks_of a s = Some t" and "\<not> aborted s"
  shows "loop_inv t"
proof (cases a)
  case (Post i f)
  with assms have t: "t = (push_task f s)\<lparr>ext := (ext s)(i := XWrite)\<rparr>" by (auto split: if_splits)
  then have "wake_pending t" by (auto simp: wake_pending_def)
  with assms(1) t show ?thesis by (simp add: loop_inv_def push_task_def)
next
  case (Write i)
  with assms have t: "t = (eventfdWrite s)\<lparr>ext := (ext s)(i := XCheck)\<rparr>" by (auto split: if_splits)
  then have "lpc s \<noteq> LExit \<Longrightarrow> wake_pending t" by (simp add: wake_pending_def eventfdWrite_def)
  with assms(1) t show ?thesis by (auto simp: loop_inv_def eventfdWrite_def)
next
  case (Test i)
  with assms have t: "t = s\<lparr>ext := (ext s)(i := if btaskRunning s then XLast else XIdle)\<rparr>" "ext s i = XCheck"
    by (auto split: if_splits)
  then have "wake_pending s \<Longrightarrow> wake_pending t" using wake_pending_other [of s t i] by simp
  moreover have "lpc t = lpc s" "functorList t = functorList s" "taskWakeup t = taskWakeup s"
    "btaskRunning t = btaskRunning s" "batch t = batch s" "aborted t = aborted s" "posted t = posted s" "ran t = ran s"
    by (simp_all add: t)
  ultimately show ?thesis using assms(1) by (simp add: loop_inv_def)
next
  case (Last i)
  with assms have t: "t = (eventfdWrite s)\<lparr>ext := (ext s)(i := XIdle)\<rparr>" by (auto split: if_splits)
  then have "lpc s \<noteq> LExit \<Longrightarrow> wake_pending t" by (simp add: wake_pending_def eventfdWrite_def)
  with assms(1) t show ?thesis by (auto simp: loop_inv_def eventfdWrite_def)
next
  case (Quit i)
  with assms have t: "t = s\<lparr>bquit := True, ext := (ext s)(i := XLast)\<rparr>" "ext s i = XIdle"
    by (auto split: if_splits)
  then have "wake_pending s \<Longrightarrow> wake_pending t" using wake_pending_other [of s t i] by simp
  with assms(1) t show ?thesis by (simp add: loop_inv_def)
next
  case (Handler f)
  with assms obtain w where t: "t = queueInLoop_own f s" "lpc s = LHandle w" by (auto split: loop_pc.splits)
  moreover from this assms(1) have "\<not> btaskRunning s" by (simp add: loop_inv_def)
  ultimately show ?thesis using assms(1) by (simp add: loop_inv_def queueInLoop_own_running)
next
  case HandlerQuit
  with assms obtain w where t: "t = eventfdWrite (s\<lparr>bquit := True\<rparr>)" "lpc s = LHandle w"
    by (auto split: loop_pc.splits)
  then show ?thesis using assms(1) by (simp add: loop_inv_def eventfdWrite_def)
next
  case RunTask
  with assms obtain f fs where b: "batch s = f # fs" "lpc s = LRun"
    "t = (fold queueInLoop_own (tasks_of f) s)\<lparr>batch := fs, ran := ran s @ [f]\<rparr>"
    by (auto split: list.splits if_splits)
  then have r: "btaskRunning s" using assms(1) by (simp add: loop_inv_def)
  with b have w: "taskWakeup t = taskWakeup s + length (tasks_of f)" "aborted t = aborted s"
    using fold_queueInLoop_running [of s "tasks_of f"] by simp_all
  have "ext t = ext s" "functorList t = functorList s @ tasks_of f" using b by simp_all
  with w have "functorList t \<noteq> [] \<Longrightarrow> (functorList s \<noteq> [] \<Longrightarrow> wake_pending s) \<Longrightarrow> wake_pending t"
    by (auto simp: wake_pending_def)
  with assms(1) b w r show ?thesis by (simp add: loop_inv_def)
next
  case Wake
  with assms show ?thesis by (auto simp: loop_inv_def eventfdRead_def split: if_splits)
next
  case Swap
  with assms show ?thesis by (auto simp: loop_inv_def split: if_splits)
next
  case Done
  with assms have t: "t = s\<lparr>btaskRunning := False, lpc := LTop\<rparr>" "lpc s = LRun" "batch s = []"
    by (auto split: if_splits)
  then have "wake_pending t = wake_pending s" by (simp add: wake_pending_def)
  with assms(1) t show ?thesis by (simp add: loop_inv_def)
next
  case Enter
  with assms have t: "t = s\<lparr>lpc := if bquit s then LExit else LPoll\<rparr>" "lpc s = LTop" by (auto split: if_splits)
  then have "wake_pending t = wake_pending s" by (simp add: wake_pending_def)
  with assms(1) t show ?thesis by (simp add: loop_inv_def)
next
  case Return
  with assms show ?thesis by (auto simp: loop_inv_def split: if_splits)
next
  case Handled
  with assms show ?thesis by (auto simp: loop_inv_def split: if_splits)
next
  case Check
  with assms show ?thesis by (auto simp: loop_inv_def split: if_splits)
qed

lemma rstep_inv: "rstep tasks_of s t \<Longrightarrow> loop_inv s \<Longrightarrow> loop_inv t"
  by (auto elim!: rstepE intro: exec_inv)

lemma reachable_inv: "reachable tasks_of s \<Longrightarrow> loop_inv s"
  unfolding reachable_def by (induction rule: rtranclp_induct) (auto intro: rstep_inv)

section \<open>Properties\<close>

text \<open>
  C7. No wake-up is lost: in every reachable state in which the loop thread sits in \<^verbatim>\<open>poll\<close> while a
  task is queued, the wake-up descriptor is readable or the thread that queued the task is about
  to write it.
\<close>

theorem no_lost_wakeup:
  assumes "reachable tasks_of s" and "lpc s = LPoll" and "functorList s \<noteq> []"
  shows "0 < taskWakeup s \<or> (\<exists>i. ext s i = XWrite)"
  using reachable_inv [OF assms(1)] assms(2,3) by (simp add: loop_inv_def wake_pending_def)

text \<open>
  Every posted task is run at most once and in the order of posting: the tasks run so far, the
  rest of the current batch and the queue together are the tasks posted.
\<close>

theorem tasks_fifo:
  assumes "reachable tasks_of s"
  shows "ran s @ batch s @ functorList s = posted s"
  using reachable_inv [OF assms] by (simp add: loop_inv_def)

text \<open>
  As long as the reactor exists, none of the asserts on the wake-up descriptor fails: the loop
  thread never reads it when it is empty.
\<close>

theorem eventfd_asserts_hold:
  assumes "reachable tasks_of s" and "lpc s \<noteq> LExit"
  shows "\<not> aborted s"
  using reachable_inv [OF assms(1)] assms(2) by (simp add: loop_inv_def)

fun exec_all :: "('task \<Rightarrow> 'task list) \<Rightarrow> 'task action list \<Rightarrow> 'task Reactor \<Rightarrow> 'task Reactor option" where
  "exec_all tasks_of [] s = Some s"
| "exec_all tasks_of (a # as) s =
     (if aborted s then None
      else case exec tasks_of a s of None \<Rightarrow> None | Some t \<Rightarrow> exec_all tasks_of as t)"

lemma exec_all_steps: "exec_all tasks_of as s = Some t \<Longrightarrow> (rstep tasks_of)\<^sup>*\<^sup>* s t"
proof (induction as arbitrary: s)
  case (Cons a as)
  then obtain u where "\<not> aborted s" "exec tasks_of a s = Some u" "exec_all tasks_of as u = Some t"
    by (auto split: if_splits option.splits)
  with Cons.IH show ?case by (meson converse_rtranclp_into_rtranclp rstep.act)
qed simp

lemma exec_all_append:
  "exec_all tasks_of (as @ bs) s = Option.bind (exec_all tasks_of as s) (exec_all tasks_of bs)"
  by (induction as arbitrary: s) (auto split: option.splits)

lemma exec_all_join:
  "exec_all tasks_of as s = Some t \<Longrightarrow> exec_all tasks_of bs t = r \<Longrightarrow> exec_all tasks_of (as @ bs) s = r"
  by (simp add: exec_all_append)

lemma exec_all_reachable: "exec_all tasks_of as new_Reactor = Some s \<Longrightarrow> reachable tasks_of s"
  unfolding reachable_def by (rule exec_all_steps)

text \<open>A run with a posting thread: the task is posted while the loop thread is in \<^verbatim>\<open>poll\<close>.\<close>

lemma demo_reachable:
  "\<exists>s. exec_all (\<lambda>_. []) [Enter, Post 0 ''task''] new_Reactor = Some s \<and> lpc s = LPoll \<and>
     functorList s = [''task''] \<and> reachable (\<lambda>_. []) s"
proof -
  let ?s = "\<lparr>functorList = [''task''], btaskRunning = False, bquit = False, taskWakeup = 0, lpc = LPoll, batch = [],
      ext = (\<lambda>_. XIdle)(0 := XWrite), aborted = False, posted = [''task''], ran = []\<rparr>"
  have "exec_all (\<lambda>_. []) [Enter, Post 0 ''task''] new_Reactor = Some ?s"
    by (simp add: new_Reactor_def push_task_def)
  with exec_all_reachable [OF this] show ?thesis by auto
qed

theorem no_lost_wakeup_witness:
  "\<exists>s :: string Reactor. functorList s = [''task''] \<and> (0 < taskWakeup s \<or> (\<exists>i. ext s i = XWrite))"
  using demo_reachable no_lost_wakeup by fastforce

theorem tasks_fifo_witness:
  "\<exists>s :: string Reactor. functorList s = [''task''] \<and> ran s @ batch s @ functorList s = posted s"
proof -
  obtain s where "functorList s = [''task'']" "reachable (\<lambda>_. []) s" using demo_reachable by blast
  with tasks_fifo [of "\<lambda>_. []" s] show ?thesis by blast
qed

theorem eventfd_asserts_hold_witness: "\<exists>s :: string Reactor. functorList s = [''task''] \<and> \<not> aborted s"
  using demo_reachable eventfd_asserts_hold by fastforce

text \<open>
  \<^verbatim>\<open>quit\<close> from another thread can abort the process: it sets the flag before it writes the
  descriptor, and in between the loop thread can leave the loop and destroy the reactor.
\<close>

theorem quit_race:
  "\<exists>s. reachable tasks_of s \<and> lpc s = LExit \<and> aborted s"
proof -
  let ?as = "[Quit 0, Enter, Last 0]"
  have "\<exists>s. exec_all tasks_of ?as new_Reactor = Some s \<and> lpc s = LExit \<and> aborted s"
    by (simp add: new_Reactor_def eventfdWrite_def)
  then show ?thesis using exec_all_reachable by blast
qed

text \<open>
  Progress of the loop thread. From \<^verbatim>\<open>poll\<close>, one round of the loop runs everything that was queued;
  what those tasks post is queued behind a pending wake-up.
\<close>

definition round_actions :: "bool \<Rightarrow> nat \<Rightarrow> 'task action list" where
  "round_actions w n =
     [Return] @ (if w then [Wake] else []) @ [Handled, Check] @
     (if n = 0 then [] else [Swap] @ replicate n RunTask @ [Done])"

lemma run_batch:
  assumes "lpc s = LRun" and "btaskRunning s" and "\<not> aborted s"
  shows "\<exists>t. exec_all tasks_of (replicate (length (batch s)) RunTask) s = Some t \<and> lpc t = LRun \<and> batch t = [] \<and>
     btaskRunning t \<and> \<not> aborted t \<and> ran t = ran s @ batch s \<and>
     functorList t = functorList s @ concat (map tasks_of (batch s)) \<and> bquit t = bquit s"
  using assms
proof (induction "batch s" arbitrary: s)
  case Nil
  then show ?case by (metis append_Nil2 concat.simps(1) exec_all.simps(1) list.map(1) list.size(3) replicate_0)
next
  case (Cons f fs)
  let ?t = "(fold queueInLoop_own (tasks_of f) s)\<lparr>batch := fs, ran := ran s @ [f]\<rparr>"
  have b: "batch s = f # fs" using Cons.hyps(2) by simp
  have t: "lpc ?t = LRun" "btaskRunning ?t" "\<not> aborted ?t" "fs = batch ?t"
    using Cons.prems fold_queueInLoop_running [of s "tasks_of f"] by simp_all
  have step: "exec tasks_of RunTask s = Some ?t" using b Cons.prems by simp
  from Cons.hyps(1) [OF t(4) t(1-3)] obtain u where
    "exec_all tasks_of (replicate (length (batch ?t)) RunTask) ?t = Some u" "lpc u = LRun" "batch u = []"
    "btaskRunning u" "\<not> aborted u" "ran u = ran ?t @ batch ?t"
    "functorList u = functorList ?t @ concat (map tasks_of (batch ?t))" "bquit u = bquit ?t" by blast
  with step b Cons.prems show ?case by simp
qed

text \<open>
  C8. From any reachable state in which the loop thread sits in \<^verbatim>\<open>poll\<close>, one round of its own steps
  runs every task that is queued and returns to the top of the loop.
\<close>

theorem round_runs_tasks:
  fixes tasks_of :: "'task \<Rightarrow> 'task list"
  assumes "reachable tasks_of s" and "lpc s = LPoll"
  shows "\<exists>t. exec_all tasks_of (round_actions (0 < taskWakeup s) (length (functorList s))) s = Some t \<and>
     lpc t = LTop \<and> ran t = ran s @ functorList s \<and> functorList t = concat (map tasks_of (functorList s))"
proof -
  have inv: "loop_inv s" using assms(1) by (rule reachable_inv)
  then have s: "\<not> aborted s" "batch s = []" "\<not> btaskRunning s"
    using assms(2) by (simp_all add: loop_inv_def)
  let ?w = "0 < taskWakeup s"
  let ?c = "s\<lparr>lpc := LCheck, taskWakeup := 0\<rparr>"
  have head: "exec_all tasks_of ([Return] @ (if ?w then [Wake] else []) @ [Handled]) s = Some ?c"
    using assms(2) s by (auto simp: eventfdRead_def)
  show ?thesis
  proof (cases "functorList s")
    case Nil
    then have "exec_all tasks_of [Check] ?c = Some (?c\<lparr>lpc := LTop\<rparr>)" using s by simp
    with head Nil show ?thesis
      using exec_all_append [of tasks_of "[Return] @ (if ?w then [Wake] else []) @ [Handled]" "[Check]" s]
      by (simp add: round_actions_def)
  next
    case (Cons f fs)
    let ?r = "?c\<lparr>btaskRunning := True, batch := functorList s, functorList := [], lpc := LRun\<rparr>"
    have mid: "exec_all tasks_of [Check, Swap] ?c = Some ?r" using s Cons by simp
    obtain t where t: "exec_all tasks_of (replicate (length (batch ?r)) RunTask) ?r = Some t" "lpc t = LRun"
      "batch t = []" "\<not> aborted t" "ran t = ran ?r @ batch ?r"
      "functorList t = functorList ?r @ concat (map tasks_of (batch ?r))"
      using run_batch [of ?r tasks_of] s by auto
    have fin: "exec_all tasks_of [Done] t = Some (t\<lparr>btaskRunning := False, lpc := LTop\<rparr>)" using t by simp
    have "(round_actions ?w (length (functorList s)) :: 'task action list) =
        ([Return] @ (if ?w then [Wake] else []) @ [Handled]) @ [Check, Swap] @
          replicate (length (batch ?r)) RunTask @ [Done]"
      using Cons by (simp add: round_actions_def)
    then have "exec_all tasks_of (round_actions ?w (length (functorList s))) s
        = Some (t\<lparr>btaskRunning := False, lpc := LTop\<rparr>)"
      using exec_all_join [OF head exec_all_join [OF mid exec_all_join [OF t(1) fin]]] by (simp only:)
    with t show ?thesis by simp
  qed
qed

theorem round_runs_tasks_witness:
  "\<exists>(s :: string Reactor) t. functorList s = [''task''] \<and>
     exec_all (\<lambda>_. []) (round_actions (0 < taskWakeup s) (length (functorList s))) s = Some t \<and>
     lpc t = LTop \<and> ran t = ran s @ functorList s \<and> functorList t = concat (map (\<lambda>_. []) (functorList s))"
proof -
  obtain s where s: "functorList s = [''task'']" "lpc s = LPoll" "reachable (\<lambda>_. []) s"
    using demo_reachable by blast
  from round_runs_tasks [OF s(3,2)] s(1) show ?thesis by blast
qed

end
