(* ===== verification/Locks.thy ===== *)
theory Locks
  imports Prelude
begin

text \<open>
  \<^verbatim>\<open>base/MutexLock.h\<close> and \<^verbatim>\<open>base/Condition.h\<close>: the mutex with its \<^verbatim>\<open>holder_\<close> flag, the scoped
  \<^verbatim>\<open>LockGuard\<close> and the condition variable, as actions of any number of threads. \<^verbatim>\<open>pthread\<close> is the
  POSIX one: a lock is granted when the mutex is free, a wait releases it and takes it again.
\<close>

section \<open>State\<close>

text \<open>
  Where a thread is: outside; between \<^verbatim>\<open>pthread_mutex_lock\<close> and the store to \<^verbatim>\<open>holder_\<close>; in the
  critical section; between \<^verbatim>\<open>pthread_mutex_unlock\<close> and the store; waiting; signalled.
\<close>

datatype lock_pc = Out | Locked | Inside | Unlocked | Waiting | Woken

record MutexLock =
  owner :: "nat option"
  holder :: int
  pc :: "nat \<Rightarrow> lock_pc"

definition new_MutexLock :: MutexLock where
  "new_MutexLock = \<lparr>owner = None, holder = 0, pc = (\<lambda>_. Out)\<rparr>"

text \<open>The destructor; \<open>ret\<close> is the answer of \<^verbatim>\<open>pthread_mutex_destroy\<close>.\<close>

definition delete_MutexLock :: "int \<Rightarrow> MutexLock \<Rightarrow> unit res" where
  "delete_MutexLock ret m = c_assert (holder m = 0) (c_assert (ret = 0) (Inr ()))"

section \<open>Operations\<close>

text \<open>
  \<open>Lock\<close> and \<open>StoreHeld\<close> are \<^verbatim>\<open>MutexLock::lock\<close> (and the constructor of \<^verbatim>\<open>LockGuard\<close>), \<open>Unlock\<close> and
  \<open>StoreFree\<close> are \<^verbatim>\<open>unlock\<close> (and its destructor); \<open>Wait\<close>, \<open>Wake\<close> and \<open>Relock\<close> are \<^verbatim>\<open>Condition::wait\<close> and
  \<^verbatim>\<open>waitForSeconds\<close>, where a waiter can wake at any time: signalled, spuriously or at its deadline.
\<close>

datatype lock_action = Lock nat | StoreHeld nat | Unlock nat | StoreFree nat | Wait nat | Wake nat | Relock nat

fun lock_exec :: "lock_action \<Rightarrow> MutexLock \<Rightarrow> MutexLock option" where
  "lock_exec (Lock i) m =
     (if pc m i = Out \<and> owner m = None then Some (m\<lparr>owner := Some i, pc := (pc m)(i := Locked)\<rparr>) else None)"
| "lock_exec (StoreHeld i) m =
     (if pc m i = Locked then Some (m\<lparr>holder := 1, pc := (pc m)(i := Inside)\<rparr>) else None)"
| "lock_exec (Unlock i) m =
     (if pc m i = Inside then Some (m\<lparr>owner := None, pc := (pc m)(i := Unlocked)\<rparr>) else None)"
| "lock_exec (StoreFree i) m =
     (if pc m i = Unlocked then Some (m\<lparr>holder := 0, pc := (pc m)(i := Out)\<rparr>) else None)"
| "lock_exec (Wait i) m =
     (if pc m i = Inside then Some (m\<lparr>owner := None, pc := (pc m)(i := Waiting)\<rparr>) else None)"
| "lock_exec (Wake i) m =
     (if pc m i = Waiting then Some (m\<lparr>pc := (pc m)(i := Woken)\<rparr>) else None)"
| "lock_exec (Relock i) m =
     (if pc m i = Woken \<and> owner m = None then Some (m\<lparr>owner := Some i, pc := (pc m)(i := Inside)\<rparr>) else None)"

inductive lock_step :: "MutexLock \<Rightarrow> MutexLock \<Rightarrow> bool" where
  act: "lock_exec a m = Some m' \<Longrightarrow> lock_step m m'"

inductive_cases lock_stepE: "lock_step m m'"

definition lock_reachable :: "MutexLock \<Rightarrow> bool" where
  "lock_reachable m \<longleftrightarrow> lock_step\<^sup>*\<^sup>* new_MutexLock m"

text \<open>
  \<^verbatim>\<open>waitForSeconds\<close>: the deadline it passes to \<^verbatim>\<open>pthread_cond_timedwait\<close>, as seconds and nanoseconds of the
  clock, and its answer, true if the time ran out.
\<close>

definition ETIMEDOUT :: int where "ETIMEDOUT = 110"

definition waitForSeconds :: "int \<times> int \<Rightarrow> int \<Rightarrow> int \<Rightarrow> (int \<times> int) \<times> bool" where
  "waitForSeconds clock seconds ret = ((fst clock + seconds, snd clock), ret = ETIMEDOUT)"

section \<open>Invariant\<close>

text \<open>
  The owner is the one thread in the protected part. The flag is 1 only while some thread that has
  stored 1 has its store of 0 still ahead.
\<close>

definition lock_inv :: "MutexLock \<Rightarrow> bool" where
  "lock_inv m \<longleftrightarrow> (\<forall>i. owner m = Some i \<longleftrightarrow> pc m i = Locked \<or> pc m i = Inside) \<and>
     (holder m = 0 \<or> (\<exists>i. pc m i \<in> {Inside, Unlocked, Waiting, Woken}))"

lemma lock_inv_new [simp]: "lock_inv new_MutexLock"
  by (simp add: lock_inv_def new_MutexLock_def)

lemma pending_other:
  assumes "\<exists>i. p i \<in> S" and "p j \<notin> S"
  shows "\<exists>i. (p(j := x)) i \<in> S"
  using assms by (metis fun_upd_other)

lemma pending_here: "x \<in> S \<Longrightarrow> \<exists>i. (p(j := x)) i \<in> S"
  by (rule exI [of _ j]) simp

lemma lock_exec_inv:
  assumes "lock_inv m" and "lock_exec a m = Some m'"
  shows "lock_inv m'"
proof -
  let ?S = "{Inside, Unlocked, Waiting, Woken}"
  have own: "owner m = Some i \<longleftrightarrow> pc m i = Locked \<or> pc m i = Inside" for i
    using assms(1) by (simp add: lock_inv_def)
  have flag: "holder m = 0 \<or> (\<exists>i. pc m i \<in> ?S)" using assms(1) by (simp add: lock_inv_def)
  show ?thesis
  proof (cases a)
    case (Lock i)
    with assms(2) have m': "m' = m\<lparr>owner := Some i, pc := (pc m)(i := Locked)\<rparr>" "pc m i = Out" "owner m = None"
      by (auto split: if_splits)
    have "\<forall>j. owner m' = Some j \<longleftrightarrow> pc m' j = Locked \<or> pc m' j = Inside"
      using own m' by auto
    moreover have "holder m' = 0 \<or> (\<exists>j. pc m' j \<in> ?S)"
    proof (cases "holder m = 0")
      case False
      then have "\<exists>j. pc m j \<in> ?S" using flag by blast
      then have "\<exists>j. ((pc m)(i := Locked)) j \<in> ?S" by (rule pending_other) (simp add: m'(2))
      then show ?thesis unfolding m'(1) by simp
    qed (simp add: m'(1))
    ultimately show ?thesis by (simp add: lock_inv_def)
  next
    case (StoreHeld i)
    with assms(2) have m': "m' = m\<lparr>holder := 1, pc := (pc m)(i := Inside)\<rparr>" "pc m i = Locked"
      by (auto split: if_splits)
    have "\<forall>j. owner m' = Some j \<longleftrightarrow> pc m' j = Locked \<or> pc m' j = Inside"
      using own m' by auto
    moreover have "\<exists>j. pc m' j \<in> ?S" using m' pending_here [of Inside ?S "pc m" i] by simp
    ultimately show ?thesis by (simp add: lock_inv_def)
  next
    case (Unlock i)
    with assms(2) have m': "m' = m\<lparr>owner := None, pc := (pc m)(i := Unlocked)\<rparr>" "pc m i = Inside"
      by (auto split: if_splits)
    then have "owner m = Some i" using own by simp
    then have "\<not> (pc m j = Locked \<or> pc m j = Inside)" if "j \<noteq> i" for j
      using own [of j] that by simp
    then have "\<forall>j. owner m' = Some j \<longleftrightarrow> pc m' j = Locked \<or> pc m' j = Inside"
      using m' by simp
    moreover have "\<exists>j. pc m' j \<in> ?S" using m' pending_here [of Unlocked ?S "pc m" i] by simp
    ultimately show ?thesis by (simp add: lock_inv_def)
  next
    case (StoreFree i)
    with assms(2) have m': "m' = m\<lparr>holder := 0, pc := (pc m)(i := Out)\<rparr>" "pc m i = Unlocked"
      by (auto split: if_splits)
    have "\<forall>j. owner m' = Some j \<longleftrightarrow> pc m' j = Locked \<or> pc m' j = Inside"
      using own m' by auto
    with m' show ?thesis by (simp add: lock_inv_def)
  next
    case (Wait i)
    with assms(2) have m': "m' = m\<lparr>owner := None, pc := (pc m)(i := Waiting)\<rparr>" "pc m i = Inside"
      by (auto split: if_splits)
    then have "owner m = Some i" using own by simp
    then have "\<not> (pc m j = Locked \<or> pc m j = Inside)" if "j \<noteq> i" for j
      using own [of j] that by simp
    then have "\<forall>j. owner m' = Some j \<longleftrightarrow> pc m' j = Locked \<or> pc m' j = Inside"
      using m' by simp
    moreover have "\<exists>j. pc m' j \<in> ?S" using m' pending_here [of Waiting ?S "pc m" i] by simp
    ultimately show ?thesis by (simp add: lock_inv_def)
  next
    case (Wake i)
    with assms(2) have m': "m' = m\<lparr>pc := (pc m)(i := Woken)\<rparr>" "pc m i = Waiting"
      by (auto split: if_splits)
    have "\<forall>j. owner m' = Some j \<longleftrightarrow> pc m' j = Locked \<or> pc m' j = Inside"
      using own m' by auto
    moreover have "\<exists>j. pc m' j \<in> ?S" using m' pending_here [of Woken ?S "pc m" i] by simp
    ultimately show ?thesis by (simp add: lock_inv_def)
  next
    case (Relock i)
    with assms(2) have m': "m' = m\<lparr>owner := Some i, pc := (pc m)(i := Inside)\<rparr>" "pc m i = Woken" "owner m = None"
      by (auto split: if_splits)
    have "\<forall>j. owner m' = Some j \<longleftrightarrow> pc m' j = Locked \<or> pc m' j = Inside"
      using own m' by auto
    moreover have "\<exists>j. pc m' j \<in> ?S" using m' pending_here [of Inside ?S "pc m" i] by simp
    ultimately show ?thesis by (simp add: lock_inv_def)
  qed
qed

lemma lock_reachable_inv: "lock_reachable m \<Longrightarrow> lock_inv m"
  unfolding lock_reachable_def
  by (induction rule: rtranclp_induct) (auto elim!: lock_stepE intro: lock_exec_inv)

section \<open>Properties\<close>


fun lock_all :: "lock_action list \<Rightarrow> MutexLock \<Rightarrow> MutexLock option" where
  "lock_all [] m = Some m"
| "lock_all (a # as) m = Option.bind (lock_exec a m) (lock_all as)"

lemma lock_all_steps: "lock_all as m = Some m' \<Longrightarrow> lock_step\<^sup>*\<^sup>* m m'"
  by (induction as arbitrary: m)
    (auto simp: bind_eq_Some_conv intro: converse_rtranclp_into_rtranclp lock_step.act)


text \<open>
  \<^verbatim>\<open>holder_\<close> says nothing about the mutex while it is in use: the store of 0 follows the release,
  so it can fall into another thread's critical section.
\<close>

theorem holder_unreliable:
  "\<exists>m. lock_reachable m \<and> owner m = Some 1 \<and> pc m 1 = Inside \<and> holder m = 0"
proof -
  let ?as = "[Lock 0, StoreHeld 0, Unlock 0, Lock 1, StoreHeld 1, StoreFree 0]"
  have "\<exists>m. lock_all ?as new_MutexLock = Some m \<and> owner m = Some 1 \<and> pc m 1 = Inside \<and> holder m = 0"
    by (simp add: new_MutexLock_def)
  then show ?thesis using lock_all_steps unfolding lock_reachable_def by blast
qed

section \<open>A build without asserts\<close>

text \<open>
  Every call of \<^verbatim>\<open>pthread\<close> stands inside an \<^verbatim>\<open>assert\<close>. When \<^verbatim>\<open>NDEBUG\<close> is defined, as in a release build, the
  calls go with the asserts and what is left of \<^verbatim>\<open>lock\<close>, \<^verbatim>\<open>unlock\<close> and \<^verbatim>\<open>wait\<close> are the stores to \<^verbatim>\<open>holder_\<close>.
\<close>

fun ndebug_exec :: "lock_action \<Rightarrow> MutexLock \<Rightarrow> MutexLock option" where
  "ndebug_exec (Lock i) m = (if pc m i = Out then Some (m\<lparr>pc := (pc m)(i := Locked)\<rparr>) else None)"
| "ndebug_exec (StoreHeld i) m =
     (if pc m i = Locked then Some (m\<lparr>holder := 1, pc := (pc m)(i := Inside)\<rparr>) else None)"
| "ndebug_exec (Unlock i) m = (if pc m i = Inside then Some (m\<lparr>pc := (pc m)(i := Unlocked)\<rparr>) else None)"
| "ndebug_exec (StoreFree i) m =
     (if pc m i = Unlocked then Some (m\<lparr>holder := 0, pc := (pc m)(i := Out)\<rparr>) else None)"
| "ndebug_exec (Wait i) m = (if pc m i = Inside then Some m else None)"
| "ndebug_exec (Wake i) m = None"
| "ndebug_exec (Relock i) m = None"

theorem ndebug_no_exclusion:
  "\<exists>m. Option.bind (ndebug_exec (Lock 0) new_MutexLock) (\<lambda>m. Option.bind (ndebug_exec (StoreHeld 0) m) (\<lambda>m.
      Option.bind (ndebug_exec (Lock 1) m) (ndebug_exec (StoreHeld 1)))) = Some m \<and> pc m 0 = Inside \<and> pc m 1 = Inside"
  by (simp add: new_MutexLock_def)

end
