(* ===== verification/ThreadObj.thy ===== *)
theory ThreadObj
  imports Prelude
begin

text \<open>
  \<^verbatim>\<open>base/Thread.h\<close> and \<^verbatim>\<open>base/Thread.cpp\<close>: the life cycle of a thread object, the body that runs in
  the new thread, and the helpers of \<^verbatim>\<open>CurrentThread\<close>. The kernel's thread number and the result of
  \<^verbatim>\<open>pthread_create\<close> are arguments.
\<close>

section \<open>CurrentThread\<close>

text \<open>\<^verbatim>\<open>tid\<close> with its cache \<^verbatim>\<open>t_cachedTid\<close>: \<open>gettid\<close> is the kernel's answer.\<close>

definition cacheTid :: "int \<Rightarrow> int \<Rightarrow> int" where
  "cacheTid gettid t_cachedTid = (if t_cachedTid = 0 then gettid else t_cachedTid)"

definition tid :: "int \<Rightarrow> int \<Rightarrow> int \<times> int" where
  "tid gettid t_cachedTid =
     (let c = (if t_cachedTid = 0 then cacheTid gettid t_cachedTid else t_cachedTid) in (c, c))"

text \<open>The \<^verbatim>\<open>timespec\<close> that \<^verbatim>\<open>sleepUsec\<close> passes to \<^verbatim>\<open>nanosleep\<close>.\<close>

definition sleepUsec :: "int \<Rightarrow> int \<times> int" where
  "sleepUsec usec = (c_div usec 1000000, c_mod usec 1000000 * 1000)"

lemma sleepUsec_exact:
  "0 \<le> usec \<Longrightarrow> (case sleepUsec usec of (s, ns) \<Rightarrow> s * 1000000000 + ns = usec * 1000 \<and> 0 \<le> ns \<and> ns < 1000000000)"
proof -
  assume "0 \<le> usec"
  have "usec div 1000000 * 1000000000 + usec mod 1000000 * 1000 = (usec div 1000000 * 1000000 + usec mod 1000000) * 1000"
    by (simp only: distrib_right)
  also have "usec div 1000000 * 1000000 + usec mod 1000000 = usec" by (rule div_mult_mod_eq)
  finally show ?thesis using \<open>0 \<le> usec\<close> by (simp add: sleepUsec_def)
qed

section \<open>The thread object\<close>

text \<open>\<open>pthreadId\<close> is \<open>None\<close> until \<^verbatim>\<open>pthread_create\<close> has succeeded; \<open>detached\<close> records \<^verbatim>\<open>pthread_detach\<close>.\<close>

record Thread =
  pthreadId :: "nat option"
  bstarted :: bool
  bjoined :: bool
  name :: string
  detached :: bool

definition setDefaultName :: "string \<Rightarrow> string" where
  "setDefaultName n = (if n = [] then ''Thread0'' else n)"

definition new_Thread :: "string \<Rightarrow> Thread" where
  "new_Thread n =
     \<lparr>pthreadId = None, bstarted = False, bjoined = False, name = setDefaultName n, detached = False\<rparr>"

text \<open>\<open>created\<close> is the new thread, or \<open>None\<close> when \<^verbatim>\<open>pthread_create\<close> fails.\<close>

definition start :: "nat option \<Rightarrow> Thread \<Rightarrow> Thread res" where
  "start created t =
     c_assert (\<not> bstarted t)
       (Inr (case created of
               Some i \<Rightarrow> t\<lparr>bstarted := True, pthreadId := Some i\<rparr>
             | None \<Rightarrow> t\<lparr>bstarted := False\<rparr>))"

definition join :: "Thread \<Rightarrow> (nat option \<times> Thread) res" where
  "join t = c_assert (bstarted t) (c_assert (\<not> bjoined t) (Inr (pthreadId t, t\<lparr>bjoined := True\<rparr>)))"

definition delete_Thread :: "Thread \<Rightarrow> Thread" where
  "delete_Thread t = (if bstarted t \<and> \<not> bjoined t then t\<lparr>detached := True\<rparr> else t)"

text \<open>A started object always has a thread, and no thread is both joined and detached.\<close>

definition thread_inv :: "Thread \<Rightarrow> bool" where
  "thread_inv t \<longleftrightarrow> (bstarted t \<longrightarrow> pthreadId t \<noteq> None) \<and> (bjoined t \<longrightarrow> bstarted t) \<and>
     \<not> (bjoined t \<and> detached t) \<and> name t \<noteq> []"

lemma thread_inv_new: "thread_inv (new_Thread n)"
  by (simp add: thread_inv_def new_Thread_def setDefaultName_def)

lemma thread_inv_start: "thread_inv t \<Longrightarrow> start c t = Inr u \<Longrightarrow> thread_inv u"
  by (auto simp: thread_inv_def start_def split: option.splits)

lemma thread_inv_join: "thread_inv t \<Longrightarrow> \<not> detached t \<Longrightarrow> join t = Inr (r, u) \<Longrightarrow> thread_inv u"
  by (auto simp: thread_inv_def join_def)

text \<open>
  Over the whole life of a thread object, its thread is joined or detached, never both: an object
  that was started and destroyed without a join detaches, a joined one does not, and a second
  \<^verbatim>\<open>start\<close> or \<^verbatim>\<open>join\<close> asserts.
\<close>

theorem thread_lifecycle:
  assumes "start (Some i) (new_Thread n) = Inr t" and "join t = Inr (r, u)"
  shows "detached (delete_Thread t) \<and> \<not> detached (delete_Thread u) \<and> r = Some i \<and>
     start c t = Inl AssertFail \<and> join u = Inl AssertFail \<and> join (new_Thread n) = Inl AssertFail"
  using assms by (auto simp: start_def join_def delete_Thread_def new_Thread_def)

theorem thread_lifecycle_witness:
  "\<exists>t u. start (Some 4) (new_Thread []) = Inr t \<and> join t = Inr (Some 4, u) \<and>
     detached (delete_Thread t) \<and> \<not> detached (delete_Thread u)"
proof -
  obtain t u where "start (Some 4) (new_Thread []) = Inr t" "join t = Inr (Some 4, u)"
    by (auto simp: start_def join_def new_Thread_def)
  with thread_lifecycle [of 4 "[]" t "Some 4" u] show ?thesis by blast
qed

text \<open>
  \<^verbatim>\<open>ThreadData::runInThread\<close>: how the thread function ends decides the name it leaves and whether the
  process goes on.
\<close>

datatype outcome = Returns | StdException | OtherException
datatype thread_end = Finished | Aborts | Rethrows

definition runInThread :: "int \<Rightarrow> int option \<Rightarrow> outcome \<Rightarrow> int option \<times> string \<times> thread_end" where
  "runInThread gettid threadTid r =
     (let threadTid = map_option (\<lambda>_. gettid) threadTid in
      case r of
        Returns \<Rightarrow> (threadTid, ''finished'', Finished)
      | StdException \<Rightarrow> (threadTid, ''crashed'', Aborts)
      | OtherException \<Rightarrow> (threadTid, ''crashed'', Rethrows))"

end
