(* ===== verification/WorkerPool.thy ===== *)
theory WorkerPool
  imports Prelude "HOL-Library.Multiset"
begin

text \<open>
  \<^verbatim>\<open>base/ThreadPool.h\<close> and \<^verbatim>\<open>base/ThreadPool.cpp\<close>: a queue of tasks served by worker threads that
  wait on a condition variable, as the interleaving of the workers with the threads that submit
  tasks and stop the pool. A section under \<^verbatim>\<open>mutex_\<close> is one action.
\<close>

section \<open>State\<close>

text \<open>
  Where a worker is: at the test of \<^verbatim>\<open>brunning_\<close>; about to take the lock in \<^verbatim>\<open>getTask\<close>; waiting;
  signalled; running a task; sleeping 40 ms after an empty task; gone.
\<close>

datatype 'task wpc = WTop | WGet | WSleep | WWoken | WExec 'task | WNap | WGone

record 'task ThreadPool =
  threadList :: nat
  brunning :: bool
  taskList :: "'task list"
  worker :: "nat \<Rightarrow> 'task wpc"
  submitted :: "'task list"
  taken :: "'task list"
  finished :: "'task list"

definition new_ThreadPool :: "'task ThreadPool" where
  "new_ThreadPool =
     \<lparr>threadList = 0, brunning = False, taskList = [], worker = (\<lambda>_. WGone), submitted = [], taken = [], finished = []\<rparr>"

section \<open>Operations\<close>

definition pool_start :: "nat \<Rightarrow> 'task ThreadPool \<Rightarrow> 'task ThreadPool res" where
  "pool_start threadNum p =
     c_assert (threadList p = 0)
       (Inr (p\<lparr>threadList := threadNum, brunning := True, worker := (\<lambda>i. if i < threadNum then WTop else WGone)\<rparr>))"

text \<open>\<^verbatim>\<open>run\<close>: the task is queued and one waiting worker, if there is one, is signalled.\<close>

definition wake_one :: "nat option \<Rightarrow> 'task ThreadPool \<Rightarrow> 'task ThreadPool option" where
  "wake_one w p =
     (case w of
        None \<Rightarrow> if \<forall>i < threadList p. worker p i \<noteq> WSleep then Some p else None
      | Some i \<Rightarrow> if i < threadList p \<and> worker p i = WSleep then Some (p\<lparr>worker := (worker p)(i := WWoken)\<rparr>) else None)"

definition push_task :: "'task \<Rightarrow> 'task ThreadPool \<Rightarrow> 'task ThreadPool" where
  "push_task f p = p\<lparr>taskList := taskList p @ [f], submitted := submitted p @ [f]\<rparr>"

text \<open>\<^verbatim>\<open>getTask\<close> under the lock: wait, or hand out the front of the queue, or an empty task.\<close>

definition getTask :: "nat \<Rightarrow> 'task ThreadPool \<Rightarrow> 'task ThreadPool" where
  "getTask i p =
     (case taskList p of
        [] \<Rightarrow> if brunning p then p\<lparr>worker := (worker p)(i := WSleep)\<rparr> else p\<lparr>worker := (worker p)(i := WNap)\<rparr>
      | t # ts \<Rightarrow> p\<lparr>taskList := ts, taken := taken p @ [t], worker := (worker p)(i := WExec t)\<rparr>)"

text \<open>
  The actions: submitting with the worker that the signal wakes, stopping (with \<^verbatim>\<open>notifyAll\<close>), and the
  steps of worker \<open>i\<close>. \<open>Spurious\<close> is the wake-up that POSIX allows at any time.
\<close>

datatype 'task pool_action = Run 'task "nat option" | Stop | Top nat | Get nat | Spurious nat | Finish nat | Nap nat

fun pool_exec :: "'task pool_action \<Rightarrow> 'task ThreadPool \<Rightarrow> 'task ThreadPool option" where
  "pool_exec (Run f w) p = (if threadList p = 0 then None else wake_one w (push_task f p))"
| "pool_exec Stop p =
     Some (p\<lparr>brunning := False, worker := (\<lambda>i. if worker p i = WSleep then WWoken else worker p i)\<rparr>)"
| "pool_exec (Top i) p =
     (if worker p i = WTop then Some (p\<lparr>worker := (worker p)(i := if brunning p then WGet else WGone)\<rparr>) else None)"
| "pool_exec (Get i) p = (if worker p i = WGet \<or> worker p i = WWoken then Some (getTask i p) else None)"
| "pool_exec (Spurious i) p = (if worker p i = WSleep then Some (p\<lparr>worker := (worker p)(i := WWoken)\<rparr>) else None)"
| "pool_exec (Finish i) p =
     (case worker p i of
        WExec t \<Rightarrow> Some (p\<lparr>finished := finished p @ [t], worker := (worker p)(i := WTop)\<rparr>)
      | _ \<Rightarrow> None)"
| "pool_exec (Nap i) p = (if worker p i = WNap then Some (p\<lparr>worker := (worker p)(i := WTop)\<rparr>) else None)"

inductive pool_step :: "'task ThreadPool \<Rightarrow> 'task ThreadPool \<Rightarrow> bool" where
  act: "pool_exec a p = Some q \<Longrightarrow> pool_step p q"

inductive_cases pool_stepE: "pool_step p q"

text \<open>Reachable: any number of steps after \<^verbatim>\<open>start\<close> with at least one thread.\<close>

definition pool_reachable :: "'task ThreadPool \<Rightarrow> bool" where
  "pool_reachable p \<longleftrightarrow> (\<exists>n p0. 0 < n \<and> pool_start n new_ThreadPool = Inr p0 \<and> pool_step\<^sup>*\<^sup>* p0 p)"

section \<open>Invariant\<close>

definition in_hand :: "'task ThreadPool \<Rightarrow> 'task multiset" where
  "in_hand p = (\<Sum>i < threadList p. case worker p i of WExec t \<Rightarrow> {#t#} | _ \<Rightarrow> {#})"

text \<open>
  Tasks are handed out in the order of submission; each is finished or in the hands of one worker.
  While the pool runs, a queued task finds a worker that is not asleep and has not left. Once it is
  stopped nobody sleeps.
\<close>

definition awake :: "'task wpc \<Rightarrow> bool" where
  "awake w \<longleftrightarrow> w \<noteq> WSleep \<and> w \<noteq> WGone"

definition pool_inv :: "'task ThreadPool \<Rightarrow> bool" where
  "pool_inv p \<longleftrightarrow> 0 < threadList p \<and>
     submitted p = taken p @ taskList p \<and>
     mset (taken p) = mset (finished p) + in_hand p \<and>
     (brunning p \<longrightarrow> taskList p \<noteq> [] \<longrightarrow> (\<exists>i < threadList p. awake (worker p i))) \<and>
     (brunning p \<longrightarrow> (\<forall>i < threadList p. worker p i \<noteq> WGone)) \<and>
     (\<not> brunning p \<longrightarrow> (\<forall>i < threadList p. worker p i \<noteq> WSleep)) \<and>
     (\<forall>i \<ge> threadList p. worker p i = WGone)"

definition hand :: "'task wpc \<Rightarrow> 'task multiset" where
  "hand w = (case w of WExec t \<Rightarrow> {#t#} | _ \<Rightarrow> {#})"

lemma hand_simps [simp]:
  "hand WTop = {#}" "hand WGet = {#}" "hand WSleep = {#}" "hand WWoken = {#}" "hand (WExec t) = {#t#}"
  "hand WNap = {#}" "hand WGone = {#}"
  by (simp_all add: hand_def)

lemma in_hand_hand: "in_hand p = (\<Sum>i < threadList p. hand (worker p i))"
  by (simp add: in_hand_def hand_def)

lemma sum_hand_update:
  fixes n :: nat
  assumes "i < n"
  shows "(\<Sum>j < n. hand ((w(i := x)) j)) + hand (w i) = (\<Sum>j < n. hand (w j)) + hand x"
proof -
  have i: "finite {..<n}" "i \<in> {..<n}" using assms by simp_all
  have "(\<Sum>j < n. hand ((w(i := x)) j)) = hand ((w(i := x)) i) + (\<Sum>j \<in> {..<n} - {i}. hand ((w(i := x)) j))"
    using i by (rule sum.remove)
  also have "(\<Sum>j \<in> {..<n} - {i}. hand ((w(i := x)) j)) = (\<Sum>j \<in> {..<n} - {i}. hand (w j))"
    by (rule sum.cong) simp_all
  finally have new: "(\<Sum>j < n. hand ((w(i := x)) j)) = hand x + (\<Sum>j \<in> {..<n} - {i}. hand (w j))" by simp
  have "(\<Sum>j < n. hand (w j)) = hand (w i) + (\<Sum>j \<in> {..<n} - {i}. hand (w j))"
    using i by (rule sum.remove)
  with new show ?thesis by (simp only: ac_simps)
qed

lemma in_hand_update:
  assumes "i < threadList p" and "threadList q = threadList p" and "worker q = (worker p)(i := x)"
  shows "in_hand q + hand (worker p i) = in_hand p + hand x"
  using sum_hand_update [OF assms(1), of "worker p" x] by (simp add: in_hand_hand assms(2,3))

lemma in_hand_same:
  "threadList q = threadList p \<Longrightarrow> (\<And>i. i < threadList p \<Longrightarrow> hand (worker q i) = hand (worker p i)) \<Longrightarrow> in_hand q = in_hand p"
  by (simp add: in_hand_hand)

lemma pool_inv_start: "0 < n \<Longrightarrow> pool_start n new_ThreadPool = Inr p \<Longrightarrow> pool_inv p"
  by (auto simp: pool_start_def new_ThreadPool_def pool_inv_def in_hand_hand)

text \<open>One worker moves to a state in which it is awake and holds what it held.\<close>

lemma pool_inv_move:
  assumes inv: "pool_inv p" and i: "worker p i \<noteq> WGone"
    and q: "q = p\<lparr>worker := (worker p)(i := x)\<rparr>" and x: "awake x" "hand x = hand (worker p i)"
  shows "pool_inv q"
proof -
  have lt: "i < threadList p" using inv i by (auto simp: pool_inv_def not_less [symmetric])
  have "in_hand q = in_hand p"
    using x(2) by (intro in_hand_same) (auto simp: q)
  moreover have "\<exists>i < threadList q. awake (worker q i)"
    using lt x(1) by (intro exI [of _ i]) (simp add: q)
  ultimately show ?thesis
    using inv x(1) lt by (simp add: pool_inv_def q awake_def)
qed

lemma pool_inv_push:
  assumes "pool_inv p" and "brunning p \<Longrightarrow> \<exists>i < threadList p. awake (worker p i)"
  shows "pool_inv (push_task f p)"
proof -
  have "in_hand (push_task f p) = in_hand p" by (simp add: in_hand_def push_task_def)
  with assms show ?thesis unfolding pool_inv_def by (simp add: push_task_def)
qed

lemma pool_exec_inv:
  assumes inv: "pool_inv p" and step: "pool_exec a p = Some q"
  shows "pool_inv q"
proof (cases a)
  case (Run f w)
  show ?thesis
  proof (cases w)
    case None
    with step Run have q: "q = push_task f p" and no: "\<forall>i < threadList p. worker p i \<noteq> WSleep"
      by (auto simp: wake_one_def push_task_def split: if_splits)
    have "\<exists>i < threadList p. awake (worker p i)" if "brunning p"
      using inv no that unfolding pool_inv_def awake_def by blast
    with inv show ?thesis unfolding q by (rule pool_inv_push)
  next
    case (Some i)
    let ?p = "p\<lparr>worker := (worker p)(i := WWoken)\<rparr>"
    from step Run Some have q: "q = push_task f ?p" and i: "i < threadList p" "worker p i = WSleep"
      by (auto simp: wake_one_def push_task_def split: if_splits)
    have "pool_inv ?p"
      using inv i by (intro pool_inv_move [of p i ?p WWoken]) (simp_all add: awake_def)
    moreover have "\<exists>j < threadList ?p. awake (worker ?p j)"
      using i(1) by (intro exI [of _ i]) (simp add: awake_def)
    ultimately show ?thesis unfolding q by (intro pool_inv_push)
  qed
next
  case Stop
  with step have q: "q = p\<lparr>brunning := False, worker := (\<lambda>i. if worker p i = WSleep then WWoken else worker p i)\<rparr>" by simp
  have "in_hand q = in_hand p" by (intro in_hand_same) (simp_all add: q)
  moreover have "\<forall>i. worker q i \<noteq> WSleep" "\<forall>i \<ge> threadList p. worker q i = WGone"
    using inv by (simp_all add: q pool_inv_def)
  moreover have "threadList q = threadList p" "\<not> brunning q" "taskList q = taskList p" "submitted q = submitted p"
    "taken q = taken p" "finished q = finished p" by (simp_all add: q)
  ultimately show ?thesis using inv unfolding pool_inv_def by simp
next
  case (Top i)
  with step have q: "q = p\<lparr>worker := (worker p)(i := if brunning p then WGet else WGone)\<rparr>" "worker p i = WTop"
    by (auto split: if_splits)
  show ?thesis
  proof (cases "brunning p")
    case True
    with inv q show ?thesis by (intro pool_inv_move [of p i q WGet]) (simp_all add: awake_def)
  next
    case False
    have "in_hand q = in_hand p" using q by (intro in_hand_same) (simp_all add: False)
    moreover have "\<forall>i. worker p i \<noteq> WSleep \<longrightarrow> worker q i \<noteq> WSleep" "\<forall>i \<ge> threadList p. worker q i = WGone"
      using inv q False by (auto simp: pool_inv_def)
    moreover have "threadList q = threadList p" "\<not> brunning q" "taskList q = taskList p" "submitted q = submitted p"
      "taken q = taken p" "finished q = finished p" using False by (simp_all add: q)
    ultimately show ?thesis using inv False unfolding pool_inv_def by simp
  qed
next
  case (Get i)
  with step have q: "q = getTask i p" and i: "worker p i = WGet \<or> worker p i = WWoken" by (auto split: if_splits)
  have lt: "i < threadList p" using inv i by (auto simp: pool_inv_def not_less [symmetric])
  show ?thesis
  proof (cases "taskList p")
    case Nil
    show ?thesis
    proof (cases "brunning p")
      case True
      then have q': "q = p\<lparr>worker := (worker p)(i := WSleep)\<rparr>" using q Nil by (simp add: getTask_def)
      have "in_hand q = in_hand p" using i by (intro in_hand_same) (auto simp: q')
      with inv True Nil lt show ?thesis by (simp add: pool_inv_def q')
    next
      case False
      then have "q = p\<lparr>worker := (worker p)(i := WNap)\<rparr>" using q Nil by (simp add: getTask_def)
      with inv i show ?thesis by (intro pool_inv_move [of p i q WNap]) (auto simp: awake_def)
    qed
  next
    case (Cons t ts)
    then have q': "q = p\<lparr>taskList := ts, taken := taken p @ [t], worker := (worker p)(i := WExec t)\<rparr>"
      using q by (simp add: getTask_def)
    have "in_hand q + hand (worker p i) = in_hand p + hand (WExec t)"
      using lt by (intro in_hand_update) (simp_all add: q')
    then have "in_hand q = in_hand p + {#t#}" using i by auto
    moreover have "\<exists>j < threadList q. awake (worker q j)"
      using lt by (intro exI [of _ i]) (simp add: q' awake_def)
    ultimately show ?thesis
      using inv Cons lt by (simp add: pool_inv_def q')
  qed
next
  case (Spurious i)
  with step have "q = p\<lparr>worker := (worker p)(i := WWoken)\<rparr>" "worker p i = WSleep" by (auto split: if_splits)
  with inv show ?thesis by (intro pool_inv_move [of p i q WWoken]) (simp_all add: awake_def)
next
  case (Finish i)
  with step obtain t where t: "worker p i = WExec t" and
    q: "q = p\<lparr>finished := finished p @ [t], worker := (worker p)(i := WTop)\<rparr>"
    by (auto split: wpc.splits)
  have lt: "i < threadList p" using inv t by (auto simp: pool_inv_def not_less [symmetric])
  have "in_hand q + hand (worker p i) = in_hand p + hand WTop"
    using lt by (intro in_hand_update) (simp_all add: q)
  then have "in_hand q + {#t#} = in_hand p" using t by simp
  moreover have "\<exists>j < threadList q. awake (worker q j)"
    using lt by (intro exI [of _ i]) (simp add: q awake_def)
  ultimately show ?thesis
    using inv lt by (auto simp: pool_inv_def q)
next
  case (Nap i)
  with step have "q = p\<lparr>worker := (worker p)(i := WTop)\<rparr>" "worker p i = WNap" by (auto split: if_splits)
  with inv show ?thesis by (intro pool_inv_move [of p i q WTop]) (simp_all add: awake_def)
qed

lemma pool_reachable_inv: "pool_reachable p \<Longrightarrow> pool_inv p"
proof -
  assume "pool_reachable p"
  then obtain n p0 where p0: "0 < n" "pool_start n new_ThreadPool = Inr p0" "pool_step\<^sup>*\<^sup>* p0 p"
    by (auto simp: pool_reachable_def)
  from p0(3) show ?thesis
    by (induction rule: rtranclp_induct)
      (use p0(1,2) pool_inv_start in \<open>auto elim!: pool_stepE intro: pool_exec_inv\<close>)
qed

section \<open>Properties\<close>

text \<open>
  C16. The pool hands its tasks out in the order of submission and loses or duplicates none while it
  lives: every submitted task is finished, in the hands of one worker, or still queued.
\<close>

theorem pool_conserves_tasks:
  assumes "pool_reachable p"
  shows "submitted p = taken p @ taskList p \<and>
     mset (submitted p) = mset (finished p) + in_hand p + mset (taskList p)"
  using pool_reachable_inv [OF assms] by (simp add: pool_inv_def)

text \<open>
  While the pool runs, a queued task never waits for a signal that has been lost: some worker is
  awake.
\<close>

theorem pool_no_lost_signal:
  assumes "pool_reachable p" and "brunning p" and "taskList p \<noteq> []"
  shows "\<exists>i < threadList p. worker p i \<noteq> WSleep \<and> worker p i \<noteq> WGone"
  using pool_reachable_inv [OF assms(1)] assms(2,3) by (auto simp: pool_inv_def awake_def)

fun pool_all :: "'task pool_action list \<Rightarrow> 'task ThreadPool \<Rightarrow> 'task ThreadPool option" where
  "pool_all [] p = Some p"
| "pool_all (a # as) p = (case pool_exec a p of None \<Rightarrow> None | Some q \<Rightarrow> pool_all as q)"

lemma pool_all_steps: "pool_all as p = Some q \<Longrightarrow> pool_step\<^sup>*\<^sup>* p q"
  by (induction as arbitrary: p)
    (auto split: option.splits intro: converse_rtranclp_into_rtranclp pool_step.act)

lemma pool_all_reachable:
  "pool_start n new_ThreadPool = Inr p0 \<Longrightarrow> 0 < n \<Longrightarrow> pool_all as p0 = Some p \<Longrightarrow> pool_reachable p"
  unfolding pool_reachable_def using pool_all_steps by blast

text \<open>One worker asleep, then a task is submitted.\<close>

lemma demo_pool:
  "\<exists>p :: string ThreadPool. pool_reachable p \<and> brunning p \<and> taskList p = [''job'']"
proof -
  let ?p0 = "\<lparr>threadList = 1, brunning = True, taskList = [], worker = (\<lambda>i. if i < 1 then WTop else WGone),
      submitted = [], taken = [], finished = []\<rparr> :: string ThreadPool"
  have start: "pool_start 1 new_ThreadPool = Inr ?p0"
    by (simp add: pool_start_def new_ThreadPool_def)
  have "\<exists>p. pool_all [Top 0, Get 0, Run ''job'' (Some 0)] ?p0 = Some p \<and> brunning p \<and> taskList p = [''job'']"
    by (simp add: getTask_def wake_one_def push_task_def)
  with pool_all_reachable [OF start zero_less_one] show ?thesis by blast
qed

theorem pool_conserves_tasks_witness:
  "\<exists>p :: string ThreadPool. taskList p = [''job''] \<and> submitted p = taken p @ taskList p \<and>
     mset (submitted p) = mset (finished p) + in_hand p + mset (taskList p)"
  using demo_pool pool_conserves_tasks by blast

theorem pool_no_lost_signal_witness:
  "\<exists>p :: string ThreadPool. taskList p = [''job''] \<and> (\<exists>i < threadList p. worker p i \<noteq> WSleep \<and> worker p i \<noteq> WGone)"
  using demo_pool pool_no_lost_signal by (metis list.distinct(1))

text \<open>
  \<^verbatim>\<open>stop\<close> does not drain the queue: a pool can end with all its workers gone and a submitted task
  that was never run.
\<close>

theorem pool_stop_drops:
  "\<exists>p :: string ThreadPool. pool_reachable p \<and> (\<forall>i < threadList p. worker p i = WGone) \<and>
     submitted p = [''job''] \<and> finished p = []"
proof -
  let ?p0 = "\<lparr>threadList = 1, brunning = True, taskList = [], worker = (\<lambda>i. if i < 1 then WTop else WGone),
      submitted = [], taken = [], finished = []\<rparr> :: string ThreadPool"
  have start: "pool_start 1 new_ThreadPool = Inr ?p0"
    by (simp add: pool_start_def new_ThreadPool_def)
  have "\<exists>p. pool_all [Run ''job'' None, Stop, Top 0] ?p0 = Some p \<and> (\<forall>i < threadList p. worker p i = WGone) \<and>
      submitted p = [''job''] \<and> finished p = []"
    by (simp add: getTask_def wake_one_def push_task_def)
  with pool_all_reachable [OF start zero_less_one] show ?thesis by blast
qed

end
