(* ===== verification/ConnectionRuns.thy ===== *)
theory ConnectionRuns
  imports Connection "HOL-Library.Sublist"
begin

text \<open>
  A \<^verbatim>\<open>NetConnection\<close> over its whole life: any sequence of calls from the application, of events of the
  descriptor and of posted tasks, in any order. The results say what becomes of the two byte streams.
\<close>

section \<open>Runs\<close>

text \<open>
  One step: the server's or the client's call of \<^verbatim>\<open>connEstablished\<close>, a \<^verbatim>\<open>send\<close>, \<^verbatim>\<open>forceClose\<close> or \<^verbatim>\<open>shutdown\<close> on
  the loop thread or off it, the oldest posted task, or an event of the descriptor. The kernel's
  answers are part of the step.
\<close>

datatype conn_op =
    Establish
  | DoSend bool "errno + nat" "byte list"
  | DoTask "errno + nat" "errno option"
  | DoEvent uint32 "int + byte list" "errno + nat"
  | DoClose bool
  | DoShutdown bool "errno option"

fun conn_exec :: "(nat \<Rightarrow> byte) \<Rightarrow> conn_op \<Rightarrow> NetConnection \<Rightarrow> NetConnection res" where
  "conn_exec junk Establish c = connEstablished c"
| "conn_exec junk (DoSend il w m) c = send junk il w m c"
| "conn_exec junk (DoTask w r) c = run_task junk w r c"
| "conn_exec junk (DoEvent revs r w) c = conn_event junk revs r w c"
| "conn_exec junk (DoClose il) c = forceClose il c"
| "conn_exec junk (DoShutdown il r) c = shutdown il r c"

text \<open>The message that the step hands to \<^verbatim>\<open>sendInReactor\<close>, if it does.\<close>

fun handed :: "conn_op \<Rightarrow> NetConnection \<Rightarrow> byte list list" where
  "handed (DoSend il w m) c = (if il \<and> state c = eConnected then [m] else [])"
| "handed (DoTask w r) c = (case tasks c of SendTask m # _ \<Rightarrow> [m] | _ \<Rightarrow> [])"
| "handed _ c = []"

fun conn_run :: "(nat \<Rightarrow> byte) \<Rightarrow> conn_op list \<Rightarrow> NetConnection \<Rightarrow> (byte list list \<times> NetConnection) res" where
  "conn_run junk [] c = Inr ([], c)"
| "conn_run junk (a # as) c =
     res_bind (conn_exec junk a c) (\<lambda>d. res_bind (conn_run junk as d) (\<lambda>(ms, e). Inr (handed a c @ ms, e)))"

text \<open>What \<^verbatim>\<open>readv\<close> answers fits the room it was offered.\<close>

fun answer_fits :: "conn_op \<Rightarrow> NetConnection \<Rightarrow> bool" where
  "answer_fits (DoEvent revs r w) c \<longleftrightarrow> readv_fits (reset (readBuffer c)) r"
| "answer_fits _ c \<longleftrightarrow> True"

section \<open>One step\<close>

text \<open>
  An untouched write buffer is at its first position, so the one write that ever fills it has room.
\<close>

definition run_inv :: "NetConnection \<Rightarrow> bool" where
  "run_inv c \<longleftrightarrow> conn_inv c \<and> (content (writeBuffer c) = [] \<longrightarrow> readPos (writeBuffer c) = 8)"

lemma run_inv_new [simp]: "run_inv (set_callbacks a b d e (new_NetConnection junk sockfd))"
proof -
  have "writeBuffer (set_callbacks a b d e (new_NetConnection junk sockfd)) = new_Buffer junk"
    by (simp add: set_callbacks_def new_NetConnection_def Let_def)
  then show ?thesis by (simp add: run_inv_def new_Buffer_def csPrependSize_def)
qed

text \<open>What a step may do to the outgoing stream: nothing, or append the message at its end.\<close>

definition stream :: "NetConnection \<Rightarrow> byte list" where
  "stream c = wire_bytes (out c) @ content (writeBuffer c)"

lemma sendInReactor_step:
  assumes "run_inv c" and "sendInReactor junk w m c = Inr d"
  shows "run_inv d \<and> (stream d = stream c \<or> content (writeBuffer c) = [] \<and> stream d = stream c @ m) \<and>
     (content (writeBuffer c) \<noteq> [] \<longrightarrow> writeBuffer d = writeBuffer c \<and> wire_bytes (out d) = wire_bytes (out c)) \<and>
     msgs_up (out d) = msgs_up (out c) \<and> state d = state c \<and> tasks d = tasks c \<and> msgRecvFunc d = msgRecvFunc c"
proof -
  from assms(1) have inv: "conn_inv c" "buf_inv (writeBuffer c)" by (simp_all add: run_inv_def conn_inv_def)
  have drop: ?thesis if "d = emit [Dropped m] c"
    using that assms(1) by (simp add: run_inv_def conn_inv_def stream_def)
  show ?thesis
  proof (cases "state c = eDisconnected \<or> content (writeBuffer c) \<noteq> [] \<or> (\<exists>err. w = Inl err)")
    case True
    have "d = emit [Dropped m] c"
    proof (cases "state c = eDisconnected \<or> content (writeBuffer c) \<noteq> []")
      case True
      moreover have "readableBytes (writeBuffer c) \<noteq> 0" if "content (writeBuffer c) \<noteq> []"
        using that length_content [OF inv(2)] by (metis length_0_conv)
      ultimately show ?thesis using assms(2) by (auto simp: sendInReactor_def split: if_splits)
    next
      case False
      then have "readableBytes (writeBuffer c) = 0" using length_content [OF inv(2)] by auto
      with True False assms(2) show ?thesis by (auto simp: sendInReactor_def with_event_def split: option.splits)
    qed
    then show ?thesis by (rule drop)
  next
    case False
    then obtain n where n: "w = Inr n" "content (writeBuffer c) = []" "state c \<noteq> eDisconnected"
      by (cases w) auto
    have empty: "readableBytes (writeBuffer c) = 0" using n(2) length_content [OF inv(2)] by auto
    show ?thesis
    proof (cases "n < length m")
      case True
      have "write_room (writeBuffer c) (length (drop n m))"
        using assms(1) n(2) by (auto simp: write_room_def run_inv_def)
      from bq.put_law [OF inv(2) this, of junk] n(2) obtain b where
        b: "buf_write junk (writeBuffer c) (drop n m) = Inr b" "buf_inv b" "content b = drop n m" by auto
      with n empty True assms(2) inv(1) show ?thesis
        by (auto simp: sendInReactor_def with_event_def Let_def run_inv_def conn_inv_def stream_def
            split: option.splits if_splits)
    next
      case False
      have d: "d = (if writeCompleteFunc c then emit [WriteCompleteCb] (emit [Written m] c) else emit [Written m] c)"
        using n(1,3) empty False assms(2) by (auto simp: sendInReactor_def with_event_def Let_def split: option.splits)
      show ?thesis
        using n(2) assms(1) inv(1) unfolding d
        by (cases "writeCompleteFunc c") (simp_all add: run_inv_def conn_inv_def stream_def)
    qed
  qed
qed

lemma handleClose_step:
  assumes "run_inv c" and "handleClose c = Inr d"
  shows "run_inv d \<and> stream d = stream c \<and> writeBuffer d = writeBuffer c \<and> wire_bytes (out d) = wire_bytes (out c) \<and>
     msgs_up (out d) = msgs_up (out c) \<and> event d = None \<and> state d = eDisconnected \<and> tasks d = tasks c \<and>
     msgRecvFunc d = msgRecvFunc c"
proof -
  obtain e where "event c = Some e" using assms(2) by (auto simp: handleClose_def with_event_def split: option.splits)
  from handleClose_result [OF this] assms show ?thesis by (auto simp: run_inv_def conn_inv_def stream_def)
qed

lemma handleRead_step:
  assumes "run_inv c" and "readv_fits (reset (readBuffer c)) r" and "handleRead junk r c = Inr d"
  shows "run_inv d \<and> stream d = stream c \<and> writeBuffer d = writeBuffer c \<and> wire_bytes (out d) = wire_bytes (out c) \<and>
     tasks d = tasks c \<and> msgRecvFunc d = msgRecvFunc c \<and>
     (r \<noteq> Inr [] \<longrightarrow> state d = state c \<and> event d = event c) \<and>
     msgs_up (out d) = msgs_up (out c) @ (case r of Inr xs \<Rightarrow> if xs \<noteq> [] \<and> msgRecvFunc c then [xs] else [] | _ \<Rightarrow> [])"
proof -
  from assms(1) have inv: "conn_inv c" by (simp add: run_inv_def)
  from assms(3) obtain e where e: "event c = Some e" by (auto simp: handleRead_def with_event_def split: option.splits)
  show ?thesis
  proof (cases r)
    case (Inl err)
    have "buf_inv (reset (readBuffer c))" using inv reset_inv by (simp add: conn_inv_def)
    with Inl e assms show ?thesis
      by (auto simp: handleRead_def with_event_def readfd_def handleError_def run_inv_def conn_inv_def stream_def)
  next
    case (Inr xs)
    show ?thesis
    proof (cases "xs = []")
      case True
      have "run_inv (c\<lparr>readBuffer := reset (readBuffer c)\<rparr>)"
        using assms(1) reset_inv by (auto simp: run_inv_def conn_inv_def)
      from handleClose_step [OF this, of d] show ?thesis
        using assms(3) handleRead_eof [OF inv e, of junk] Inr True by (simp add: stream_def)
    next
      case False
      with handleRead_data [OF inv e False, of junk] assms Inr show ?thesis
        by (auto simp: run_inv_def stream_def)
    qed
  qed
qed

lemma emit_if: "(if b then emit xs c else c) = emit (if b then xs else []) c"
  by (simp add: emit_def)

lemma connEstablished_step:
  assumes "run_inv c" and "connEstablished c = Inr d"
  shows "run_inv d \<and> writeBuffer d = writeBuffer c \<and> wire_bytes (out d) = wire_bytes (out c) \<and>
     msgs_up (out d) = msgs_up (out c) \<and> state d = eConnected \<and> tasks d = tasks c \<and> msgRecvFunc d = msgRecvFunc c"
proof -
  obtain e where "event c = Some e"
    and "d = set_event (set_enableRead e) (emit (if connCallbackFunc c then [ConnCb eConnected] else []) (c\<lparr>state := eConnected\<rparr>))"
    using assms(2) by (auto simp: connEstablished_def with_event_def Let_def emit_if split: option.splits)
  with assms(1) show ?thesis by (auto simp: run_inv_def conn_inv_def)
qed

lemma shutdownInReactor_cases:
  assumes "shutdownInReactor r c = Inr d"
  shows "d = c \<or> d = emit [ShutdownWr] c"
  using assms by (auto simp: shutdownInReactor_def with_event_def res_bind_eq_Inr split: option.splits if_splits)

lemma run_inv_frame:
  "run_inv c \<Longrightarrow> run_inv (c\<lparr>tasks := ts\<rparr>)" "run_inv c \<Longrightarrow> run_inv (emit xs c)"
  "run_inv c \<Longrightarrow> run_inv (c\<lparr>state := eDisconnected\<rparr>)"
  by (simp_all add: run_inv_def conn_inv_def)

text \<open>
  An event reads, or does nothing: no close or error handler is installed, and the handler for write
  events does nothing. If the read ends the connection the event is a use after free.
\<close>

lemma conn_event_cases:
  assumes "conn_inv c" and "conn_event junk revs r w c = Inr d"
  obtains "d = c" | "handleRead junk r c = Inr d" and "event d \<noteq> None"
proof -
  from assms(2) obtain e where e: "event c = Some e" by (auto simp: conn_event_def with_event_def split: option.splits)
  then have cb: "readCallback e" "writeCallback e" "\<not> closeCallback e" "\<not> errorCallback e" "onRead c = HRead" "onWrite c = HError"
    using assms(1) by (auto simp: conn_inv_def)
  have keeps: "onWrite x = HError" if read: "handleRead junk r c = Inr x" for x
  proof -
    obtain n err b where "readfd junk (reset (readBuffer c)) r = Inr (n, err, b)"
      using read by (auto simp: handleRead_def with_event_def e res_bind_eq_Inr)
    with read cb(6) show ?thesis
      by (auto simp: handleRead_def handleClose_def handleError_def with_event_def Let_def e split: if_splits)
  qed
  show ?thesis
  proof (cases "read_fires (e\<lparr>revents := revs\<rparr>)")
    case True
    with assms(2) e cb obtain x where x: "handleRead junk r c = Inr x"
      by (auto simp: conn_event_def with_event_def handEvent_def guarded_def conn_handler_def res_bind_eq_Inr
          split: if_splits)
    with True assms(2) e cb keeps [OF x] have "d = x" "event x \<noteq> None"
      by (auto simp: conn_event_def with_event_def handEvent_def guarded_def conn_handler_def handleError_def
          split: if_splits)
    with x show ?thesis by (intro that(2)) simp_all
  next
    case False
    with assms(2) e cb have "d = c"
      by (auto simp: conn_event_def with_event_def handEvent_def guarded_def conn_handler_def handleError_def
          split: if_splits)
    then show ?thesis by (rule that(1))
  qed
qed

lemma conn_exec_step:
  assumes "run_inv c" and "answer_fits a c" and "conn_exec junk a c = Inr d"
  shows "run_inv d \<and> (\<exists>ks. subseq ks (handed a c) \<and> stream d = stream c @ concat ks) \<and>
     (content (writeBuffer c) \<noteq> [] \<longrightarrow> writeBuffer d = writeBuffer c \<and> wire_bytes (out d) = wire_bytes (out c))"
proof -
  have quiet: ?thesis if "run_inv d \<and> writeBuffer d = writeBuffer c \<and> wire_bytes (out d) = wire_bytes (out c)"
    using that by (auto simp: stream_def intro: exI [of _ "[]"])
  have sent: "run_inv e \<and> (\<exists>ks. subseq ks [m] \<and> stream e = stream b @ concat ks) \<and>
     (content (writeBuffer b) \<noteq> [] \<longrightarrow> writeBuffer e = writeBuffer b \<and> wire_bytes (out e) = wire_bytes (out b))"
    if "run_inv b" "sendInReactor junk w m b = Inr e" for b e w m
    using sendInReactor_step [OF that] by (auto intro: exI [of _ "[]"] exI [of _ "[m]"])
  note task = run_inv_frame(1) [OF assms(1)]
  show ?thesis
  proof (cases a)
    case Establish
    with assms connEstablished_step [of c d] show ?thesis by (intro quiet) simp
  next
    case (DoSend il w m)
    show ?thesis
    proof (cases "il \<and> state c = eConnected")
      case True
      with DoSend assms sent [of c w m d] show ?thesis by (simp add: send_def)
    next
      case False
      with DoSend assms show ?thesis by (intro quiet) (auto simp: send_def run_inv_def conn_inv_def split: if_splits)
    qed
  next
    case (DoTask w r)
    show ?thesis
    proof (cases "tasks c")
      case Nil
      with DoTask assms show ?thesis by (intro quiet) (simp add: run_task_def)
    next
      case (Cons t ts)
      show ?thesis
      proof (cases t)
        case EstablishTask
        with DoTask Cons assms connEstablished_step [OF task [of ts], of d] show ?thesis
          by (intro quiet) (simp add: run_task_def)
      next
        case (SendTask m)
        with DoTask Cons assms sent [OF task [of ts], of w m d] show ?thesis by (simp add: run_task_def stream_def)
      next
        case CloseTask
        with DoTask Cons assms handleClose_step [OF task [of ts], of d] show ?thesis
          by (intro quiet) (simp add: run_task_def)
      next
        case ShutdownTask
        with DoTask Cons assms have "d = c\<lparr>tasks := ts\<rparr> \<or> d = emit [ShutdownWr] (c\<lparr>tasks := ts\<rparr>)"
          by (intro shutdownInReactor_cases) (simp add: run_task_def)
        with task [of ts] show ?thesis by (intro quiet) (auto simp: run_inv_frame)
      qed
    qed
  next
    case (DoEvent revs r w)
    with assms have "conn_event junk revs r w c = Inr d" "conn_inv c" by (simp_all add: run_inv_def)
    then show ?thesis
    proof (cases rule: conn_event_cases [rotated, consumes 1])
      case 1
      with assms(1) show ?thesis by (intro quiet) simp
    next
      case 2
      from handleRead_step [OF assms(1) _ this(1)] DoEvent assms(2) show ?thesis by (intro quiet) simp
    qed
  next
    case (DoClose il)
    note closed = run_inv_frame(3) [OF assms(1)]
    from DoClose assms handleClose_step [OF closed, of d] run_inv_frame(1) [OF closed] show ?thesis
      by (intro quiet) (auto simp: forceClose_def Let_def split: if_splits)
  next
    case (DoShutdown il r)
    with assms task show ?thesis
      by (intro quiet) (auto simp: shutdown_def run_inv_frame dest!: shutdownInReactor_cases split: if_splits)
  qed
qed

section \<open>The outgoing stream\<close>

fun run_fits :: "(nat \<Rightarrow> byte) \<Rightarrow> conn_op list \<Rightarrow> NetConnection \<Rightarrow> bool" where
  "run_fits junk [] c \<longleftrightarrow> True"
| "run_fits junk (a # as) c \<longleftrightarrow>
     answer_fits a c \<and> (case conn_exec junk a c of Inl _ \<Rightarrow> True | Inr d \<Rightarrow> run_fits junk as d)"

lemma conn_run_stream:
  assumes "run_inv c" and "run_fits junk as c" and "conn_run junk as c = Inr (ms, d)"
  shows "run_inv d \<and> (\<exists>ks. subseq ks ms \<and> stream d = stream c @ concat ks) \<and>
     (content (writeBuffer c) \<noteq> [] \<longrightarrow> writeBuffer d = writeBuffer c \<and> wire_bytes (out d) = wire_bytes (out c))"
  using assms
proof (induction as arbitrary: c ms)
  case Nil
  then show ?case by (auto intro: exI [of _ "[]"])
next
  case (Cons a as)
  from Cons.prems(3) obtain b ms' where b: "conn_exec junk a c = Inr b" "conn_run junk as b = Inr (ms', d)"
    "ms = handed a c @ ms'"
    by (auto simp: res_bind_eq_Inr)
  from conn_exec_step [OF Cons.prems(1) _ b(1)] Cons.prems(2) obtain ks where
    ks: "run_inv b" "subseq ks (handed a c)" "stream b = stream c @ concat ks"
    and kept: "content (writeBuffer c) \<noteq> [] \<longrightarrow> writeBuffer b = writeBuffer c \<and> wire_bytes (out b) = wire_bytes (out c)"
    by auto
  from Cons.IH [OF ks(1) _ b(2)] Cons.prems(2) b(1) obtain ks' where
    ks': "run_inv d" "subseq ks' ms'" "stream d = stream b @ concat ks'"
    and kept': "content (writeBuffer b) \<noteq> [] \<longrightarrow> writeBuffer d = writeBuffer b \<and> wire_bytes (out d) = wire_bytes (out b)"
    by auto
  have "subseq (ks @ ks') ms" unfolding b(3) by (rule list_emb_append_mono [OF ks(2) ks'(2)])
  moreover have "stream d = stream c @ concat (ks @ ks')" by (simp add: ks'(3) ks(3))
  ultimately show ?case using ks'(1) kept kept' by auto
qed

text \<open>
  C11. Whatever is called on a connection, and in whatever order its events and tasks come: the bytes
  written to the socket, followed by those that wait in the write buffer, are a concatenation of whole
  messages, in the order in which they were handed to the loop thread. Messages can be missing, but
  none is torn, repeated or overtaken.
\<close>

theorem stream_integrity:
  assumes "c = set_callbacks cb1 cb2 cb3 cb4 (new_NetConnection junk0 sockfd)"
    and "run_fits junk as c" and "conn_run junk as c = Inr (ms, d)"
  shows "\<exists>ks. subseq ks ms \<and> wire_bytes (out d) @ content (writeBuffer d) = concat ks"
proof -
  have "stream c = []" by (simp add: assms(1) stream_def set_callbacks_def new_NetConnection_def Let_def)
  with conn_run_stream [OF _ assms(2,3)] show ?thesis by (simp add: assms(1) stream_def)
qed

text \<open>
  C29. A short write is final: once something waits in the write buffer, no later call, event or task puts
  another byte on the wire, because the handler that would flush the buffer is not installed and
  every later message is dropped.
\<close>

theorem short_write_wedges:
  assumes "c = set_callbacks cb1 cb2 cb3 cb4 (new_NetConnection junk0 sockfd)"
    and "run_fits junk as c" and "conn_run junk as c = Inr (ms, d)" and "content (writeBuffer d) \<noteq> []"
    and "run_fits junk bs d" and "conn_run junk bs d = Inr (ms', e)"
  shows "wire_bytes (out e) = wire_bytes (out d) \<and> content (writeBuffer e) = content (writeBuffer d)"
proof -
  have "run_inv d" using conn_run_stream [OF _ assms(2,3)] by (simp add: assms(1))
  from conn_run_stream [OF this assms(5,6)] assms(4) show ?thesis by simp
qed

section \<open>The incoming stream, and progress\<close>

text \<open>Steps that do not end the connection: nobody closes it, the peer does not, and \<^verbatim>\<open>shutdown(2)\<close> works.\<close>

fun benign :: "conn_op \<Rightarrow> bool" where
  "benign Establish \<longleftrightarrow> False"
| "benign (DoSend il w m) \<longleftrightarrow> True"
| "benign (DoTask w r) \<longleftrightarrow> r = None"
| "benign (DoEvent revs r w) \<longleftrightarrow> r \<noteq> Inr []"
| "benign (DoClose il) \<longleftrightarrow> False"
| "benign (DoShutdown il r) \<longleftrightarrow> r = None"

text \<open>What the descriptor delivers in a step.\<close>

fun inbound :: "conn_op \<Rightarrow> byte list list" where
  "inbound (DoEvent revs r w) =
     (if revs AND (POLLIN OR POLLPRI OR POLLRDHUP) \<noteq> 0 then case r of Inr xs \<Rightarrow> [xs] | Inl _ \<Rightarrow> [] else [])"
| "inbound _ = []"

definition open_inv :: "NetConnection \<Rightarrow> bool" where
  "open_inv c \<longleftrightarrow> run_inv c \<and> state c = eConnected \<and> CloseTask \<notin> set (tasks c)"

lemma sendInReactor_total:
  assumes "run_inv c" and "state c = eConnected"
  shows "\<exists>d. sendInReactor junk w m c = Inr d \<and> event d \<noteq> None"
proof -
  from assms obtain e where inv: "conn_inv c" "buf_inv (writeBuffer c)" "event c = Some e"
    by (auto simp: run_inv_def conn_inv_def)
  show ?thesis
  proof (cases "readableBytes (writeBuffer c) = 0 \<and> (\<exists>n. w = Inr n \<and> n < length m)")
    case True
    then obtain n where n: "w = Inr n" "n < length m" "content (writeBuffer c) = []"
      using length_content [OF inv(2)] by auto
    have "write_room (writeBuffer c) (length (drop n m))"
      using assms(1) n(3) by (auto simp: write_room_def run_inv_def)
    from bq.put_law [OF inv(2) this, of junk] True n inv(3) assms(2) show ?thesis
      by (auto simp: sendInReactor_def with_event_def Let_def)
  next
    case False
    with inv(3) assms(2) show ?thesis by (cases w) (auto simp: sendInReactor_def with_event_def Let_def)
  qed
qed

lemma conn_exec_open:
  assumes "open_inv c" and "answer_fits a c" and "benign a"
  shows "\<exists>d. conn_exec junk a c = Inr d \<and> open_inv d \<and> msgRecvFunc d = msgRecvFunc c \<and>
     (msgRecvFunc c \<longrightarrow> msgs_up (out d) = msgs_up (out c) @ inbound a)"
proof -
  from assms(1) have inv: "run_inv c" "conn_inv c" "state c = eConnected" "CloseTask \<notin> set (tasks c)"
    by (simp_all add: open_inv_def run_inv_def)
  then obtain e where e: "event c = Some e" by (auto simp: conn_inv_def)
  have send: "\<exists>d. sendInReactor junk w m b = Inr d \<and> open_inv d \<and> msgRecvFunc d = msgRecvFunc b \<and>
      msgs_up (out d) = msgs_up (out b)" if "open_inv b" for w m b
  proof -
    from that have b: "run_inv b" "state b = eConnected" "CloseTask \<notin> set (tasks b)" by (simp_all add: open_inv_def)
    then obtain d where d: "sendInReactor junk w m b = Inr d" using sendInReactor_total by blast
    from sendInReactor_step [OF b(1) d] b(2,3) d show ?thesis by (auto simp: open_inv_def)
  qed
  have shut: "\<exists>d. shutdownInReactor None b = Inr d \<and> open_inv d \<and> msgRecvFunc d = msgRecvFunc b \<and>
      msgs_up (out d) = msgs_up (out b)" if "open_inv b" "event b \<noteq> None" for b
    using that by (auto simp: shutdownInReactor_def with_event_def shutdownWrite_def open_inv_def run_inv_frame)
  show ?thesis
  proof (cases a)
    case (DoSend il w m)
    with send [OF assms(1), of w m] inv show ?thesis
      by (cases il) (auto simp: send_def open_inv_def run_inv_frame)
  next
    case (DoTask w r)
    show ?thesis
    proof (cases "tasks c")
      case Nil
      with DoTask assms(1) show ?thesis by (simp add: run_task_def)
    next
      case (Cons t ts)
      have left: "open_inv (c\<lparr>tasks := ts\<rparr>)" using assms(1) Cons by (simp add: open_inv_def run_inv_frame)
      have ev: "event (c\<lparr>tasks := ts\<rparr>) \<noteq> None" using e by simp
      show ?thesis
      proof (cases t)
        case EstablishTask
        obtain d where d: "connEstablished (c\<lparr>tasks := ts\<rparr>) = Inr d"
          using e by (auto simp: connEstablished_def with_event_def Let_def emit_if)
        from connEstablished_step [OF _ d] left d show ?thesis
          using DoTask Cons EstablishTask by (simp add: run_task_def open_inv_def)
      next
        case (SendTask m)
        with DoTask Cons send [OF left, of w m] show ?thesis by (auto simp: run_task_def)
      next
        case CloseTask
        with Cons inv(4) show ?thesis by simp
      next
        case ShutdownTask
        with DoTask Cons assms(3) shut [OF left ev] show ?thesis by (auto simp: run_task_def)
      qed
    qed
  next
    case (DoEvent revs r w)
    let ?e = "e\<lparr>revents := revs\<rparr>"
    have cb: "readCallback e" "writeCallback e" "\<not> closeCallback e" "\<not> errorCallback e" "onRead c = HRead" "onWrite c = HError"
      using inv(2) e by (auto simp: conn_inv_def)
    have fires: "read_fires ?e \<longleftrightarrow> revs AND (POLLIN OR POLLPRI OR POLLRDHUP) \<noteq> 0" by (simp add: read_fires_def)
    show ?thesis
    proof (cases "read_fires ?e")
      case False
      with DoEvent e cb assms(1) fires show ?thesis
        by (auto simp: conn_event_def with_event_def handEvent_def guarded_def conn_handler_def handleError_def)
    next
      case True
      obtain d where d: "handleRead junk r c = Inr d"
      proof (cases r)
        case (Inl err)
        then show ?thesis using e that by (auto simp: handleRead_def with_event_def readfd_def handleError_def)
      next
        case (Inr xs)
        then show ?thesis
          using handleRead_data [OF inv(2) e, of xs junk] DoEvent assms(2,3) that by auto
      qed
      from handleRead_step [OF inv(1) _ d] DoEvent assms(2,3) have step: "run_inv d" "state d = eConnected" "event d = Some e"
          "tasks d = tasks c" "msgRecvFunc d = msgRecvFunc c" "onWrite d = HError"
          "msgRecvFunc c \<longrightarrow> msgs_up (out d) = msgs_up (out c) @ (case r of Inr xs \<Rightarrow> [xs] | Inl _ \<Rightarrow> [])"
        using e inv(3) by (auto simp: run_inv_def conn_inv_def split: sum.splits)
      have "conn_event junk revs r w c = Inr d"
        using True e cb d step(3,6)
        by (auto simp: conn_event_def with_event_def handEvent_def guarded_def conn_handler_def handleError_def)
      with DoEvent step inv(4) True fires show ?thesis by (simp add: open_inv_def)
    qed
  next
    case (DoShutdown il r)
    with assms(3) shut [OF assms(1)] e inv show ?thesis
      by (cases il) (auto simp: shutdown_def open_inv_def run_inv_frame)
  qed (use assms(3) in simp_all)
qed

text \<open>
  C17. As long as neither side closes, a connection with a message callback never fails, stays open, and hands
  up exactly what its socket delivered, read by read and in order, whatever is sent in between.
\<close>

theorem open_connection_serves:
  assumes "connEstablished (set_callbacks cb1 True cb3 cb4 (new_NetConnection junk0 sockfd)) = Inr c"
    and "run_fits junk as c" and "list_all benign as"
  shows "\<exists>ms d. conn_run junk as c = Inr (ms, d) \<and> state d = eConnected \<and> conn_inv d \<and>
     msgs_up (out d) = concat (map inbound as)"
proof -
  have fresh: "msgs_up (out (set_callbacks cb1 True cb3 cb4 (new_NetConnection junk0 sockfd))) = []"
    "tasks (set_callbacks cb1 True cb3 cb4 (new_NetConnection junk0 sockfd)) = []"
    "msgRecvFunc (set_callbacks cb1 True cb3 cb4 (new_NetConnection junk0 sockfd))"
    by (simp_all add: set_callbacks_def new_NetConnection_def Let_def)
  have start: "open_inv c" "msgRecvFunc c" "msgs_up (out c) = []"
    using connEstablished_step [OF run_inv_new assms(1)] fresh by (auto simp: open_inv_def)
  have "\<exists>ms d. conn_run junk as c = Inr (ms, d) \<and> open_inv d \<and> msgs_up (out d) = msgs_up (out c) @ concat (map inbound as)"
    if "open_inv c" "msgRecvFunc c" "run_fits junk as c" "list_all benign as" for c
    using that
  proof (induction as arbitrary: c)
    case (Cons a as)
    obtain b where b: "conn_exec junk a c = Inr b" "open_inv b" "msgRecvFunc b" "msgs_up (out b) = msgs_up (out c) @ inbound a"
      using conn_exec_open [of c a junk] Cons.prems by auto
    with Cons.IH [of b] Cons.prems show ?case by fastforce
  qed simp
  from this [OF start(1,2) assms(2,3)] start(3) show ?thesis by (auto simp: open_inv_def run_inv_def)
qed

section \<open>The three results at work\<close>

definition fresh_conn :: NetConnection where
  "fresh_conn = set_callbacks True True True True (new_NetConnection (\<lambda>_. 0) 7)"

lemma short_write_run:
  "\<exists>d. conn_run (\<lambda>_. 0) [Establish, DoSend True (Inr 1) [1, 2, 3]] fresh_conn = Inr ([[1, 2, 3]], d) \<and>
     content (writeBuffer d) = [2, 3] \<and> wire_bytes (out d) = [1] \<and> state d = eConnected \<and> event d \<noteq> None \<and> run_inv d"
proof -
  obtain b where b: "buf_write (\<lambda>_. 0) (new_Buffer (\<lambda>_. 0)) [2, 3] = Inr b" "buf_inv b" "content b = [2, 3]"
    using bq.put_law [of "new_Buffer (\<lambda>_. 0)" "[2, 3]" "\<lambda>_. 0"] fresh_room [of "length [2, 3 :: byte]" "\<lambda>_. 0"] by auto
  then have "\<exists>d. conn_run (\<lambda>_. 0) [Establish, DoSend True (Inr 1) [1, 2, 3]] fresh_conn = Inr ([[1, 2, 3]], d) \<and>
     content (writeBuffer d) = [2, 3] \<and> wire_bytes (out d) = [1] \<and> state d = eConnected \<and> event d \<noteq> None"
    by (simp add: fresh_conn_def set_callbacks_def new_NetConnection_def connEstablished_def send_def sendInReactor_def
        with_event_def Let_def readableBytes_def new_Buffer_def)
  moreover have "run_fits (\<lambda>_. 0) [Establish, DoSend True (Inr 1) [1, 2, 3]] fresh_conn" by (simp split: sum.splits)
  ultimately show ?thesis using conn_run_stream [of fresh_conn] by (fastforce simp: fresh_conn_def)
qed

theorem stream_integrity_witness:
  "\<exists>d ks. conn_run (\<lambda>_. 0) [Establish, DoSend True (Inr 1) [1, 2, 3]] fresh_conn = Inr ([[1, 2, 3]], d) \<and>
     subseq ks [[1, 2, 3]] \<and> wire_bytes (out d) @ content (writeBuffer d) = concat ks"
proof -
  obtain d where d: "conn_run (\<lambda>_. 0) [Establish, DoSend True (Inr 1) [1, 2, 3]] fresh_conn = Inr ([[1, 2, 3]], d)"
    using short_write_run by blast
  from stream_integrity [OF fresh_conn_def _ d] d show ?thesis by (auto split: sum.splits)
qed

theorem short_write_wedges_witness:
  "\<exists>d e ms. conn_run (\<lambda>_. 0) [Establish, DoSend True (Inr 1) [1, 2, 3]] fresh_conn = Inr ([[1, 2, 3]], d) \<and>
     conn_run (\<lambda>_. 0) [DoSend True (Inr 1) [9]] d = Inr (ms, e) \<and> wire_bytes (out e) = [1] \<and>
     content (writeBuffer e) = [2, 3]"
proof -
  obtain d where d: "conn_run (\<lambda>_. 0) [Establish, DoSend True (Inr 1) [1, 2, 3]] fresh_conn = Inr ([[1, 2, 3]], d)"
    "content (writeBuffer d) = [2, 3]" "wire_bytes (out d) = [1]" "state d = eConnected" "run_inv d"
    using short_write_run by blast
  obtain e ms where e: "conn_run (\<lambda>_. 0) [DoSend True (Inr 1) [9]] d = Inr (ms, e)"
    using sendInReactor_total [OF d(5,4), of "\<lambda>_. 0" "Inr 1" "[9]"] d(4) by (auto simp: send_def)
  from short_write_wedges [OF fresh_conn_def _ d(1) _ _ e] d e show ?thesis by (auto split: sum.splits)
qed

theorem open_connection_serves_witness:
  "\<exists>c ms d. connEstablished fresh_conn = Inr c \<and>
     conn_run (\<lambda>_. 0) [DoEvent POLLIN (Inr [104, 105]) (Inr 0), DoSend False (Inr 0) [1], DoTask (Inr 1) None] c = Inr (ms, d) \<and>
     msgs_up (out d) = [[104, 105]]"
proof -
  obtain c where c: "connEstablished fresh_conn = Inr c" "readBuffer c = new_Buffer (\<lambda>_. 0)"
    by (simp add: fresh_conn_def connEstablished_def set_callbacks_def new_NetConnection_def with_event_def Let_def)
  have "readv_fits (reset (readBuffer c)) (Inr [104, 105])" using c(2) demo_readv by simp
  then have "run_fits (\<lambda>_. 0) [DoEvent POLLIN (Inr [104, 105]) (Inr 0), DoSend False (Inr 0) [1], DoTask (Inr 1) None] c"
    by (simp split: sum.splits)
  from open_connection_serves [OF c(1) [unfolded fresh_conn_def] this] c(1) show ?thesis
    by (auto simp: POLLIN_def POLLPRI_def POLLRDHUP_def)
qed

section \<open>Posted and direct sends\<close>

text \<open>Messages sent one after the other, on the loop thread or off it.\<close>

fun sends :: "(nat \<Rightarrow> byte) \<Rightarrow> bool \<Rightarrow> ((errno + nat) \<times> byte list) list \<Rightarrow> NetConnection \<Rightarrow> NetConnection res" where
  "sends junk il [] c = Inr c"
| "sends junk il ((w, m) # ms) c = res_bind (send junk il w m c) (sends junk il ms)"

lemma sends_post:
  "state c = eConnected \<Longrightarrow> sends junk False ms c = Inr (c\<lparr>tasks := tasks c @ map (SendTask \<circ> snd) ms\<rparr>)"
  by (induction ms arbitrary: c) (auto simp: send_def)

lemma map_sum_bind: "map_sum id f (res_bind r g) = res_bind r (\<lambda>x. map_sum id f (g x))"
  by (cases r) simp_all

lemma sendInReactor_tasks:
  "sendInReactor junk w m (c\<lparr>tasks := ts\<rparr>) = map_sum id (\<lambda>d. d\<lparr>tasks := ts\<rparr>) (sendInReactor junk w m c)"
  by (auto simp: sendInReactor_def with_event_def Let_def emit_def set_event_def map_sum_bind
      split: option.splits sum.splits intro!: arg_cong [where f = "res_bind _"])

lemma sendInReactor_state: "sendInReactor junk w m c = Inr d \<Longrightarrow> state d = state c \<and> tasks d = tasks c"
  by (auto simp: sendInReactor_def with_event_def Let_def res_bind_eq_Inr split: option.splits sum.splits if_splits)

lemma run_posted:
  assumes "state c = eConnected"
  shows "run_tasks junk (map fst ms) (c\<lparr>tasks := map (SendTask \<circ> snd) ms\<rparr>) = map_sum id (\<lambda>d. d\<lparr>tasks := []\<rparr>) (sends junk True ms c)"
  using assms
proof (induction ms arbitrary: c)
  case (Cons a ms)
  obtain w m where a: "a = (w, m)" by (cases a)
  show ?case
  proof (cases "sendInReactor junk w m c")
    case (Inl e)
    with a Cons.prems show ?thesis by (simp add: run_task_def send_def sendInReactor_tasks)
  next
    case (Inr d)
    with Cons.IH [of d] sendInReactor_state [OF Inr] a Cons.prems show ?thesis
      by (simp add: run_task_def send_def sendInReactor_tasks)
  qed
qed simp

text \<open>
  C19. Sending from another thread is equivalent to sending on the loop thread: on an open connection without
  waiting tasks, the loop thread that runs the posted messages does the same to the connection and to
  the wire as the same calls of \<^verbatim>\<open>send\<close> in the loop, whatever \<^verbatim>\<open>write\<close> answers, failures included.
\<close>

theorem posted_sends_equivalent:
  assumes "state c = eConnected" and "tasks c = []"
  shows "res_bind (sends junk False ms c) (run_tasks junk (map fst ms)) = sends junk True ms c"
proof -
  have "map_sum id (\<lambda>d. d\<lparr>tasks := []\<rparr>) (sends junk True ms c) = sends junk True ms c"
    using assms
  proof (induction ms arbitrary: c)
    case (Cons a ms)
    obtain w m where a: "a = (w, m)" by (cases a)
    show ?case
    proof (cases "sendInReactor junk w m c")
      case (Inr d)
      with Cons.IH [of d] sendInReactor_state [OF Inr] a Cons.prems show ?thesis by (simp add: send_def)
    qed (use a Cons.prems in \<open>simp add: send_def\<close>)
  qed simp
  then show ?thesis
    using sends_post [OF assms(1)] run_posted [OF assms(1)] assms(2) by simp
qed

theorem posted_sends_equivalent_witness:
  "res_bind (sends (\<lambda>_. 0) False [(Inr 2, [1, 2]), (Inr 1, [3, 4]), (Inl EAGAIN, [5])] demo_conn)
     (run_tasks (\<lambda>_. 0) [Inr 2, Inr 1, Inl EAGAIN]) =
   sends (\<lambda>_. 0) True [(Inr 2, [1, 2]), (Inr 1, [3, 4]), (Inl EAGAIN, [5])] demo_conn"
  using posted_sends_equivalent [of demo_conn "\<lambda>_. 0" "[(Inr 2, [1, 2]), (Inr 1, [3, 4]), (Inl EAGAIN, [5])]"]
  by (simp only: demo_conn_facts list.map fst_conv)

end
