(* ===== verification/ConnectionLife.thy ===== *)
theory ConnectionLife
  imports ConnectionRuns
begin

text \<open>
  The life of a server-side connection: accepted, open, being closed by the server, closed. Each
  operation is total in the phases in which it can occur, leads to a known phase, and makes a known
  sequence of calls to the upper layer. The four phases are told apart by the state, the posted tasks and
  the event handler.
\<close>

section \<open>Phases\<close>

fun is_send :: "conn_task \<Rightarrow> bool" where
  "is_send (SendTask m) \<longleftrightarrow> True"
| "is_send _ \<longleftrightarrow> False"

definition waiting :: "NetConnection \<Rightarrow> bool" where
  "waiting c \<longleftrightarrow> state c = eDisconnected \<and> tasks c = [EstablishTask] \<and>
     (case event c of None \<Rightarrow> False | Some e \<Rightarrow> events e = csEventNone)"

definition opened :: "NetConnection \<Rightarrow> bool" where
  "opened c \<longleftrightarrow> state c = eConnected \<and> list_all is_send (tasks c)"

definition closing :: "NetConnection \<Rightarrow> bool" where
  "closing c \<longleftrightarrow> state c = eDisconnected \<and> event c \<noteq> None \<and> tasks c \<noteq> [] \<and> last (tasks c) = CloseTask \<and>
     list_all is_send (butlast (tasks c))"

definition gone :: "NetConnection \<Rightarrow> bool" where
  "gone c \<longleftrightarrow> state c = eDisconnected \<and> event c = None \<and> list_all is_send (tasks c)"

definition life :: "NetConnection \<Rightarrow> bool" where
  "life c \<longleftrightarrow> run_inv c \<and> connCallbackFunc c \<and> msgRecvFunc c \<and> closeFunc c \<and>
     (waiting c \<or> opened c \<or> closing c \<or> gone c)"

lemmas phase_defs = waiting_def opened_def closing_def gone_def

text \<open>The calls to the upper layer among the outputs.\<close>

fun is_up :: "conn_out \<Rightarrow> bool" where
  "is_up (ConnCb st) \<longleftrightarrow> True"
| "is_up (MsgCb xs) \<longleftrightarrow> True"
| "is_up CloseCb \<longleftrightarrow> True"
| "is_up _ \<longleftrightarrow> False"

definition ups :: "conn_out list \<Rightarrow> conn_out list" where
  "ups xs = filter is_up xs"

lemma ups_simps [simp]:
  "ups [] = []" "ups (xs @ ys) = ups xs @ ups ys" "ups (x # xs) = (if is_up x then x # ups xs else ups xs)"
  by (simp_all add: ups_def)

text \<open>
  \<open>d\<close> extends the outputs of \<open>c\<close> by the calls \<open>us\<close> and outputs that are not calls.
\<close>

definition calls :: "conn_out list \<Rightarrow> NetConnection \<Rightarrow> NetConnection \<Rightarrow> bool" where
  "calls us c d \<longleftrightarrow> (\<exists>ys. out d = out c @ ys \<and> ups ys = us) \<and>
     connCallbackFunc d = connCallbackFunc c \<and> msgRecvFunc d = msgRecvFunc c \<and> closeFunc d = closeFunc c"

lemma callsI:
  assumes "out d = out c @ ys" and "ups ys = us" and "connCallbackFunc d = connCallbackFunc c"
    and "msgRecvFunc d = msgRecvFunc c" and "closeFunc d = closeFunc c"
  shows "calls us c d"
  using assms by (simp add: calls_def)

lemma calls_refl [simp]: "calls [] c c"
  by (simp add: calls_def)

lemma calls_fields [simp]:
  "calls us (c\<lparr>tasks := ts\<rparr>) d \<longleftrightarrow> calls us c d" "calls us c (d\<lparr>tasks := ts\<rparr>) \<longleftrightarrow> calls us c d"
  "calls us (c\<lparr>state := st\<rparr>) d \<longleftrightarrow> calls us c d" "calls us c (d\<lparr>state := st\<rparr>) \<longleftrightarrow> calls us c d"
  "calls us c (d\<lparr>writeBuffer := b\<rparr>) \<longleftrightarrow> calls us c d" "calls us c (d\<lparr>readBuffer := b\<rparr>) \<longleftrightarrow> calls us c d"
  "calls us (c\<lparr>readBuffer := b\<rparr>) d \<longleftrightarrow> calls us c d" "calls us c (d\<lparr>event := e\<rparr>) \<longleftrightarrow> calls us c d"
  by (simp_all add: calls_def)

lemma calls_emit: "calls us c d \<Longrightarrow> calls (us @ ups xs) c (emit xs d)"
  unfolding calls_def emit_def by auto

lemma calls_out: "calls us c d \<Longrightarrow> ups (drop (length (out c)) (out d)) = us"
  by (auto simp: calls_def)

section \<open>Operations\<close>

lemma calls_quiet [simp]: "ups xs = [] \<Longrightarrow> calls us c d \<Longrightarrow> calls us c (emit xs d)"
  using calls_emit [of us c d xs] by simp

lemma calls_set_event [simp]: "calls us c d \<Longrightarrow> calls us c (set_event e d)"
  by (simp add: set_event_def)

lemma sendInReactor_calls:
  assumes "sendInReactor junk w m c = Inr d"
  shows "calls [] c d \<and> (event d = None \<longleftrightarrow> event c = None) \<and> readBuffer d = readBuffer c"
proof (cases "state c = eDisconnected \<or> readableBytes (writeBuffer c) \<noteq> 0 \<or> (\<exists>err. w = Inl err)")
  case True
  with assms have "d = emit [Dropped m] c"
    by (auto simp: sendInReactor_def with_event_def split: if_splits option.splits)
  then show ?thesis by simp
next
  case False
  then obtain n e where n: "w = Inr n" and e: "event c = Some e" and c: "state c \<noteq> eDisconnected" "readableBytes (writeBuffer c) = 0"
    using assms by (cases w) (auto simp: sendInReactor_def with_event_def split: option.splits)
  show ?thesis
  proof (cases "n < length m")
    case True
    then obtain b where "buf_write junk (writeBuffer c) (drop n m) = Inr b"
      using assms n e c by (auto simp: sendInReactor_def with_event_def Let_def res_bind_eq_Inr)
    with True n e c assms show ?thesis
      by (cases "isWriteable e") (auto simp: sendInReactor_def with_event_def Let_def)
  next
    case False
    with n e c assms show ?thesis
      by (cases "writeCompleteFunc c") (auto simp: sendInReactor_def with_event_def Let_def)
  qed
qed

text \<open>\<^verbatim>\<open>sendInReactor\<close> in any phase: it never fails and does not change the phase.\<close>

lemma sendInReactor_life:
  assumes "run_inv c" and "state c = eConnected \<or> state c = eDisconnected"
  shows "\<exists>d. sendInReactor junk w m c = Inr d \<and> run_inv d \<and> state d = state c \<and> tasks d = tasks c \<and>
     (event d = None \<longleftrightarrow> event c = None) \<and> readBuffer d = readBuffer c \<and> calls [] c d"
proof -
  obtain d where d: "sendInReactor junk w m c = Inr d"
  proof (cases "state c = eConnected")
    case True
    with sendInReactor_total [OF assms(1)] show ?thesis using that by blast
  next
    case False
    with assms(2) show ?thesis using that by (simp add: sendInReactor_def)
  qed
  from sendInReactor_step [OF assms(1) d] sendInReactor_calls [OF d] d show ?thesis by auto
qed

text \<open>A waiting connection has never been sent anything.\<close>

lemma life_send:
  assumes "life c"
  shows "\<exists>d. send junk il w m c = Inr d \<and> life d \<and> calls [] c d \<and> state d = state c \<and>
     (waiting c \<longrightarrow> waiting d) \<and> readBuffer d = readBuffer c"
proof (cases "state c = eConnected")
  case True
  then have c: "run_inv c" "list_all is_send (tasks c)" "connCallbackFunc c" "msgRecvFunc c" "closeFunc c" "\<not> waiting c"
    using assms by (auto simp: life_def phase_defs)
  show ?thesis
  proof (cases il)
    case True
    from sendInReactor_life [OF c(1), of junk w m] \<open>state c = eConnected\<close> obtain d where
      "sendInReactor junk w m c = Inr d" "run_inv d" "state d = state c" "tasks d = tasks c" "calls [] c d"
      "readBuffer d = readBuffer c" by blast
    with True c \<open>state c = eConnected\<close> show ?thesis
      by (auto simp: send_def life_def opened_def calls_def)
  next
    case False
    with c \<open>state c = eConnected\<close> show ?thesis
      by (auto simp: send_def life_def opened_def run_inv_frame)
  qed
next
  case False
  with assms show ?thesis by (auto simp: send_def life_def run_inv_frame phase_defs)
qed

lemma life_forceClose:
  assumes "life c"
  shows "\<exists>d. forceClose False c = Inr d \<and> life d \<and> calls [] c d \<and> state d = eDisconnected \<and>
     (opened c \<longrightarrow> closing d) \<and> (\<not> opened c \<longrightarrow> d = c)"
proof (cases "state c = eConnected")
  case True
  then have c: "run_inv c" "list_all is_send (tasks c)" "connCallbackFunc c" "msgRecvFunc c" "closeFunc c" "event c \<noteq> None" "opened c"
    using assms by (auto simp: life_def phase_defs run_inv_def conn_inv_def)
  with True show ?thesis
    by (auto simp: forceClose_def Let_def life_def closing_def run_inv_frame)
next
  case False
  with assms show ?thesis by (auto simp: forceClose_def life_def phase_defs)
qed

lemma handleClose_life:
  assumes "run_inv c" and "event c \<noteq> None" and "connCallbackFunc c" and "closeFunc c"
  shows "\<exists>d. handleClose c = Inr d \<and> run_inv d \<and> event d = None \<and> state d = eDisconnected \<and> tasks d = tasks c \<and>
     calls [ConnCb eDisconnected, CloseCb] c d"
proof -
  obtain e where e: "event c = Some e" using assms(2) by auto
  have "handleClose c = Inr (emit [ConnCb eDisconnected, CloseCb, PollUpdate csEventNone, PollRemove]
      (c\<lparr>state := eDisconnected, event := None\<rparr>))"
    using e assms(3,4) by (simp add: handleClose_def with_event_def Let_def emit_def)
  then show ?thesis
    using assms(1) handleClose_step [OF assms(1)] by (auto simp: calls_def emit_def)
qed

text \<open>The oldest task, phase by phase.\<close>

lemma life_task:
  assumes "life c"
  shows "\<exists>d us. run_task junk w None c = Inr d \<and> life d \<and> calls us c d \<and> readBuffer d = readBuffer c \<and>
     us = (if waiting c then [ConnCb eConnected] else if tasks c = [CloseTask] then [ConnCb eDisconnected, CloseCb] else []) \<and>
     (if waiting c then opened d else state d = state c)"
proof (cases "tasks c")
  case Nil
  with assms show ?thesis by (auto simp: run_task_def waiting_def)
next
  case (Cons t ts)
  from assms have c: "run_inv c" "connCallbackFunc c" "msgRecvFunc c" "closeFunc c" by (simp_all add: life_def)
  let ?c = "c\<lparr>tasks := ts\<rparr>"
  have left: "run_inv ?c" by (rule run_inv_frame(1) [OF c(1)])
  show ?thesis
  proof (cases t)
    case EstablishTask
    with assms Cons have w: "waiting c" "ts = []" by (auto simp: life_def phase_defs split: if_splits)
    then obtain e where e: "event c = Some e" by (auto simp: waiting_def split: option.splits)
    let ?d = "set_event (set_enableRead e) (emit [ConnCb eConnected] (?c\<lparr>state := eConnected\<rparr>))"
    have d: "connEstablished ?c = Inr ?d" using e c(2) by (simp add: connEstablished_def with_event_def Let_def)
    have "run_inv ?d" using connEstablished_step [OF left d] by simp
    moreover have "calls [ConnCb eConnected] c ?d"
      using calls_emit [of "[]" c c "[ConnCb eConnected]"] by (simp add: calls_def)
    ultimately show ?thesis
      using Cons EstablishTask w d c by (auto simp: run_task_def life_def opened_def)
  next
    case (SendTask m)
    with assms Cons have nw: "\<not> waiting c" "tasks c \<noteq> [CloseTask]" by (auto simp: waiting_def)
    have "state ?c = eConnected \<or> state ?c = eDisconnected" using assms by (auto simp: life_def phase_defs)
    from sendInReactor_life [OF left this, of junk w m] obtain d where d: "sendInReactor junk w m ?c = Inr d" "run_inv d"
      "state d = state c" "tasks d = ts" "event d = None \<longleftrightarrow> event c = None" "calls [] c d" "readBuffer d = readBuffer c"
      by auto
    moreover have "opened d \<or> closing d \<or> gone d"
      using assms nw Cons SendTask d(3-5) by (auto simp: life_def phase_defs split: if_splits)
    ultimately show ?thesis
      using Cons SendTask nw c by (auto simp: run_task_def life_def calls_def)
  next
    case CloseTask
    with assms Cons have cl: "closing c" "ts = []" by (auto simp: life_def phase_defs split: if_splits)
    then have ev: "event ?c \<noteq> None" by (simp add: closing_def)
    from handleClose_life [OF left this] c obtain d where d: "handleClose ?c = Inr d" "run_inv d" "event d = None"
      "state d = eDisconnected" "tasks d = []" "calls [ConnCb eDisconnected, CloseCb] c d"
      using cl(2) by auto
    moreover have "readBuffer d = readBuffer c"
      using handleClose_result [of ?c] ev d(1) by auto
    ultimately show ?thesis
      using Cons CloseTask cl c by (auto simp: run_task_def life_def gone_def calls_def closing_def waiting_def)
  next
    case ShutdownTask
    with assms Cons show ?thesis by (auto simp: life_def phase_defs split: if_splits)
  qed
qed

text \<open>
  A read event on a registered descriptor: data goes up, an error changes nothing, the end of the
  stream closes an open connection. (On a connection that is already being closed the end of the stream
  is the one event that must not come.)
\<close>

lemma life_read:
  assumes "life c" and "opened c \<or> closing c" and "readv_fits (reset (readBuffer c)) r"
    and "r = Inr [] \<longrightarrow> opened c"
  shows "\<exists>d. handleRead junk r c = Inr d \<and> life d \<and> run_inv d \<and>
     calls (case r of Inl _ \<Rightarrow> [] | Inr xs \<Rightarrow> if xs = [] then [ConnCb eDisconnected, CloseCb] else [MsgCb xs]) c d \<and>
     (if r = Inr [] then gone d else state d = state c) \<and>
     (\<forall>xs. r = Inr xs \<longrightarrow> xs \<noteq> [] \<longrightarrow> content (readBuffer d) = xs)"
proof -
  from assms(1) have c: "run_inv c" "conn_inv c" "connCallbackFunc c" "msgRecvFunc c" "closeFunc c"
    by (simp_all add: life_def run_inv_def)
  from assms(1,2) obtain e where e: "event c = Some e" using c(2) by (auto simp: phase_defs conn_inv_def)
  show ?thesis
  proof (cases r)
    case (Inl err)
    have "run_inv (c\<lparr>readBuffer := reset (readBuffer c)\<rparr>)"
      using c(1) reset_inv by (auto simp: run_inv_def conn_inv_def)
    with Inl e c assms(2) show ?thesis
      by (auto simp: handleRead_def with_event_def readfd_def handleError_def life_def phase_defs)
  next
    case (Inr xs)
    show ?thesis
    proof (cases "xs = []")
      case True
      let ?c = "c\<lparr>readBuffer := reset (readBuffer c)\<rparr>"
      have "run_inv ?c" using c(1) reset_inv by (auto simp: run_inv_def conn_inv_def)
      from handleClose_life [OF this] e c obtain d where d: "handleClose ?c = Inr d" "run_inv d" "event d = None"
        "state d = eDisconnected" "tasks d = tasks c" "calls [ConnCb eDisconnected, CloseCb] c d" by auto
      moreover have "list_all is_send (tasks c)" using assms(4) Inr True by (simp add: opened_def)
      ultimately show ?thesis
        using handleRead_eof [OF c(2) e, of junk] Inr True c by (auto simp: life_def gone_def calls_def)
    next
      case False
      from handleRead_data [OF c(2) e False, of junk] assms(3) Inr obtain d where d: "handleRead junk r c = Inr d"
        "event d = event c" "state d = state c" "out d = out c @ [MsgCb xs]" "tasks d = tasks c" "msgRecvFunc d = msgRecvFunc c"
        "connCallbackFunc d = connCallbackFunc c" "closeFunc d = closeFunc c" "content (readBuffer d) = xs"
        using c(4) by auto
      moreover have "run_inv d" using handleRead_step [OF c(1) assms(3) d(1)] by simp
      ultimately show ?thesis
        using assms(2) c Inr False by (auto simp: life_def phase_defs calls_def)
    qed
  qed
qed

end
