(* ===== verification/Runs.thy ===== *)
theory Runs
  imports Prelude
begin

text \<open>
  Sequences of steps of a system whose operations may fail or not return: a run stops at the first fault,
  and \<open>None\<close> is a call that does not return. The locale \<open>guarded_steps\<close> is the contract of such a system:
  every step that can occur succeeds and keeps an invariant.
\<close>

definition go :: "'a res option \<Rightarrow> ('a \<Rightarrow> 'b res option) \<Rightarrow> 'b res option" where
  "go r f = (case r of None \<Rightarrow> None | Some (Inl e) \<Rightarrow> Some (Inl e) | Some (Inr x) \<Rightarrow> f x)"

lemma go_simps [simp]: "go (Some (Inr x)) f = f x" "go (Some (Inl e)) f = Some (Inl e)" "go None f = None"
  by (simp_all add: go_def)

fun steps :: "('a \<Rightarrow> 's \<Rightarrow> 's res option) \<Rightarrow> 'a list \<Rightarrow> 's \<Rightarrow> 's res option" where
  "steps exec [] s = Some (Inr s)"
| "steps exec (a # as) s = go (exec a s) (steps exec as)"

text \<open>Every step of the run can occur in the state the run has reached.\<close>

fun all_ok :: "('a \<Rightarrow> 's \<Rightarrow> 's res option) \<Rightarrow> ('a \<Rightarrow> 's \<Rightarrow> bool) \<Rightarrow> 'a list \<Rightarrow> 's \<Rightarrow> bool" where
  "all_ok exec can [] s \<longleftrightarrow> True"
| "all_ok exec can (a # as) s \<longleftrightarrow>
     can a s \<and> (case exec a s of Some (Inr t) \<Rightarrow> all_ok exec can as t | _ \<Rightarrow> True)"

lemma steps_append: "steps exec (as @ bs) s = go (steps exec as s) (steps exec bs)"
  by (induction as arbitrary: s) (auto simp: go_def split: option.splits sum.splits)

lemma steps_join: "steps exec as s = Some (Inr t) \<Longrightarrow> steps exec bs t = r \<Longrightarrow> steps exec (as @ bs) s = r"
  by (simp add: steps_append)

text \<open>\<open>held\<close> is what the system holds on to, \<open>gain\<close> what a step adds to it.\<close>

locale guarded_steps =
  fixes exec :: "'a \<Rightarrow> 's \<Rightarrow> 's res option"
    and can :: "'a \<Rightarrow> 's \<Rightarrow> bool"
    and inv :: "'s \<Rightarrow> bool"
    and held :: "'s \<Rightarrow> 'p set"
    and gain :: "'a \<Rightarrow> 'p set"
  assumes step: "inv s \<Longrightarrow> can a s \<Longrightarrow> \<exists>t. exec a s = Some (Inr t) \<and> inv t \<and> held t = held s \<union> gain a"
begin

lemma run:
  assumes "inv s" and "all_ok exec can as s"
  shows "\<exists>t. steps exec as s = Some (Inr t) \<and> inv t \<and> held t = held s \<union> \<Union> (gain ` set as)"
  using assms
proof (induction as arbitrary: s)
  case (Cons a as)
  from Cons.prems step [of s a] obtain u where u: "exec a s = Some (Inr u)" "inv u" "held u = held s \<union> gain a" by auto
  from Cons.IH [OF u(2)] Cons.prems(2) u(1) obtain t where
    "steps exec as u = Some (Inr t)" "inv t" "held t = held u \<union> \<Union> (gain ` set as)" by auto
  with u show ?case by auto
qed simp

lemma run_then:
  assumes "inv s" and "all_ok exec can as s" and "\<And>u. inv u \<Longrightarrow> \<exists>t. exec a u = Some (Inr t) \<and> P t"
  shows "\<exists>t. steps exec (as @ [a]) s = Some (Inr t) \<and> P t"
proof -
  from run [OF assms(1,2)] obtain u where u: "steps exec as s = Some (Inr u)" "inv u" by blast
  from assms(3) [OF u(2)] u(1) show ?thesis by (auto simp: steps_append)
qed

end

end
