(* ===== verification/ServerRuns.thy ===== *)
theory ServerRuns
  imports ServerEndpoint ConnectionLife Runs
begin

text \<open>
  A whole \<^verbatim>\<open>WebSocketServer\<close> at work: the acceptor, the reactor thread of the connections, the timer
  thread of the heartbeat and the application act on it in any order. The calls that a connection makes to
  its upper layer are carried out here: \<^verbatim>\<open>onConnNew\<close> (also when a connection goes down), \<^verbatim>\<open>removeConn\<close>,
  which posts to the server's own reactor, and \<^verbatim>\<open>onConnMessage\<close>.
\<close>

section \<open>The system\<close>

text \<open>\<open>removes\<close> are the posted calls of \<^verbatim>\<open>removeConnInLoop\<close>.\<close>

record server_sys =
  sk :: WebSocketServer
  removes :: "nat list"

text \<open>An operation of the connection at \<open>p\<close>; the result has its new outputs.\<close>

definition on_conn ::
    "nat \<Rightarrow> (NetConnection \<Rightarrow> NetConnection res) \<Rightarrow> server_sys \<Rightarrow> (conn_out list \<times> server_sys) res" where
  "on_conn p f s =
     (case server (sk s) of
        None \<Rightarrow> Inl NullDeref
      | Some srv \<Rightarrow>
          (case ServerSide.heap srv p of
             None \<Rightarrow> Inl UseAfterFree
           | Some c \<Rightarrow> res_bind (f c) (\<lambda>d.
               Inr (drop (length (out c)) (out d),
                    s\<lparr>sk := (sk s)\<lparr>server := Some (srv\<lparr>ServerSide.heap := (ServerSide.heap srv)(p \<mapsto> d)\<rparr>)\<rparr>\<rparr>))))"

definition with_buffer :: "nat \<Rightarrow> Buffer \<Rightarrow> WebSocketServer \<Rightarrow> WebSocketServer" where
  "with_buffer p b k =
     (case server k of
        None \<Rightarrow> k
      | Some srv \<Rightarrow> k\<lparr>server := Some (srv\<lparr>ServerSide.heap := (ServerSide.heap srv)(p :=
          map_option (\<lambda>c. c\<lparr>readBuffer := b\<rparr>) (ServerSide.heap srv p))\<rparr>)\<rparr>)"

definition deliver ::
    "WSHead \<Rightarrow> (nat \<Rightarrow> byte) \<Rightarrow> (nat \<Rightarrow> errno + nat) \<Rightarrow> Timestamp \<Rightarrow> nat \<Rightarrow> server_sys \<Rightarrow> server_sys res option" where
  "deliver header0 junk w clk p s =
     (case Option.bind (server (sk s)) (\<lambda>srv. ServerSide.heap srv p) of
        None \<Rightarrow> Some (Inl UseAfterFree)
      | Some c \<Rightarrow> map_option (\<lambda>r. res_bind r (\<lambda>(k, b). Inr (s\<lparr>sk := with_buffer p b k\<rparr>)))
          (srv_onConnMessage header0 junk True w clk p (readBuffer c) (sk s)))"

fun upcall ::
    "WSHead \<Rightarrow> (nat \<Rightarrow> byte) \<Rightarrow> (nat \<Rightarrow> errno + nat) \<Rightarrow> Timestamp \<Rightarrow> nat \<Rightarrow> conn_out \<Rightarrow> server_sys \<Rightarrow> server_sys res option" where
  "upcall header0 junk w clk p (ConnCb st) s =
     Some (res_bind (onConnNew header0 junk True w clk p (sk s)) (\<lambda>k. Inr (s\<lparr>sk := k\<rparr>)))"
| "upcall header0 junk w clk p CloseCb s = Some (Inr (s\<lparr>removes := removes s @ [p]\<rparr>))"
| "upcall header0 junk w clk p (MsgCb xs) s = deliver header0 junk w clk p s"
| "upcall header0 junk w clk p _ s = Some (Inr s)"

fun upcalls ::
    "WSHead \<Rightarrow> (nat \<Rightarrow> byte) \<Rightarrow> (nat \<Rightarrow> errno + nat) \<Rightarrow> Timestamp \<Rightarrow> nat \<Rightarrow> conn_out list \<Rightarrow> server_sys
     \<Rightarrow> server_sys res option" where
  "upcalls header0 junk w clk p [] s = Some (Inr s)"
| "upcalls header0 junk w clk p (x # xs) s =
     go (upcall header0 junk w clk p x s) (upcalls header0 junk w clk p xs)"

text \<open>
  The steps. The server has one reactor thread for its connections besides its own, so
  \<^verbatim>\<open>connEstablished\<close> is always posted. A readable descriptor runs the read handler of its connection;
  what \<^verbatim>\<open>handEvent\<close> does behind a handler that has deleted itself is not repeated here. \<open>w\<close> answers the
  writes, \<open>clk\<close> is the clock.
\<close>

datatype srv_op =
    Accept nat int sockaddr_in sockaddr_in
  | Task nat "errno + nat" Timestamp
  | Readable nat "int + byte list" "nat \<Rightarrow> errno + nat" Timestamp
  | RunRemove
  | Tick Timestamp
  | AppSend bool string "byte list" "nat \<Rightarrow> errno + nat"

fun srv_exec ::
    "WSHead \<Rightarrow> (nat \<Rightarrow> byte) \<Rightarrow> (uint32 \<Rightarrow> string) \<Rightarrow> srv_op \<Rightarrow> server_sys \<Rightarrow> server_sys res option" where
  "srv_exec header0 junk ntop (Accept p sockfd peer local) s =
     Some (case server (sk s) of
        None \<Rightarrow> Inl UseAfterFree
      | Some srv \<Rightarrow> res_bind (newConnAccept junk ntop (Inr local) p False sockfd peer srv) (\<lambda>(_, srv).
          Inr (s\<lparr>sk := (sk s)\<lparr>server := Some srv\<rparr>\<rparr>)))"
| "srv_exec header0 junk ntop (Task p w clk) s =
     go (Some (on_conn p (run_task junk w None) s)) (\<lambda>(us, s). upcalls header0 junk (\<lambda>_. w) clk p us s)"
| "srv_exec header0 junk ntop (Readable p r w clk) s =
     go (Some (on_conn p (handleRead junk r) s)) (\<lambda>(us, s). upcalls header0 junk w clk p us s)"
| "srv_exec header0 junk ntop RunRemove s =
     Some (case (removes s, server (sk s)) of
        (p # ps, Some srv) \<Rightarrow> Inr (s\<lparr>sk := (sk s)\<lparr>server := Some (removeConnInLoop p srv)\<rparr>, removes := ps\<rparr>)
      | _ \<Rightarrow> Inr s)"
| "srv_exec header0 junk ntop (Tick clk) s =
     Some (case (hb_recv (sk s), server (sk s)) of
        (Some v, Some srv) \<Rightarrow> res_bind (timerCallback_recv False clk (v, ServerSide.heap srv)) (\<lambda>(v, H).
          Inr (s\<lparr>sk := (sk s)\<lparr>hb_recv := Some v, server := Some (srv\<lparr>ServerSide.heap := H\<rparr>)\<rparr>\<rparr>))
      | _ \<Rightarrow> Inr s)"
| "srv_exec header0 junk ntop (AppSend il name data w) s =
     Some (res_bind (srv_send header0 junk il w name data (int (length data)) (sk s)) (\<lambda>(_, k).
       Inr (s\<lparr>sk := k\<rparr>)))"

abbreviation srv_run ::
    "WSHead \<Rightarrow> (nat \<Rightarrow> byte) \<Rightarrow> (uint32 \<Rightarrow> string) \<Rightarrow> srv_op list \<Rightarrow> server_sys \<Rightarrow> server_sys res option" where
  "srv_run header0 junk ntop \<equiv> steps (srv_exec header0 junk ntop)"

text \<open>
  When a step can occur. \<^verbatim>\<open>new\<close> returns a fresh pointer; only a descriptor that is watched for input is
  readable, and \<^verbatim>\<open>readv\<close> returns what fits; the application sends something. Two conditions keep out
  what is known to fail: bytes on which the decoder aborts or does not return, and the end of the
  stream on a connection whose close task is still waiting.
\<close>

definition decodes :: "(nat \<Rightarrow> byte) \<Rightarrow> byte list \<Rightarrow> bool" where
  "decodes junk xs =
     (case decodeFrame (new_WSProtocol junk) (xs @ [0]) (int (length xs)) of Some (Inr t) \<Rightarrow> True | _ \<Rightarrow> False)"

definition conn_at :: "nat \<Rightarrow> server_sys \<Rightarrow> NetConnection option" where
  "conn_at p s = Option.bind (server (sk s)) (\<lambda>srv. ServerSide.heap srv p)"

fun srv_ok :: "(nat \<Rightarrow> byte) \<Rightarrow> srv_op \<Rightarrow> server_sys \<Rightarrow> bool" where
  "srv_ok junk (Accept p sockfd peer local) s \<longleftrightarrow> p \<noteq> 0 \<and> conn_at p s = None"
| "srv_ok junk (Task p w clk) s \<longleftrightarrow> conn_at p s \<noteq> None"
| "srv_ok junk (Readable p r w clk) s \<longleftrightarrow>
     (case conn_at p s of
        None \<Rightarrow> False
      | Some c \<Rightarrow>
          (case event c of None \<Rightarrow> False | Some e \<Rightarrow> events e AND csEventRead \<noteq> 0) \<and>
          readv_fits (reset (readBuffer c)) r \<and>
          (case r of
             Inl _ \<Rightarrow> True
           | Inr xs \<Rightarrow> if xs = [] then CloseTask \<notin> set (tasks c) else decodes junk xs))"
| "srv_ok junk RunRemove s \<longleftrightarrow> True"
| "srv_ok junk (Tick clk) s \<longleftrightarrow> True"
| "srv_ok junk (AppSend il name data w) s \<longleftrightarrow> data \<noteq> []"

abbreviation srv_oks ::
    "WSHead \<Rightarrow> (nat \<Rightarrow> byte) \<Rightarrow> (uint32 \<Rightarrow> string) \<Rightarrow> srv_op list \<Rightarrow> server_sys \<Rightarrow> bool" where
  "srv_oks header0 junk ntop \<equiv> all_ok (srv_exec header0 junk ntop) (srv_ok junk)"

section \<open>The invariant\<close>

text \<open>
  Every connection object is in one of the phases of its life; table and heartbeat list lead to
  allocated connections; every open connection outside \<open>X\<close> has a heartbeat entry.
\<close>

definition core_inv :: "nat set \<Rightarrow> NetServer \<Rightarrow> HeartbeatRecv \<Rightarrow> bool" where
  "core_inv X srv v \<longleftrightarrow> server_inv srv \<and> cb_conn srv \<and> cb_msg srv \<and> ServerSide.heap srv 0 = None \<and>
     (\<forall>p c. ServerSide.heap srv p = Some c \<longrightarrow> life c) \<and> recv_inv v (ServerSide.heap srv) \<and>
     (\<forall>p c. ServerSide.heap srv p = Some c \<longrightarrow> state c = eConnected \<longrightarrow> p \<in> X \<or> p \<in> fst ` set (connList v))"

definition sys_inv :: "server_sys \<Rightarrow> bool" where
  "sys_inv s \<longleftrightarrow> (\<exists>srv v. server (sk s) = Some srv \<and> hb_recv (sk s) = Some v \<and> core_inv {} srv v \<and>
     set (removes s) \<subseteq> dom (ServerSide.heap srv))"

lemma life_conn_inv: "life c \<Longrightarrow> conn_inv c"
  by (simp add: life_def run_inv_def)

lemma core_weaken: "core_inv X srv v \<Longrightarrow> X \<subseteq> Y \<Longrightarrow> core_inv Y srv v"
  unfolding core_inv_def by blast

lemma core_ptr: "core_inv X srv v \<Longrightarrow> ServerSide.heap srv p = Some c \<Longrightarrow> p \<noteq> 0 \<and> life c"
  unfolding core_inv_def by (cases "p = 0") simp_all

lemma core_heap:
  assumes "core_inv X srv v" and "p \<noteq> 0" and "life d"
    and "ServerSide.heap srv p = Some c" and "state d = eConnected \<longrightarrow> state c = eConnected \<or> p \<in> X"
  shows "core_inv X (srv\<lparr>ServerSide.heap := (ServerSide.heap srv)(p \<mapsto> d)\<rparr>) v"
proof -
  have "server_inv (srv\<lparr>ServerSide.heap := (ServerSide.heap srv)(p \<mapsto> d)\<rparr>)"
    using assms(1) by (auto simp: core_inv_def server_inv_def)
  moreover have "recv_inv v ((ServerSide.heap srv)(p \<mapsto> d))"
    using assms(1,3) recv_inv_heap life_conn_inv by (simp add: core_inv_def)
  ultimately show ?thesis using assms unfolding core_inv_def by auto
qed

lemma core_touch:
  assumes "core_inv X srv v" and "ServerSide.heap srv p = Some c"
  shows "core_inv (X - {p}) srv (v\<lparr>connList := touch p t (connList v)\<rparr>)"
proof -
  have "p \<noteq> 0" using core_ptr [OF assms] by simp
  moreover have "conn_inv c" using core_ptr [OF assms] life_conn_inv by simp
  ultimately have "recv_inv (v\<lparr>connList := touch p t (connList v)\<rparr>) (ServerSide.heap srv)"
    using assms recv_inv_touch by (auto simp: core_inv_def)
  with assms(1) show ?thesis by (auto simp: core_inv_def touch_keys)
qed

text \<open>
  What a call does to the rest of the system: nothing. It may send on the connection at \<open>p\<close>, touches its
  heartbeat entry, and calls the application.
\<close>

definition at_conn :: "nat \<Rightarrow> NetServer \<Rightarrow> NetServer \<Rightarrow> bool" where
  "at_conn p srv srv' \<longleftrightarrow> (\<exists>H. srv' = srv\<lparr>ServerSide.heap := H\<rparr> \<and> dom H = dom (ServerSide.heap srv) \<and>
     (\<forall>q. q \<noteq> p \<longrightarrow> H q = ServerSide.heap srv q) \<and>
     (\<forall>c. ServerSide.heap srv p = Some c \<longrightarrow> (\<exists>d. H p = Some d \<and> state d = state c \<and> readBuffer d = readBuffer c)))"

lemma at_conn_refl [simp]: "at_conn p srv srv"
  unfolding at_conn_def by (rule exI [of _ "ServerSide.heap srv"]) simp

lemma at_conn_dom: "at_conn p a b \<Longrightarrow> dom (ServerSide.heap b) = dom (ServerSide.heap a)"
  unfolding at_conn_def by (elim exE conjE) simp

lemma at_conn_Some:
  "at_conn p a b \<Longrightarrow> ServerSide.heap a p = Some c \<Longrightarrow>
     \<exists>d. ServerSide.heap b p = Some d \<and> state d = state c \<and> readBuffer d = readBuffer c"
  by (auto simp: at_conn_def)

lemma at_conn_trans:
  assumes ab: "at_conn p a b" and bc: "at_conn p b c"
  shows "at_conn p a c"
proof -
  from ab obtain H where H: "b = a\<lparr>ServerSide.heap := H\<rparr>" "\<And>q. q \<noteq> p \<Longrightarrow> H q = ServerSide.heap a q"
    by (auto simp: at_conn_def)
  from bc obtain I where I: "c = b\<lparr>ServerSide.heap := I\<rparr>" "\<And>q. q \<noteq> p \<Longrightarrow> I q = ServerSide.heap b q"
    by (auto simp: at_conn_def)
  have "dom I = dom (ServerSide.heap a)" using at_conn_dom [OF ab] at_conn_dom [OF bc] I(1) by simp
  moreover have "\<exists>d. I p = Some d \<and> state d = state x \<and> readBuffer d = readBuffer x" if "ServerSide.heap a p = Some x" for x
    using at_conn_Some [OF ab that] at_conn_Some [OF bc] I(1) by fastforce
  ultimately show ?thesis unfolding at_conn_def using H I by (intro exI [of _ I]) simp
qed

lemma send_at:
  assumes "core_inv X srv v" and "ServerSide.heap srv p = Some c"
  shows "\<exists>H. call_conn p (send junk il w m) (ServerSide.heap srv) = Inr H \<and>
     core_inv X (srv\<lparr>ServerSide.heap := H\<rparr>) v \<and> at_conn p srv (srv\<lparr>ServerSide.heap := H\<rparr>)"
proof -
  have p: "p \<noteq> 0" "life c" using core_ptr [OF assms] by simp_all
  from life_send [OF p(2), of junk il w m] obtain d where
    d: "send junk il w m c = Inr d" "life d" "state d = state c" "readBuffer d = readBuffer c" by blast
  let ?H = "(ServerSide.heap srv)(p \<mapsto> d)"
  have "at_conn p srv (srv\<lparr>ServerSide.heap := ?H\<rparr>)"
    unfolding at_conn_def using assms(2) d(3,4) by (intro exI [of _ ?H]) auto
  moreover have "core_inv X (srv\<lparr>ServerSide.heap := ?H\<rparr>) v"
    using core_heap [OF assms(1) p(1) d(2) assms(2)] d(3) by simp
  ultimately show ?thesis using d(1) p(1) assms(2) by (intro exI [of _ ?H]) (simp add: call_conn_def)
qed

lemma update_heartbeat_total:
  assumes "server k = Some srv" and "hb_recv k = Some v" and "core_inv X srv v" and "ServerSide.heap srv p = Some c"
  shows "\<exists>ret srv' v'. update_heartbeat header0 junk il w clk p data (length data) k =
       Inr (ret, k\<lparr>hb_recv := Some v', server := Some srv'\<rparr>) \<and>
     core_inv (X - {p}) srv' v' \<and> at_conn p srv srv' \<and>
     connList v' = touch p (of_int (seconds_of clk)) (connList v)"
proof -
  let ?v = "v\<lparr>connList := touch p (of_int (seconds_of clk)) (connList v)\<rparr>"
  have core: "core_inv (X - {p}) srv ?v" by (rule core_touch [OF assms(3,4)])
  have p: "p \<noteq> 0" using core_ptr [OF assms(3,4)] by simp
  show ?thesis
  proof (cases "data = PING")
    case True
    from send_at [OF core assms(4), of junk il "w 0" "pong_frame header0"] obtain H where
      H: "call_conn p (send junk il (w 0) (pong_frame header0)) (ServerSide.heap srv) = Inr H"
        "core_inv (X - {p}) (srv\<lparr>ServerSide.heap := H\<rparr>) ?v" "at_conn p srv (srv\<lparr>ServerSide.heap := H\<rparr>)" by blast
    have "processPing header0 junk il w p data (length data) (ServerSide.heap srv) = Inr (True, H)"
      unfolding processPing_def encode_pong using True p H(1) by (simp add: load_def recv_encFrameCallback_def)
    with H assms(1,2) show ?thesis
      by (intro exI [of _ True] exI [of _ "srv\<lparr>ServerSide.heap := H\<rparr>"] exI [of _ ?v])
        (simp add: update_heartbeat_def updateConn_def)
  next
    case False
    then have "processPing header0 junk il w p data (length data) H = Inr (False, H)" for H
      by (simp add: processPing_def load_def)
    with core assms(1,2) show ?thesis
      by (intro exI [of _ False] exI [of _ srv] exI [of _ ?v]) (simp add: update_heartbeat_def updateConn_def)
  qed
qed

text \<open>The state of the two threads' data between two calls, \<open>X\<close> as above.\<close>

definition holds :: "nat set \<Rightarrow> nat \<Rightarrow> NetServer \<Rightarrow> WebSocketServer \<Rightarrow> bool" where
  "holds X p srv k \<longleftrightarrow> (\<exists>srv' v. server k = Some srv' \<and> hb_recv k = Some v \<and> core_inv X srv' v \<and> at_conn p srv srv')"

lemma holds_start:
  "server k = Some srv \<Longrightarrow> hb_recv k = Some v \<Longrightarrow> core_inv X srv v \<Longrightarrow> holds X p srv k"
  by (simp add: holds_def)

lemma holds_update_heartbeat:
  assumes "holds X p srv k" and "ServerSide.heap srv p = Some c"
  shows "\<exists>ret k'. update_heartbeat header0 junk il w clk p data (length data) k = Inr (ret, k') \<and> holds (X - {p}) p srv k' \<and>
     onConnMsgFunc k' = onConnMsgFunc k"
proof -
  from assms(1) obtain srv' v where k: "server k = Some srv'" "hb_recv k = Some v" "core_inv X srv' v" "at_conn p srv srv'"
    by (auto simp: holds_def)
  from at_conn_Some [OF k(4) assms(2)] obtain d where "ServerSide.heap srv' p = Some d" by blast
  from update_heartbeat_total [OF k(1-3) this, of header0 junk il w clk data] obtain ret srv'' v' where
    u: "update_heartbeat header0 junk il w clk p data (length data) k = Inr (ret, k\<lparr>hb_recv := Some v', server := Some srv''\<rparr>)"
      "core_inv (X - {p}) srv'' v'" "at_conn p srv' srv''" by blast
  from at_conn_trans [OF k(4) u(3)] u(1,2) show ?thesis
    by (intro exI [of _ ret] exI [of _ "k\<lparr>hb_recv := Some v', server := Some srv''\<rparr>"]) (simp add: holds_def)
qed

lemma holds_messages:
  assumes "holds X p srv k" and "ServerSide.heap srv p = Some c"
  shows "\<exists>k'. each_message (srv_decFrameCallback header0 junk il w clk p) ds k = Inr k' \<and> holds X p srv k'"
  using assms(1)
proof (induction ds arbitrary: k)
  case (Cons d ds)
  from holds_update_heartbeat [OF Cons.prems assms(2), of header0 junk il w clk d] obtain ret k1 where
    k1: "update_heartbeat header0 junk il w clk p d (length d) k = Inr (ret, k1)" "holds (X - {p}) p srv k1" by blast
  have weak: "holds X p srv k1" using k1(2) core_weaken [of "X - {p}"] by (fastforce simp: holds_def)
  obtain k2 where k2: "srv_decFrameCallback header0 junk il w clk p d k = Inr k2" "holds X p srv k2"
    using k1(1) weak Cons.prems by (cases "p = 0") (auto simp: srv_decFrameCallback_def holds_def)
  from Cons.IH [OF k2(2)] k2(1) show ?case by simp
qed simp

text \<open>One read: the decoder's messages go to the heartbeat and to the application, the buffer is emptied.\<close>

lemma holds_read:
  assumes "holds X p srv k" and "ServerSide.heap srv p = Some c" and "buf_inv b" and "decodes junk (content b)"
  shows "\<exists>k' b'. srv_onConnMessage header0 junk il w clk p b k = Some (Inr (k', b')) \<and> holds X p srv k' \<and> buf_inv b'"
proof -
  from readAll_content [OF assms(3)] obtain b' where b': "readAll b = Inr (content b, b')" "buf_inv b'" by blast
  obtain t where "decodeFrame (new_WSProtocol junk) (content b @ [0]) (int (readableBytes b)) = Some (Inr t)"
    using assms(4) length_content [OF assms(3)] by (auto simp: decodes_def split: option.splits sum.splits)
  moreover obtain k' where "each_message (srv_decFrameCallback header0 junk il w clk p) (d_out t) k = Inr k'" "holds X p srv k'"
    using holds_messages [OF assms(1,2)] by blast
  ultimately show ?thesis using b' by (simp add: srv_onConnMessage_def)
qed

lemma life_readBuffer:
  assumes "life c" and "buf_inv b"
  shows "life (c\<lparr>readBuffer := b\<rparr>)"
proof -
  have "run_inv (c\<lparr>readBuffer := b\<rparr>)" using assms by (simp add: life_def run_inv_def conn_inv_def)
  with assms(1) show ?thesis by (simp add: life_def phase_defs)
qed

text \<open>The system between two calls of the connection at \<open>p\<close>.\<close>

definition sys_at :: "nat set \<Rightarrow> nat \<Rightarrow> nat set \<Rightarrow> server_sys \<Rightarrow> bool" where
  "sys_at X p D s \<longleftrightarrow> (\<exists>srv v c. server (sk s) = Some srv \<and> hb_recv (sk s) = Some v \<and> core_inv X srv v \<and>
     ServerSide.heap srv p = Some c \<and> dom (ServerSide.heap srv) = D \<and> set (removes s) \<subseteq> D)"

text \<open>The connection objects that have been allocated and not deleted.\<close>

definition objects :: "server_sys \<Rightarrow> nat set" where
  "objects s = {p. conn_at p s \<noteq> None}"

lemma objects_dom: "server (sk s) = Some srv \<Longrightarrow> objects s = dom (ServerSide.heap srv)"
  by (auto simp: objects_def conn_at_def)

lemma sys_at_finish: "sys_at {} p D s \<Longrightarrow> sys_inv s \<and> objects s = D"
  by (auto simp: sys_at_def sys_inv_def objects_dom)

lemma upcall_conn:
  assumes "sys_at X p D s"
  shows "\<exists>s'. upcall header0 junk w clk p (ConnCb st) s = Some (Inr s') \<and> sys_at (X - {p}) p D s'"
proof -
  from assms obtain srv v c where s: "server (sk s) = Some srv" "hb_recv (sk s) = Some v" "core_inv X srv v"
    "ServerSide.heap srv p = Some c" "dom (ServerSide.heap srv) = D" "set (removes s) \<subseteq> D" by (auto simp: sys_at_def)
  from update_heartbeat_total [OF s(1-4), of header0 junk True w clk "[]"] obtain ret srv' v' where
    u: "update_heartbeat header0 junk True w clk p [] 0 (sk s) = Inr (ret, (sk s)\<lparr>hb_recv := Some v', server := Some srv'\<rparr>)"
      "core_inv (X - {p}) srv' v'" "at_conn p srv srv'" by auto
  from at_conn_Some [OF u(3) s(4)] at_conn_dom [OF u(3)] u(1,2) s(5,6) show ?thesis
    by (auto simp: onConnNew_def sys_at_def)
qed

lemma upcall_close:
  assumes "sys_at X p D s"
  shows "\<exists>s'. upcall header0 junk w clk p CloseCb s = Some (Inr s') \<and> sys_at X p D s'"
  using assms by (auto simp: sys_at_def)

lemma upcall_message:
  assumes "sys_at {} p D s" and "conn_at p s = Some c" and "decodes junk (content (readBuffer c))"
  shows "\<exists>s'. upcall header0 junk w clk p (MsgCb xs) s = Some (Inr s') \<and> sys_at {} p D s'"
proof -
  from assms obtain srv v where s: "server (sk s) = Some srv" "hb_recv (sk s) = Some v" "core_inv {} srv v"
    "ServerSide.heap srv p = Some c" "dom (ServerSide.heap srv) = D" "set (removes s) \<subseteq> D"
    by (auto simp: sys_at_def conn_at_def)
  have "buf_inv (readBuffer c)" using core_ptr [OF s(3,4)] by (simp add: life_def run_inv_def conn_inv_def)
  from holds_read [OF holds_start [OF s(1-3)] s(4) this assms(3), of header0 True w clk] obtain k' b' where
    k': "srv_onConnMessage header0 junk True w clk p (readBuffer c) (sk s) = Some (Inr (k', b'))" "holds {} p srv k'" "buf_inv b'"
    by blast
  then obtain srv' v' where h: "server k' = Some srv'" "hb_recv k' = Some v'" "core_inv {} srv' v'" "at_conn p srv srv'"
    by (auto simp: holds_def)
  from at_conn_Some [OF h(4) s(4)] obtain d where d: "ServerSide.heap srv' p = Some d" by blast
  let ?srv = "srv'\<lparr>ServerSide.heap := (ServerSide.heap srv')(p \<mapsto> d\<lparr>readBuffer := b'\<rparr>)\<rparr>"
  have "core_inv {} ?srv v'"
    using core_heap [OF h(3) _ life_readBuffer [OF _ k'(3)] d] core_ptr [OF h(3) d] by simp
  moreover have "dom (ServerSide.heap ?srv) = D"
    using s(5) at_conn_dom [OF h(4)] d by auto
  ultimately show ?thesis
    using s(1,4,6) k'(1) h(1,2) d by (auto simp: deliver_def sys_at_def with_buffer_def)
qed

section \<open>The steps\<close>

text \<open>Outputs that are not calls pass unnoticed.\<close>

lemma upcalls_ups: "upcalls header0 junk w clk p ys s = upcalls header0 junk w clk p (ups ys) s"
proof (induction ys arbitrary: s)
  case (Cons y ys)
  then show ?case by (cases y) (auto simp: go_def split: option.splits sum.splits)
qed simp

lemma on_conn_result:
  assumes "sys_inv s" and "conn_at p s = Some c" and "f c = Inr d" and "life d" and "calls us c d"
    and "state d = eConnected \<longrightarrow> state c = eConnected \<or> p \<in> X"
  shows "\<exists>ys s'. on_conn p f s = Inr (ys, s') \<and> ups ys = us \<and> sys_at X p (objects s) s' \<and> conn_at p s' = Some d"
proof -
  from assms(1,2) obtain srv v where s: "server (sk s) = Some srv" "hb_recv (sk s) = Some v" "core_inv {} srv v"
    "set (removes s) \<subseteq> dom (ServerSide.heap srv)" "ServerSide.heap srv p = Some c"
    by (auto simp: sys_inv_def conn_at_def)
  have "core_inv X (srv\<lparr>ServerSide.heap := (ServerSide.heap srv)(p \<mapsto> d)\<rparr>) v"
    using core_heap [OF core_weaken [OF s(3), of X] _ assms(4) s(5)] core_ptr [OF s(3,5)] assms(6) by simp
  moreover have "dom ((ServerSide.heap srv)(p \<mapsto> d)) = objects s" using s(5) objects_dom [OF s(1)] by auto
  ultimately show ?thesis
    using s assms(3) calls_out [OF assms(5)] objects_dom [OF s(1)] by (auto simp: on_conn_def sys_at_def conn_at_def)
qed

text \<open>The calls of a connection that has closed, or has been established.\<close>

lemma upcalls_conn:
  assumes "sys_at X p D s" and "ups ys = [ConnCb st] \<or> ups ys = [ConnCb st, CloseCb]"
  shows "\<exists>s'. upcalls header0 junk w clk p ys s = Some (Inr s') \<and> sys_at (X - {p}) p D s'"
proof -
  obtain t where t: "upcall header0 junk w clk p (ConnCb st) s = Some (Inr t)" "sys_at (X - {p}) p D t"
    using upcall_conn [OF assms(1)] by blast
  from upcall_close [OF t(2)] t assms(2) show ?thesis
    by (auto simp: upcalls_ups [of _ _ _ _ _ ys])
qed

lemma conn_at_sys: "sys_inv s \<Longrightarrow> conn_at p s = Some c \<Longrightarrow> p \<noteq> 0 \<and> life c"
  using core_ptr by (auto simp: sys_inv_def conn_at_def)

lemma task_step:
  assumes "sys_inv s" and "conn_at p s = Some c"
  shows "\<exists>s'. srv_exec header0 junk ntop (Task p w clk) s = Some (Inr s') \<and> sys_inv s' \<and> objects s' = objects s"
proof -
  from conn_at_sys [OF assms] have c: "life c" by simp
  from life_task [OF c, of junk w] obtain d us where d: "run_task junk w None c = Inr d" "life d" "calls us c d"
    "us = (if waiting c then [ConnCb eConnected] else if tasks c = [CloseTask] then [ConnCb eDisconnected, CloseCb] else [])"
    "if waiting c then opened d else state d = state c" by blast
  let ?X = "if us = [] then {} else {p}"
  have "state d = eConnected \<longrightarrow> state c = eConnected \<or> p \<in> ?X" using d(4,5) by (auto split: if_splits)
  from on_conn_result [where f = "run_task junk w None", OF assms d(1-3) this] obtain ys s' where
    s': "on_conn p (run_task junk w None) s = Inr (ys, s')" "ups ys = us" "sys_at ?X p (objects s) s'" by blast
  show ?thesis
  proof (cases "us = []")
    case True
    with s' sys_at_finish show ?thesis by (auto simp: upcalls_ups [of _ _ _ _ _ ys])
  next
    case False
    with d(4) s'(2) obtain st where "ups ys = [ConnCb st] \<or> ups ys = [ConnCb st, CloseCb]" by (auto split: if_splits)
    from upcalls_conn [OF s'(3) this, of header0 junk "\<lambda>_. w" clk] False s'(1) sys_at_finish show ?thesis by auto
  qed
qed

lemma readable_step:
  assumes "sys_inv s" and "srv_ok junk (Readable p r w clk) s"
  shows "\<exists>s'. srv_exec header0 junk ntop (Readable p r w clk) s = Some (Inr s') \<and> sys_inv s' \<and> objects s' = objects s"
proof -
  from assms(2) obtain c e where c: "conn_at p s = Some c" "event c = Some e" "events e AND csEventRead \<noteq> 0"
    "readv_fits (reset (readBuffer c)) r" "r = Inr [] \<longrightarrow> CloseTask \<notin> set (tasks c)"
    "\<And>xs. r = Inr xs \<Longrightarrow> xs \<noteq> [] \<Longrightarrow> decodes junk xs"
    by (auto split: option.splits sum.splits if_splits)
  from conn_at_sys [OF assms(1) c(1)] have life: "life c" by simp
  have "opened c \<or> closing c" and "r = Inr [] \<longrightarrow> opened c"
    using life c(2,3,5) by (auto simp: life_def waiting_def closing_def gone_def csEventNone_def dest: last_in_set)
  from life_read [OF life this(1) c(4) this(2), of junk] obtain d where d: "handleRead junk r c = Inr d" "life d"
    "calls (case r of Inl _ \<Rightarrow> [] | Inr xs \<Rightarrow> if xs = [] then [ConnCb eDisconnected, CloseCb] else [MsgCb xs]) c d"
    "if r = Inr [] then gone d else state d = state c"
    "\<forall>xs. r = Inr xs \<longrightarrow> xs \<noteq> [] \<longrightarrow> content (readBuffer d) = xs" by blast
  have "state d = eConnected \<longrightarrow> state c = eConnected \<or> p \<in> {}" using d(4) by (auto simp: gone_def split: if_splits)
  from on_conn_result [where f = "handleRead junk r", OF assms(1) c(1) d(1-3) this] obtain ys s' where
    s': "on_conn p (handleRead junk r) s = Inr (ys, s')" "sys_at {} p (objects s) s'" "conn_at p s' = Some d"
    "ups ys = (case r of Inl _ \<Rightarrow> [] | Inr xs \<Rightarrow> if xs = [] then [ConnCb eDisconnected, CloseCb] else [MsgCb xs])" by blast
  consider "ups ys = []" | "ups ys = [ConnCb eDisconnected, CloseCb]" | xs where "r = Inr xs" "xs \<noteq> []" "ups ys = [MsgCb xs]"
    using s'(4) by (cases r) (auto split: if_splits)
  then show ?thesis
  proof cases
    case 1
    with s' sys_at_finish show ?thesis by (auto simp: upcalls_ups [of _ _ _ _ _ ys])
  next
    case 2
    with upcalls_conn [OF s'(2), of ys eDisconnected header0 junk w clk] s'(1) sys_at_finish show ?thesis by auto
  next
    case 3
    with c(6) d(5) have "decodes junk (content (readBuffer d))" by simp
    from upcall_message [OF s'(2,3) this, of header0 w clk xs] 3(3) s'(1) sys_at_finish show ?thesis
      by (auto simp: upcalls_ups [of _ _ _ _ _ ys])
  qed
qed

lemma accept_result:
  assumes "server_inv srv" and "ServerSide.heap srv p = None" and "p \<noteq> 0"
  shows "\<exists>l q. newConnAccept junk ntop (Inr local) p False sockfd addr srv = Inr (l, srv\<lparr>threadPool := q,
       conns := (conns srv)(conn_key (ntop (sin_addr addr)) (network2Host16 (sin_port addr)) (connIndex srv) \<mapsto> p),
       ServerSide.heap := (ServerSide.heap srv)(p \<mapsto>
         set_callbacks (cb_conn srv) (cb_msg srv) (cb_compl srv) True (new_NetConnection junk sockfd)\<lparr>tasks := [EstablishTask]\<rparr>),
       ident := (ident srv)(p := conn_key (ntop (sin_addr addr)) (network2Host16 (sin_port addr)) (connIndex srv))\<rparr>) \<and>
     ReactorThreads.pool_inv q"
proof -
  obtain l q where q: "nextLoop (threadPool srv) = Inr (l, q)" "ReactorThreads.pool_inv q"
    using assms(1) nextLoop_ok [of "threadPool srv"] by (auto simp: server_inv_def)
  have "tasks (set_callbacks a b d e (new_NetConnection junk sockfd)) = []" for a b d e
    by (simp add: set_callbacks_def new_NetConnection_def Let_def)
  with q show ?thesis
    by (intro exI [of _ l] exI [of _ q]) (simp add: newConnAccept_def toIp_def INET_ADDRSTRLEN_def get_addr_def Let_def)
qed

lemma life_accepted:
  "life (set_callbacks True True d True (new_NetConnection junk sockfd)\<lparr>tasks := [EstablishTask]\<rparr>)"
proof -
  have "waiting (set_callbacks True True d True (new_NetConnection junk sockfd)\<lparr>tasks := [EstablishTask]\<rparr>)"
    by (simp add: waiting_def set_callbacks_def new_NetConnection_def Let_def new_EventHandler_def csEventNone_def)
  then show ?thesis
    using run_inv_frame(1) [OF run_inv_new] by (simp add: life_def set_callbacks_def)
qed

lemma accept_step:
  assumes "sys_inv s" and "conn_at p s = None" and "p \<noteq> 0"
  shows "\<exists>s'. srv_exec header0 junk ntop (Accept p sockfd addr local) s = Some (Inr s') \<and> sys_inv s' \<and>
     objects s' = insert p (objects s)"
proof -
  from assms(1,2) obtain srv v where s: "server (sk s) = Some srv" "hb_recv (sk s) = Some v" "core_inv {} srv v"
    "set (removes s) \<subseteq> dom (ServerSide.heap srv)" "ServerSide.heap srv p = None"
    by (auto simp: sys_inv_def conn_at_def)
  from s(3) have core: "server_inv srv" "cb_conn srv" "cb_msg srv" "recv_inv v (ServerSide.heap srv)"
    by (simp_all add: core_inv_def)
  let ?c = "set_callbacks True True (cb_compl srv) True (new_NetConnection junk sockfd)\<lparr>tasks := [EstablishTask]\<rparr>"
  let ?k = "conn_key (ntop (sin_addr addr)) (network2Host16 (sin_port addr)) (connIndex srv)"
  from accept_result [OF core(1) s(5) assms(3), of junk ntop local sockfd addr] core(2,3) obtain l q where
    q: "newConnAccept junk ntop (Inr local) p False sockfd addr srv = Inr (l, srv\<lparr>threadPool := q, conns := (conns srv)(?k \<mapsto> p),
       ServerSide.heap := (ServerSide.heap srv)(p \<mapsto> ?c), ident := (ident srv)(p := ?k)\<rparr>)" "ReactorThreads.pool_inv q"
    by auto
  let ?srv = "srv\<lparr>threadPool := q, conns := (conns srv)(?k \<mapsto> p), ServerSide.heap := (ServerSide.heap srv)(p \<mapsto> ?c), ident := (ident srv)(p := ?k)\<rparr>"
  have "conns srv k \<noteq> Some p" for k using core(1) s(5) assms(3) by (fastforce simp: server_inv_def)
  then have "server_inv ?srv" using core(1) q(2) by (auto simp: server_inv_def)
  moreover have "recv_inv v ((ServerSide.heap srv)(p \<mapsto> ?c))"
    by (rule recv_inv_heap [OF core(4) life_conn_inv [OF life_accepted]])
  moreover have "state ?c = eDisconnected" by (simp add: set_callbacks_def new_NetConnection_def Let_def)
  ultimately have "core_inv {} ?srv v"
    using s(3) assms(3) life_accepted [of "cb_compl srv" junk sockfd] by (auto simp: core_inv_def)
  then show ?thesis
    using s q(1) by (auto simp: sys_inv_def objects_def conn_at_def)
qed

lemma remove_step:
  assumes "sys_inv s"
  shows "\<exists>s'. srv_exec header0 junk ntop RunRemove s = Some (Inr s') \<and> sys_inv s' \<and> objects s' = objects s"
proof -
  from assms obtain srv v where s: "server (sk s) = Some srv" "hb_recv (sk s) = Some v" "core_inv {} srv v"
    "set (removes s) \<subseteq> dom (ServerSide.heap srv)" by (auto simp: sys_inv_def)
  have "core_inv {} (removeConnInLoop p srv) v" for p
    using s(3) by (auto simp: core_inv_def server_inv_def removeConnInLoop_def)
  with s assms show ?thesis
    by (cases "removes s") (auto simp: sys_inv_def objects_def conn_at_def removeConnInLoop_def)
qed

text \<open>
  The check of the heartbeat. Afterwards every connection that is still open has been heard within the
  last 15 seconds.
\<close>

definition heard_lately :: "Timestamp \<Rightarrow> server_sys \<Rightarrow> bool" where
  "heard_lately clk s \<longleftrightarrow> (\<forall>p c. conn_at p s = Some c \<longrightarrow> state c = eConnected \<longrightarrow>
     (\<exists>v t. hb_recv (sk s) = Some v \<and> (p, t) \<in> set (connList v) \<and> seconds_of clk - uint t \<le> 15))"

lemma evict_life:
  assumes "core_inv {} srv v"
  shows "\<exists>H. timerCallback_recv False clk (v, ServerSide.heap srv) =
       Inr (v\<lparr>connList := filter (\<lambda>(p, t). seconds_of clk - uint t \<le> 15) (connList v)\<rparr>, H) \<and>
     (\<forall>q. H q = ServerSide.heap srv q \<and> (\<forall>t. (q, t) \<in> set (connList v) \<longrightarrow> seconds_of clk - uint t \<le> 15) \<or>
       (\<exists>c d. ServerSide.heap srv q = Some c \<and> forceClose False c = Inr d \<and> H q = Some d))"
proof -
  have "distinct (map fst (connList v))"
    and "\<forall>e \<in> set (connList v). fst e \<noteq> 0 \<and> (\<exists>c. ServerSide.heap srv (fst e) = Some c \<and> conn_inv c)"
    using assms by (auto simp: core_inv_def recv_inv_def)
  from evict_spec [OF this, of False "seconds_of clk"] obtain H where
    H: "evict False (seconds_of clk) (connList v) (ServerSide.heap srv) =
        Inr (filter (\<lambda>(p, t). seconds_of clk - uint t \<le> 15) (connList v), H)"
    and old: "\<forall>(p, t) \<in> set (connList v). 15 < seconds_of clk - uint t \<longrightarrow>
      (\<exists>c d. ServerSide.heap srv p = Some c \<and> forceClose False c = Inr d \<and> conn_inv d \<and> H p = Some d)"
    and new: "\<forall>p. (\<forall>t. (p, t) \<in> set (connList v) \<longrightarrow> seconds_of clk - uint t \<le> 15) \<longrightarrow> H p = ServerSide.heap srv p"
    by (elim exE conjE)
  have "H q = ServerSide.heap srv q \<and> (\<forall>t. (q, t) \<in> set (connList v) \<longrightarrow> seconds_of clk - uint t \<le> 15) \<or>
       (\<exists>c d. ServerSide.heap srv q = Some c \<and> forceClose False c = Inr d \<and> H q = Some d)" for q
  proof (cases "\<forall>t. (q, t) \<in> set (connList v) \<longrightarrow> seconds_of clk - uint t \<le> 15")
    case True
    with new show ?thesis by blast
  next
    case False
    then obtain t where "(q, t) \<in> set (connList v)" "15 < seconds_of clk - uint t" by (auto simp: not_le)
    with old show ?thesis by blast
  qed
  with H show ?thesis by (intro exI [of _ H]) (simp add: timerCallback_recv_def)
qed

lemma tick_step:
  assumes "sys_inv s"
  shows "\<exists>s'. srv_exec header0 junk ntop (Tick clk) s = Some (Inr s') \<and> sys_inv s' \<and> objects s' = objects s \<and>
     heard_lately clk s'"
proof -
  from assms obtain srv v where s: "server (sk s) = Some srv" "hb_recv (sk s) = Some v" "core_inv {} srv v"
    "set (removes s) \<subseteq> dom (ServerSide.heap srv)" by (auto simp: sys_inv_def)
  let ?v = "v\<lparr>connList := filter (\<lambda>(p, t). seconds_of clk - uint t \<le> 15) (connList v)\<rparr>"
  from evict_life [OF s(3), of clk] obtain H where
    H: "timerCallback_recv False clk (v, ServerSide.heap srv) = Inr (?v, H)"
    and each: "\<And>q. H q = ServerSide.heap srv q \<and> (\<forall>t. (q, t) \<in> set (connList v) \<longrightarrow> seconds_of clk - uint t \<le> 15) \<or>
       (\<exists>c d. ServerSide.heap srv q = Some c \<and> forceClose False c = Inr d \<and> H q = Some d)" by blast
  have dom: "H q = None \<longleftrightarrow> ServerSide.heap srv q = None" for q using each [of q] by auto
  have alive: "life d" if "H q = Some d" for q d
    using each [of q] that s(3) life_forceClose core_ptr by (metis option.inject sum.inject(2))
  have open_entry: "\<exists>t. (q, t) \<in> set (connList v) \<and> seconds_of clk - uint t \<le> 15"
    if q: "H q = Some d" "state d = eConnected" for q d
  proof -
    from each [of q] consider (same) "ServerSide.heap srv q = Some d" "\<forall>t. (q, t) \<in> set (connList v) \<longrightarrow> seconds_of clk - uint t \<le> 15"
      | (closed) c where "ServerSide.heap srv q = Some c" "forceClose False c = Inr d"
      using q(1) by auto
    then show ?thesis
    proof cases
      case same
      then have "q \<in> fst ` set (connList v)" using s(3) q(2) by (auto simp: core_inv_def)
      with same(2) show ?thesis by auto
    next
      case closed
      then have "state d = eDisconnected" using life_forceClose [of c] core_ptr [OF s(3)] by auto
      with q(2) show ?thesis by simp
    qed
  qed
  have "fst e \<noteq> 0 \<and> (\<exists>c. H (fst e) = Some c \<and> conn_inv c)" if "e \<in> set (connList ?v)" for e
  proof -
    from that s(3) have e: "fst e \<noteq> 0" "ServerSide.heap srv (fst e) \<noteq> None" by (auto simp: core_inv_def recv_inv_def)
    then obtain d where "H (fst e) = Some d" using dom [of "fst e"] by (cases "H (fst e)") auto
    with e alive life_conn_inv show ?thesis by blast
  qed
  then have "recv_inv ?v H" using s(3) by (simp add: core_inv_def recv_inv_def distinct_map_filter)
  moreover have "server_inv (srv\<lparr>ServerSide.heap := H\<rparr>)" using s(3) dom by (simp add: core_inv_def server_inv_def)
  moreover have "q \<in> fst ` set (connList ?v)" if "H q = Some d" "state d = eConnected" for q d
    using open_entry [OF that] by (force simp: image_iff)
  ultimately have "core_inv {} (srv\<lparr>ServerSide.heap := H\<rparr>) ?v"
    using s(3) dom alive by (auto simp: core_inv_def)
  moreover have "dom H = dom (ServerSide.heap srv)" using dom by (simp add: dom_def)
  then have "set (removes s) \<subseteq> dom H" using s(4) by simp
  moreover have "{p. H p \<noteq> None} = {p. ServerSide.heap srv p \<noteq> None}" using dom by simp
  ultimately show ?thesis
    using s(1,2) H open_entry by (simp add: sys_inv_def objects_def conn_at_def heard_lately_def)
qed

text \<open>A send of the application goes to an allocated connection or is ignored.\<close>

lemma each_frame_at:
  assumes "core_inv {} srv v" and "ServerSide.heap srv p = Some c"
  shows "\<exists>srv'. each_frame (srv_encFrameCallback junk il w p) i fs srv = Inr srv' \<and> core_inv {} srv' v \<and> at_conn p srv srv'"
  using assms
proof (induction fs arbitrary: i srv c)
  case (Cons f fs)
  from send_at [OF Cons.prems, of junk il "w i" f] obtain H where
    H: "call_conn p (send junk il (w i) f) (ServerSide.heap srv) = Inr H"
      "core_inv {} (srv\<lparr>ServerSide.heap := H\<rparr>) v" "at_conn p srv (srv\<lparr>ServerSide.heap := H\<rparr>)" by blast
  from at_conn_Some [OF H(3) Cons.prems(2)] obtain d where "ServerSide.heap (srv\<lparr>ServerSide.heap := H\<rparr>) p = Some d" by blast
  from Cons.IH [OF H(2) this, of "Suc i"] obtain srv' where
    "each_frame (srv_encFrameCallback junk il w p) (Suc i) fs (srv\<lparr>ServerSide.heap := H\<rparr>) = Inr srv'" "core_inv {} srv' v"
    "at_conn p (srv\<lparr>ServerSide.heap := H\<rparr>) srv'" by blast
  moreover have "srv_encFrameCallback junk il w p i f srv = Inr (srv\<lparr>ServerSide.heap := H\<rparr>)"
    using H(1) core_ptr [OF Cons.prems] by (simp add: srv_encFrameCallback_def)
  ultimately show ?case using at_conn_trans [OF H(3)] by auto
qed simp

lemma getconn_core:
  assumes "core_inv X srv v" and "getconn name srv = (p, srv')"
  shows "core_inv X srv' v" and "ServerSide.heap srv' = ServerSide.heap srv"
    and "p \<noteq> 0 \<Longrightarrow> \<exists>c. ServerSide.heap srv' p = Some c"
proof -
  have inv: "server_inv srv" using assms(1) by (simp add: core_inv_def)
  then have "server_inv srv'" using assms(2)
    by (fastforce simp: getconn_def server_inv_def split: if_splits option.splits)
  moreover have same: "ServerSide.heap srv' = ServerSide.heap srv" "cb_conn srv' = cb_conn srv" "cb_msg srv' = cb_msg srv"
    using assms(2) by (auto simp: getconn_def split: if_splits option.splits)
  ultimately show "core_inv X srv' v" using assms(1) by (simp add: core_inv_def)
  show "ServerSide.heap srv' = ServerSide.heap srv" by (rule same)
  assume "p \<noteq> 0"
  then have "conns srv name = Some p" using assms(2) by (auto simp: getconn_def split: if_splits option.splits)
  with inv \<open>p \<noteq> 0\<close> same show "\<exists>c. ServerSide.heap srv' p = Some c" by (fastforce simp: server_inv_def)
qed

lemma send_step:
  assumes "sys_inv s" and "data \<noteq> []"
  shows "\<exists>s'. srv_exec header0 junk ntop (AppSend il name data w) s = Some (Inr s') \<and> sys_inv s' \<and> objects s' = objects s"
proof -
  from assms obtain srv v where s: "server (sk s) = Some srv" "hb_recv (sk s) = Some v" "core_inv {} srv v"
    "set (removes s) \<subseteq> dom (ServerSide.heap srv)" by (auto simp: sys_inv_def)
  obtain p srv1 where g: "getconn name srv = (p, srv1)" by (cases "getconn name srv")
  note srv1 = getconn_core [OF s(3) g]
  show ?thesis
  proof (cases "p = 0")
    case True
    with s srv1 g show ?thesis by (auto simp: srv_send_def sys_inv_def objects_def conn_at_def)
  next
    case False
    then obtain c where c: "ServerSide.heap srv1 p = Some c"
      using srv1(3) by blast
    obtain buf frames where enc: "encodeFrame header0 data (int (length data)) eTextFrame = Inr (buf, frames)"
      using encodeFrame_data [of eTextFrame "length data" data header0] assms(2) by auto
    from each_frame_at [OF srv1(1) c, of junk il w 0 frames] obtain srv' where
      srv': "each_frame (srv_encFrameCallback junk il w p) 0 frames srv1 = Inr srv'" "core_inv {} srv' v" "at_conn p srv1 srv'"
      by blast
    from at_conn_dom [OF srv'(3)] srv1(2) have dom: "dom (ServerSide.heap srv') = dom (ServerSide.heap srv)" by simp
    then have "ServerSide.heap srv' q = None \<longleftrightarrow> ServerSide.heap srv q = None" for q by (metis domIff)
    with dom s srv' g enc False show ?thesis
      by (auto simp: srv_send_def Let_def sys_inv_def objects_def conn_at_def)
  qed
qed

text \<open>Any step that can occur.\<close>

fun accepts :: "srv_op \<Rightarrow> nat set" where
  "accepts (Accept p sockfd peer local) = {p}"
| "accepts _ = {}"

lemma any_step:
  assumes "sys_inv s" and "srv_ok junk a s"
  shows "\<exists>s'. srv_exec header0 junk ntop a s = Some (Inr s') \<and> sys_inv s' \<and> objects s' = objects s \<union> accepts a"
proof (cases a)
  case (Accept p sockfd peer local)
  with accept_step [OF assms(1), of p header0 junk ntop sockfd peer local] assms(2) show ?thesis by auto
next
  case (Task p w clk)
  with assms(2) obtain c where "conn_at p s = Some c" by auto
  from task_step [OF assms(1) this, of header0 junk ntop w clk] Task show ?thesis by auto
next
  case (Readable p r w clk)
  with readable_step [OF assms(1), of junk p r w clk header0 ntop] assms(2) show ?thesis by auto
next
  case RunRemove
  with remove_step [OF assms(1), of header0 junk ntop] show ?thesis by auto
next
  case (Tick clk)
  with tick_step [OF assms(1), of header0 junk ntop clk] show ?thesis by auto
next
  case (AppSend il name data w)
  with send_step [OF assms(1), of data header0 junk ntop il name w] assms(2) show ?thesis by auto
qed

interpretation server: guarded_steps "srv_exec header0 junk ntop" "srv_ok junk" sys_inv objects accepts
  for header0 junk ntop
  by unfold_locales (rule any_step)

section \<open>The server from its constructor\<close>

definition started :: "bool \<Rightarrow> WebSocketServer \<Rightarrow> server_sys" where
  "started f k = \<lparr>sk = setOnConnMsgFunc f k, removes = []\<rparr>"

lemma started_inv:
  assumes "new_WebSocketServer inet_pton servIp servPort s b l addr base clk idx = Inr k"
  shows "sys_inv (started f k) \<and> objects (started f k) = {}"
proof -
  have pool: "ReactorThreads.pool_inv (ReactorThreads.pool_start addr (ReactorThreads.setThreadNum n (new_ReactorThreadPool base)))" for n
    by (rule pool_inv_new)
  from assms obtain srv v where k: "k = \<lparr>server = Some srv, hb_recv = Some v, onConnMsgFunc = False, got = []\<rparr>"
    and "ServerSide.heap srv = (\<lambda>_. None)" "conns srv = (\<lambda>_. None)" "cb_conn srv" "cb_msg srv" "connList v = []"
    "ReactorThreads.pool_inv (threadPool srv)"
    using pool by (auto simp: new_WebSocketServer_def new_NetServer_def server_setThreadNum_def server_start_def
        recv_start_def new_HeartbeatRecv_def c_assert_def res_bind_eq_Inr split: if_splits)
  then show ?thesis
    by (simp add: started_def setOnConnMsgFunc_def sys_inv_def core_inv_def server_inv_def recv_inv_def objects_def conn_at_def)
qed

end
