(* ===== verification/ServerProperties.thy ===== *)
theory ServerProperties
  imports ServerRuns
begin

text \<open>
  What the server guarantees in any run from its constructor, and the two ways in which the close of a
  connection goes wrong: the end of the stream before the posted close, and a second connection under
  the same name.
\<close>

section \<open>Runs from the constructor\<close>


definition demo_ops :: "srv_op list" where
  "demo_ops =
     [Accept 4 9 \<lparr>sin_family = 2, sin_port = 1, sin_addr = 1\<rparr> \<lparr>sin_family = 2, sin_port = 1, sin_addr = 1\<rparr>,
      Task 4 (Inr 10) (Timestamp 100000000),
      RunRemove,
      AppSend False (conn_key ''10.0.0.1'' (network2Host16 1) 0) [104, 105] (\<lambda>_. Inr 8),
      Tick (Timestamp 103000000),
      Readable 4 (Inr (ping_frame \<lparr>FIN = 0, RSV = 5, Opcode = 9, maskBit = 0, PayloadLen = 77\<rparr>)) (\<lambda>_. Inr 10) (Timestamp 104000000)]"

definition demo_k :: WebSocketServer where
  "demo_k = (case new_WebSocketServer (\<lambda>_. Some 1) ''127.0.0.1'' 80 (Inr 3) None None (\<lambda>i. i) 1 (Timestamp 100000000) 1 of
     Inr k \<Rightarrow> k | Inl _ \<Rightarrow> demo_server_end)"

lemma demo_k: "new_WebSocketServer (\<lambda>_. Some 1) ''127.0.0.1'' 80 (Inr 3) None None (\<lambda>i. i) 1 (Timestamp 100000000) 1 = Inr demo_k"
  by (simp add: demo_k_def new_WebSocketServer_def new_NetServer_def server_setThreadNum_def server_start_def
        recv_start_def new_HeartbeatRecv_def c_assert_def makeSockAddr_def new_Acceptor_def createNonblockTcpSock_def
        acc_listen_def sock_listen_def Let_def)



lemma demo_k_parts:
  "\<exists>srv v. demo_k = \<lparr>server = Some srv, hb_recv = Some v, onConnMsgFunc = False, got = []\<rparr> \<and> connIndex srv = 0 \<and> conns srv = (\<lambda>_. None) \<and>
    ServerSide.heap srv = (\<lambda>_. None) \<and> cb_conn srv \<and> cb_msg srv \<and> \<not> cb_compl srv \<and> connList v = [] \<and> index (threadPool srv) = 0 \<and> loops (threadPool srv) = [0]"
  by (simp add: demo_k_def new_WebSocketServer_def new_NetServer_def server_setThreadNum_def server_start_def
        recv_start_def new_HeartbeatRecv_def c_assert_def makeSockAddr_def new_Acceptor_def createNonblockTcpSock_def
        acc_listen_def sock_listen_def Let_def pool_start_def ReactorThreads.setThreadNum_def new_ReactorThreadPool_def)

lemmas run_defs = on_conn_def newConnAccept_def nextLoop_def toIp_def get_addr_def new_NetConnection_def set_callbacks_def new_EventHandler_def INET_ADDRSTRLEN_def
   run_task_def connEstablished_def with_event_def Let_def onConnNew_def update_heartbeat_def updateConn_def processPing_def
   emit_def set_event_def load_def PING_def
   srv_send_def getconn_def srv_encFrameCallback_def call_conn_def send_def timerCallback_recv_def seconds_of_def csMicrosecondsPerSecond_def c_div_def
   set_enableRead_def readv_fits_def readv_room_def reset_def new_Buffer_def poll_bits csPrependSize_def csInitialSize_def writeableBytes_def capacity_def csEventNone_def csEventRead_def

lemma demo_ops_ok:
  "srv_oks \<lparr>FIN = 0, RSV = 5, Opcode = 9, maskBit = 0, PayloadLen = 77\<rparr> (\<lambda>_. 0) (\<lambda>_. ''10.0.0.1'') demo_ops (started True demo_k)"
proof -
  obtain srv v where k: "demo_k = \<lparr>server = Some srv, hb_recv = Some v, onConnMsgFunc = False, got = []\<rparr>" "connIndex srv = 0" "conns srv = (\<lambda>_. None)"
    "ServerSide.heap srv = (\<lambda>_. None)" "cb_conn srv" "cb_msg srv" "\<not> cb_compl srv" "connList v = []" "index (threadPool srv) = 0" "loops (threadPool srv) = [0]"
  using demo_k_parts by blast
  let ?h = "\<lparr>FIN = 0, RSV = 5, Opcode = 9, maskBit = 0, PayloadLen = 77\<rparr> :: WSHead"
  obtain b f where hi: "encode_data ?h [104, 105] (2::int) eTextFrame = Inr (b, [f])" using encode_hi by blast
  have dec: "decodes (\<lambda>_. 0) (ping_frame ?h)" using heart_frames_decode(1) [of "new_WSProtocol (\<lambda>_. 0)" ?h] by (auto simp: decodes_def)
  have "ping_frame ?h \<noteq> []" using length_heart_frames(1) [of ?h] by (metis list.size(3) numeral_neq_zero)
  then show ?thesis
    by (simp add: demo_ops_def conn_at_def started_def setOnConnMsgFunc_def k run_defs hi dec fun_eq_iff
        split: option.splits sum.splits)
qed




section \<open>Reading\<close>

lemma on_conn_frame:
  assumes "on_conn p f s = Inr (ys, s')"
  shows "got (sk s') = got (sk s) \<and> onConnMsgFunc (sk s') = onConnMsgFunc (sk s) \<and> conn_name q (sk s') = conn_name q (sk s)"
  using assms by (auto simp: on_conn_def res_bind_eq_Inr conn_name_def split: option.splits)

lemma sys_at_ready:
  assumes "sys_at {} p D s" and "onConnMsgFunc (sk s)"
  shows "srv_ready p (sk s)"
proof -
  from assms(1) obtain srv v c where "server (sk s) = Some srv" "hb_recv (sk s) = Some v" "core_inv {} srv v"
    "ServerSide.heap srv p = Some c" by (auto simp: sys_at_def)
  with assms(2) core_ptr [of "{}" srv v p c] life_conn_inv show ?thesis by (auto simp: srv_ready_def core_inv_def)
qed


definition open_conn :: NetConnection where
  "open_conn = demo_conn\<lparr>event := map_option set_enableRead (event demo_conn)\<rparr>"

lemma open_conn_facts [simp]:
  "state open_conn = eConnected" "tasks open_conn = []" "readBuffer open_conn = new_Buffer (\<lambda>_. 0)"
  "\<exists>e. event open_conn = Some e \<and> events e AND csEventRead \<noteq> 0" "life open_conn"
proof -
  show *: "state open_conn = eConnected" "tasks open_conn = []" "readBuffer open_conn = new_Buffer (\<lambda>_. 0)"
    by (simp_all add: open_conn_def)
  show "\<exists>e. event open_conn = Some e \<and> events e AND csEventRead \<noteq> 0"
    by (simp add: open_conn_def set_enableRead_def new_EventHandler_def poll_bits csEventNone_def)
  have "content (new_Buffer (\<lambda>_. 0 :: byte)) = [] \<longrightarrow> readPos (new_Buffer (\<lambda>_. 0 :: byte)) = 8"
    by (simp add: new_Buffer_def csPrependSize_def)
  then have "run_inv open_conn"
    using demo_conn_facts(1) by (simp add: run_inv_def conn_inv_def open_conn_def)
  moreover have "connCallbackFunc open_conn" "msgRecvFunc open_conn" "closeFunc open_conn"
    by (simp_all add: open_conn_def demo_conn_def set_callbacks_def)
  ultimately show "life open_conn" using * by (simp add: life_def opened_def)
qed

definition demo_sys :: server_sys where
  "demo_sys =
     \<lparr>sk = \<lparr>server = Some (demo_server\<lparr>conns := [conn_key ''10.0.0.1'' 256 0 \<mapsto> 4], ServerSide.heap := [4 \<mapsto> open_conn, 8 \<mapsto> open_conn],
          ident := (\<lambda>_. conn_key ''10.0.0.1'' 256 0)\<rparr>), hb_recv = Some demo_recv, onConnMsgFunc = True, got = []\<rparr>, removes = []\<rparr>"

lemma demo_sys_facts [simp]:
  "sys_inv demo_sys" "conn_at 4 demo_sys = Some open_conn" "conn_at 8 demo_sys = Some open_conn" "conn_at 5 demo_sys = None"
  "onConnMsgFunc (sk demo_sys)" "hb_recv (sk demo_sys) = Some demo_recv" "removes demo_sys = []" "got (sk demo_sys) = []"
  by (auto simp: demo_sys_def sys_inv_def core_inv_def server_inv_def ReactorThreads.pool_inv_def new_ReactorThreadPool_def
      demo_server_def recv_inv_def demo_recv_def new_HeartbeatRecv_def life_conn_inv conn_at_def split: if_splits)


section \<open>Closing\<close>

text \<open>The news of a connection, up or down, only touches its heartbeat entry.\<close>

lemma onConnNew_touch:
  assumes "server k = Some srv" and "hb_recv k = Some v"
  shows "onConnNew header0 junk il w clk p k =
     Inr (k\<lparr>hb_recv := Some (v\<lparr>connList := touch p (of_int (seconds_of clk)) (connList v)\<rparr>)\<rparr>)"
  using assms by (simp add: onConnNew_def update_heartbeat_def updateConn_def processPing_def PING_def)

text \<open>
  C30. A peer that is evicted for its silence and closes its end before the posted \<^verbatim>\<open>handleClose\<close> has run
  brings the server down: the read handler closes the connection and deletes its event handler, and
  the posted task uses the null pointer.
\<close>

theorem evicted_peer_crashes:
  assumes "sys_inv s" and "conn_at p s = Some c" and "state c = eConnected" and "tasks c = []"
    and "hb_recv (sk s) = Some v" and "(p, t) \<in> set (connList v)" and "15 < seconds_of clk - uint t"
  shows "srv_run header0 junk ntop [Tick clk, Readable p (Inr []) w clk1, Task p w1 clk2] s = Some (Inl NullDeref)"
proof -
  from assms(1,2) obtain srv where s: "server (sk s) = Some srv" "ServerSide.heap srv p = Some c" "core_inv {} srv v"
    using assms(5) by (auto simp: sys_inv_def conn_at_def)
  let ?v = "v\<lparr>connList := filter (\<lambda>(p, t). seconds_of clk - uint t \<le> 15) (connList v)\<rparr>"
  let ?c = "c\<lparr>state := eDisconnected, tasks := [CloseTask]\<rparr>"
  have "forceClose False c = Inr ?c" using assms(3,4) by (simp add: forceClose_def Let_def)
  moreover obtain H where H: "timerCallback_recv False clk (v, ServerSide.heap srv) = Inr (?v, H)"
    and "H p = ServerSide.heap srv p \<and> (\<forall>t. (p, t) \<in> set (connList v) \<longrightarrow> seconds_of clk - uint t \<le> 15) \<or>
       (\<exists>c d. ServerSide.heap srv p = Some c \<and> forceClose False c = Inr d \<and> H p = Some d)"
    using evict_life [OF s(3), of clk] by blast
  ultimately have Hp: "H p = Some ?c" using assms(6,7) s(2) by force
  let ?s = "s\<lparr>sk := (sk s)\<lparr>hb_recv := Some ?v, server := Some (srv\<lparr>ServerSide.heap := H\<rparr>)\<rparr>\<rparr>"
  have tick: "srv_exec header0 junk ntop (Tick clk) s = Some (Inr ?s)"
    using s(1) assms(5) H by simp
  have c: "conn_inv c" "connCallbackFunc c" "closeFunc c"
    using core_ptr [OF s(3,2)] by (simp_all add: life_def run_inv_def)
  then have inv: "conn_inv ?c" and ev: "event ?c \<noteq> None" using assms(3) by (simp_all add: conn_inv_def)
  then obtain e where e: "event ?c = Some e" by auto
  let ?r = "?c\<lparr>readBuffer := reset (readBuffer ?c)\<rparr>"
  obtain d where d: "handleClose ?r = Inr d" "event d = None" "tasks d = [CloseTask]"
    "out d = out c @ [ConnCb eDisconnected, CloseCb, PollUpdate csEventNone, PollRemove]"
    using handleClose_result [of ?r e] e c(2,3) by auto
  let ?t = "s\<lparr>sk := (sk s)\<lparr>hb_recv := Some (?v\<lparr>connList := touch p (of_int (seconds_of clk1)) (connList ?v)\<rparr>),
      server := Some (srv\<lparr>ServerSide.heap := H(p \<mapsto> d)\<rparr>)\<rparr>, removes := removes s @ [p]\<rparr>"
  have "srv_exec header0 junk ntop (Readable p (Inr []) w clk1) ?s = Some (Inr ?t)"
    using Hp handleRead_eof [OF inv e, of junk] d onConnNew_touch
    by (simp add: on_conn_def)
  moreover have "srv_exec header0 junk ntop (Task p w1 clk2) ?t = Some (Inl NullDeref)"
    using d by (simp add: on_conn_def run_task_def handleClose_def with_event_def)
  ultimately show ?thesis using tick by (simp del: srv_exec.simps)
qed

theorem evicted_peer_crashes_witness:
  "srv_run \<lparr>FIN = 0, RSV = 5, Opcode = 9, maskBit = 0, PayloadLen = 77\<rparr> (\<lambda>_. 0) (\<lambda>_. ''10.0.0.1'')
     [Tick (Timestamp 106000000), Readable 8 (Inr []) (\<lambda>_. Inr 10) (Timestamp 106000000), Task 8 (Inr 10) (Timestamp 106000000)]
     demo_sys = Some (Inl NullDeref)"
  by (rule evicted_peer_crashes [of _ _ open_conn demo_recv 90])
    (simp_all add: demo_recv_def seconds_of_def csMicrosecondsPerSecond_def)

section \<open>Two connections with one name\<close>

text \<open>A send under a name that is not in the table reaches no connection.\<close>

lemma send_unknown:
  assumes "server (sk s) = Some srv" and "conns srv name = None"
  shows "\<exists>t. srv_exec header0 junk ntop (AppSend il name data w) s = Some (Inr t) \<and> (\<forall>r. conn_at r t = conn_at r s)"
proof -
  have "fst (getconn name srv) = 0 \<and> ServerSide.heap (snd (getconn name srv)) = ServerSide.heap srv"
    using assms(2) by (simp add: getconn_def)
  then obtain srv' where "getconn name srv = (0, srv')" "ServerSide.heap srv' = ServerSide.heap srv"
    by (cases "getconn name srv") simp
  with assms(1) show ?thesis by (simp add: srv_send_def conn_at_def)
qed

text \<open>
  C31. The index in the names is never incremented, so a peer that connects again from the same port gets the
  name of its old connection. When the removal of the old connection runs after that, it takes the entry of
  the new one: the new connection is open and read from, but whatever the application sends to it is lost.
\<close>

theorem reconnect_loses_connection:
  assumes "sys_inv s" and "removes s = [p]" and "conn_at q s = None" and "q \<noteq> 0" and "server (sk s) = Some srv"
    and "conn_name p (sk s) = conn_key (ntop (sin_addr peer)) (network2Host16 (sin_port peer)) (connIndex srv)"
  shows "\<exists>t c. srv_run header0 junk ntop [Accept q sockfd peer local, Task q w clk, RunRemove] s = Some (Inr t) \<and>
     conn_at q t = Some c \<and> state c = eConnected \<and> conn_name q (sk t) = conn_name p (sk s) \<and>
     (\<forall>il data w. \<exists>u. srv_exec header0 junk ntop (AppSend il (conn_name q (sk t)) data w) t = Some (Inr u) \<and>
        (\<forall>r. conn_at r u = conn_at r t))"
proof -
  from assms(1,2,5) obtain v where v: "hb_recv (sk s) = Some v" "core_inv {} srv v" "ServerSide.heap srv p \<noteq> None"
    by (auto simp: sys_inv_def)
  have q: "ServerSide.heap srv q = None" "p \<noteq> q" using assms(3,5) v(3) by (auto simp: conn_at_def)
  have core: "server_inv srv" "cb_conn srv" "cb_msg srv" using v(2) by (simp_all add: core_inv_def)
  let ?k = "conn_key (ntop (sin_addr peer)) (network2Host16 (sin_port peer)) (connIndex srv)"
  let ?c = "set_callbacks True True (cb_compl srv) True (new_NetConnection junk sockfd)\<lparr>tasks := [EstablishTask]\<rparr>"
  from accept_result [OF core(1) q(1) assms(4), of junk ntop local sockfd peer] core(2,3) obtain l pool where
    acc: "newConnAccept junk ntop (Inr local) q False sockfd peer srv = Inr (l, srv\<lparr>threadPool := pool, conns := (conns srv)(?k \<mapsto> q),
       ServerSide.heap := (ServerSide.heap srv)(q \<mapsto> ?c), ident := (ident srv)(q := ?k)\<rparr>)" by auto
  obtain d where d: "run_task junk w None ?c = Inr d" "state d = eConnected" "out d = [ConnCb eConnected, PollUpdate csEventRead]"
    "out ?c = []"
    by (simp add: run_task_def connEstablished_def with_event_def Let_def set_callbacks_def new_NetConnection_def
        new_EventHandler_def set_enableRead_def csEventNone_def)
  define srv1 where "srv1 = srv\<lparr>threadPool := pool, conns := (conns srv)(?k \<mapsto> q), ServerSide.heap := (ServerSide.heap srv)(q \<mapsto> ?c),
      ident := (ident srv)(q := ?k)\<rparr>"
  define srv2 where "srv2 = srv1\<lparr>ServerSide.heap := (ServerSide.heap srv1)(q \<mapsto> d)\<rparr>"
  define t where "t = s\<lparr>sk := (sk s)\<lparr>hb_recv := Some (v\<lparr>connList := touch q (of_int (seconds_of clk)) (connList v)\<rparr>),
      server := Some (removeConnInLoop p srv2)\<rparr>, removes := []\<rparr>"
  have at: "ServerSide.heap srv1 q = Some ?c" by (simp add: srv1_def)
  have "srv_exec header0 junk ntop (Accept q sockfd peer local) s = Some (Inr (s\<lparr>sk := (sk s)\<lparr>server := Some srv1\<rparr>\<rparr>))"
    using assms(5) acc by (simp add: srv1_def)
  moreover have "srv_exec header0 junk ntop (Task q w clk) (s\<lparr>sk := (sk s)\<lparr>server := Some srv1\<rparr>\<rparr>) =
      Some (Inr (s\<lparr>sk := (sk s)\<lparr>hb_recv := Some (v\<lparr>connList := touch q (of_int (seconds_of clk)) (connList v)\<rparr>),
        server := Some srv2\<rparr>\<rparr>))"
    using d v(1) at by (simp add: on_conn_def onConnNew_touch srv2_def)
  ultimately have run: "srv_run header0 junk ntop [Accept q sockfd peer local, Task q w clk, RunRemove] s = Some (Inr t)"
    using assms(2) by (simp add: t_def del: srv_exec.simps) simp
  have name: "conn_name p (sk s) = ?k" "conn_name q (sk t) = ?k" "ident srv2 p = ?k"
    using assms(5,6) q(2) by (simp_all add: conn_name_def t_def removeConnInLoop_def srv2_def srv1_def)
  have "server (sk t) = Some (removeConnInLoop p srv2)" "conns (removeConnInLoop p srv2) ?k = None"
    using name(3) by (simp_all add: t_def removeConnInLoop_def)
  note lost = send_unknown [OF this]
  have "conn_at q t = Some d" by (simp add: conn_at_def t_def removeConnInLoop_def srv2_def)
  with run d(2) name lost show ?thesis by (intro exI [of _ t] exI [of _ d]) simp
qed

theorem reconnect_loses_connection_witness:
  "\<exists>t c. srv_run \<lparr>FIN = 0, RSV = 5, Opcode = 9, maskBit = 0, PayloadLen = 77\<rparr> (\<lambda>_. 0) (\<lambda>_. ''10.0.0.1'')
       [Accept 5 11 \<lparr>sin_family = 2, sin_port = 1, sin_addr = 1\<rparr> \<lparr>sin_family = 2, sin_port = 1, sin_addr = 1\<rparr>,
        Task 5 (Inr 10) (Timestamp 100000000), RunRemove] (demo_sys\<lparr>removes := [4]\<rparr>) = Some (Inr t) \<and>
     conn_at 5 t = Some c \<and> state c = eConnected"
proof -
  let ?s = "demo_sys\<lparr>removes := [4]\<rparr>"
  obtain srv where srv: "server (sk demo_sys) = Some srv" "connIndex srv = 0" "ident srv 4 = conn_key ''10.0.0.1'' 256 0"
    by (simp add: demo_sys_def demo_server_def)
  have at: "conn_at r ?s = conn_at r demo_sys" for r by (simp add: conn_at_def)
  have "sys_inv ?s" using demo_sys_facts(1,2) by (auto simp: sys_inv_def conn_at_def simp del: demo_sys_facts)
  moreover have "conn_name 4 (sk ?s) = conn_key ''10.0.0.1'' (network2Host16 1) (connIndex srv)"
    using srv by (simp add: conn_name_def network2Host16_def byte_of_def)
  ultimately show ?thesis
    using reconnect_loses_connection [of ?s 4 5 srv "\<lambda>_. ''10.0.0.1''" "\<lparr>sin_family = 2, sin_port = 1, sin_addr = 1\<rparr>"
        "\<lparr>FIN = 0, RSV = 5, Opcode = 9, maskBit = 0, PayloadLen = 77\<rparr>" "\<lambda>_. 0" 11
        "\<lparr>sin_family = 2, sin_port = 1, sin_addr = 1\<rparr>" "Inr 10" "Timestamp 100000000"] srv(1) at by auto
qed

end
