(* ===== verification/Sessions.thy ===== *)
theory Sessions
  imports ServerProperties
begin

text \<open>
  Many messages over one connection: an application of the client sends them one after the other, the
  loop thread of the client writes the frames, and the server reads the bytes in pieces that end at message
  ends, among whatever else it has to do.
\<close>

section \<open>The server's side\<close>

text \<open>Messages other than PING change nothing but the heartbeat entry and the application.\<close>

lemma heartbeat_plain:
  assumes "hb_recv k = Some v" and "server k = Some srv" and "d \<noteq> PING"
  shows "update_heartbeat header0 junk il w clk p d (length d) k =
     Inr (False, k\<lparr>hb_recv := Some (v\<lparr>connList := touch p (of_int (seconds_of clk)) (connList v)\<rparr>)\<rparr>)"
proof -
  have "processPing header0 junk il w p d (length d) H = Inr (False, H)" for H
    using assms(3) by (simp add: processPing_def load_def)
  with assms(1,2) show ?thesis by (simp add: update_heartbeat_def updateConn_def)
qed

lemma plain_messages:
  assumes "hb_recv k = Some v" and "server k = Some srv" and "PING \<notin> set ds" and "p \<noteq> 0" and "onConnMsgFunc k"
  shows "\<exists>k' v'. each_message (srv_decFrameCallback header0 junk il w clk p) ds k = Inr k' \<and> server k' = Some srv \<and>
     hb_recv k' = Some v' \<and> onConnMsgFunc k' \<and> got k' = got k @ map (\<lambda>d. (conn_name p k, d)) ds"
  using assms
proof (induction ds arbitrary: k v)
  case (Cons d ds)
  let ?v = "v\<lparr>connList := touch p (of_int (seconds_of clk)) (connList v)\<rparr>"
  let ?k = "k\<lparr>hb_recv := Some ?v, got := got k @ [(conn_name p k, d)]\<rparr>"
  have "d \<noteq> PING" using Cons.prems(3) by auto
  then have "srv_decFrameCallback header0 junk il w clk p d k = Inr ?k"
    using Cons.prems heartbeat_plain [OF Cons.prems(1,2), of d header0 junk il w clk p]
    by (simp add: srv_decFrameCallback_def conn_name_def)
  moreover have "hb_recv ?k = Some ?v" "server ?k = Some srv" "PING \<notin> set ds" "p \<noteq> 0" "onConnMsgFunc ?k"
    using Cons.prems by simp_all
  from Cons.IH [OF this] obtain k' v' where
    "each_message (srv_decFrameCallback header0 junk il w clk p) ds ?k = Inr k'" "server k' = Some srv"
    "hb_recv k' = Some v'" "onConnMsgFunc k'" "got k' = got ?k @ map (\<lambda>d. (conn_name p ?k, d)) ds" by blast
  ultimately show ?case by (simp add: conn_name_def)
qed simp

text \<open>A connection that is open, watched for input, and known to a running server with an application.\<close>

definition listens :: "nat \<Rightarrow> server_sys \<Rightarrow> bool" where
  "listens p s \<longleftrightarrow> sys_inv s \<and> onConnMsgFunc (sk s) \<and> (\<exists>c e. conn_at p s = Some c \<and> state c = eConnected \<and>
     event c = Some e \<and> events e AND csEventRead \<noteq> 0)"

lemma reset_room: "length xs \<le> csMaxBufSize \<Longrightarrow> readv_fits (reset b) (Inr xs)"
  by (simp add: readv_fits_def readv_room_def)

lemma read_batch:
  assumes "listens p s" and "ms \<noteq> []" and "\<forall>m \<in> set ms. ws_good m \<and> delivered (snd m) \<noteq> PING"
    and "bytes = concat (map (ws_enc header1) ms)" and "bytes \<noteq> []" and "length bytes \<le> csMaxBufSize"
  shows "\<exists>t. srv_exec header0 junk ntop (Readable p (Inr bytes) w clk) s = Some (Inr t) \<and> listens p t \<and>
     got (sk t) = got (sk s) @ map (\<lambda>m. (conn_name p (sk s), delivered (snd m))) ms \<and>
     conn_name p (sk t) = conn_name p (sk s)"
proof -
  from assms(1) obtain c e where s: "sys_inv s" "onConnMsgFunc (sk s)" "conn_at p s = Some c" "state c = eConnected"
    "event c = Some e" "events e AND csEventRead \<noteq> 0" by (auto simp: listens_def)
  have small: "length bytes < MAX_FRAMESIZE" using assms(6) by (simp add: csMaxBufSize_def MAX_FRAMESIZE_def)
  from codec.dec_batch [of "new_WSProtocol junk" ms header1] assms(2-4) small obtain q where
    "ws_dec (new_WSProtocol junk) bytes = Some (q, map (\<lambda>m. delivered (snd m)) ms)" by auto
  then obtain t0 where t0: "decodeFrame (new_WSProtocol junk) (bytes @ [0]) (int (length bytes)) = Some (Inr t0)"
    "d_out t0 = map (\<lambda>m. delivered (snd m)) ms"
    by (auto simp: ws_dec_def split: option.splits sum.splits)
  then have dec: "decodes junk bytes" by (simp add: decodes_def)
  from conn_at_sys [OF s(1,3)] have p: "p \<noteq> 0" "life c" by simp_all
  then have inv: "conn_inv c" "msgRecvFunc c" by (simp_all add: life_conn_inv life_def)
  from handleRead_data [OF inv(1) s(5) assms(5) reset_room [OF assms(6)], of junk] inv(2) obtain d where
    d: "handleRead junk (Inr bytes) c = Inr d" "conn_inv d" "event d = event c" "state d = state c"
      "out d = out c @ [MsgCb bytes]" "content (readBuffer d) = bytes" by auto
  from s(1,3) obtain srv v where srv: "server (sk s) = Some srv" "hb_recv (sk s) = Some v" "ServerSide.heap srv p = Some c"
    by (auto simp: sys_inv_def conn_at_def)
  let ?srv = "srv\<lparr>ServerSide.heap := (ServerSide.heap srv)(p \<mapsto> d)\<rparr>"
  let ?k = "(sk s)\<lparr>server := Some ?srv\<rparr>"
  have on: "on_conn p (handleRead junk (Inr bytes)) s = Inr ([MsgCb bytes], s\<lparr>sk := ?k\<rparr>)"
    using srv d(1,5) by (simp add: on_conn_def)
  have "PING \<notin> set (map (\<lambda>m. delivered (snd m)) ms)" using assms(3) by auto
  from plain_messages [of ?k v ?srv, OF _ _ this p(1), of header0 junk True w clk] srv s(2) obtain k' v' where
    k': "each_message (srv_decFrameCallback header0 junk True w clk p) (d_out t0) ?k = Inr k'" "server k' = Some ?srv"
      "hb_recv k' = Some v'" "onConnMsgFunc k'" "got k' = got ?k @ map (\<lambda>d. (conn_name p ?k, d)) (d_out t0)"
    unfolding t0(2) by auto
  have buf: "buf_inv (readBuffer d)" using d(2) by (simp add: conn_inv_def)
  from readAll_content [OF this] obtain b' where b': "readAll (readBuffer d) = Inr (bytes, b')" using d(6) by auto
  have "srv_onConnMessage header0 junk True w clk p (readBuffer d) ?k = Some (Inr (k', b'))"
    using b' t0(1) k'(1) length_content [OF buf] d(6) by (simp add: srv_onConnMessage_def)
  then have exec: "srv_exec header0 junk ntop (Readable p (Inr bytes) w clk) s = Some (Inr (s\<lparr>sk := with_buffer p b' k'\<rparr>))"
    using on by (simp add: deliver_def)
  have "srv_ok junk (Readable p (Inr bytes) w clk) s" using s assms(5,6) dec reset_room by simp
  from readable_step [OF s(1) this, of header0 ntop] exec have "sys_inv (s\<lparr>sk := with_buffer p b' k'\<rparr>)"
    by (auto simp del: srv_exec.simps)
  moreover have "conn_at p (s\<lparr>sk := with_buffer p b' k'\<rparr>) = Some (d\<lparr>readBuffer := b'\<rparr>)"
    using k'(2) by (simp add: conn_at_def with_buffer_def)
  ultimately have "listens p (s\<lparr>sk := with_buffer p b' k'\<rparr>)"
    using s(4-6) d(3,4) k'(2,4) by (simp add: listens_def with_buffer_def)
  then show ?thesis
    using exec k'(2,5) t0(2) srv(1) by (simp add: with_buffer_def conn_name_def comp_def)
qed

text \<open>A batch of messages that the server can read at once and that reaches the application unchanged.\<close>

definition batch_ok :: "WSHead \<Rightarrow> (OpCode \<times> byte list) list \<Rightarrow> bool" where
  "batch_ok header1 g \<longleftrightarrow> g \<noteq> [] \<and> (\<forall>m \<in> set g. ws_good m \<and> delivered (snd m) = snd m \<and> snd m \<noteq> PING) \<and>
     length (concat (map (ws_enc header1) g)) \<le> csMaxBufSize"

lemma ws_enc_nonempty: "ws_good m \<Longrightarrow> ws_enc header1 m \<noteq> []"
proof -
  assume good: "ws_good m"
  let ?fs = "message_frames (opcode_val (fst m)) (snd m)"
  have "opcode_val (fst m) = 1 \<or> opcode_val (fst m) = 2" "deliverable (length (snd m))"
    using good data_opcode by (auto simp: ws_good_def)
  from message_frames_spec [OF this, of "[]"] have "?fs \<noteq> []" by auto
  moreover have "wire f \<noteq> []" for f using length_wire [of f] by (cases "wire f") (auto split: if_splits)
  ultimately show ?thesis using ws_enc_frames [OF good, of header1] by (cases ?fs) simp_all
qed

definition read_of :: "nat \<Rightarrow> (nat \<Rightarrow> errno + nat) \<Rightarrow> Timestamp \<Rightarrow> byte list \<Rightarrow> srv_op" where
  "read_of p w clk bytes = Readable p (Inr bytes) w clk"

lemma read_batches:
  assumes "listens p s" and "\<forall>g \<in> set groups. batch_ok header1 g"
  shows "\<exists>t. srv_run header0 junk ntop (map (\<lambda>g. read_of p w clk (concat (map (ws_enc header1) g))) groups) s = Some (Inr t) \<and>
     listens p t \<and> got (sk t) = got (sk s) @ map (\<lambda>m. (conn_name p (sk s), snd m)) (concat groups)"
  using assms
proof (induction groups arbitrary: s)
  case (Cons g gs)
  have g: "g \<noteq> []" "\<forall>m \<in> set g. ws_good m \<and> delivered (snd m) = snd m \<and> snd m \<noteq> PING"
    "length (concat (map (ws_enc header1) g)) \<le> csMaxBufSize"
    using Cons.prems(2) by (simp_all add: batch_ok_def)
  have "concat (map (ws_enc header1) g) \<noteq> []" using g(1,2) ws_enc_nonempty by (cases g) auto
  from read_batch [OF Cons.prems(1) g(1) _ refl this g(3), of header0 junk ntop w clk] g(2) obtain t where
    t: "srv_exec header0 junk ntop (read_of p w clk (concat (map (ws_enc header1) g))) s = Some (Inr t)" "listens p t"
      "got (sk t) = got (sk s) @ map (\<lambda>m. (conn_name p (sk s), delivered (snd m))) g" "conn_name p (sk t) = conn_name p (sk s)"
    by (auto simp: read_of_def)
  from Cons.IH [OF t(2)] Cons.prems(2) obtain u where
    "srv_run header0 junk ntop (map (\<lambda>g. read_of p w clk (concat (map (ws_enc header1) g))) gs) t = Some (Inr u)" "listens p u"
    "got (sk u) = got (sk t) @ map (\<lambda>m. (conn_name p (sk t), snd m)) (concat gs)" by auto
  moreover have "map (\<lambda>m. (conn_name p (sk s), delivered (snd m))) g = map (\<lambda>m. (conn_name p (sk s), snd m)) g"
    using g(2) by simp
  ultimately show ?case using t by (simp del: srv_exec.simps)
qed simp

section \<open>The client's side\<close>

fun net_sends ::
    "WSHead \<Rightarrow> (nat \<Rightarrow> byte) \<Rightarrow> (nat \<Rightarrow> errno + nat) \<Rightarrow> bool list \<Rightarrow> (OpCode \<times> byte list) list \<Rightarrow> WSNet \<Rightarrow> WSNet res option" where
  "net_sends header0 junk w polls [] wn = Some (Inr wn)"
| "net_sends header0 junk w polls ((ty, m) # ms) wn =
     go (net_send header0 junk False w polls True m (int (length m)) ty wn) (\<lambda>(_, wn). net_sends header0 junk w polls ms wn)"

lemma net_sends_post:
  assumes "client wn = Some n" and "conn n = Some c" and "state c = eConnected" and "True \<in> set polls"
    and "\<forall>m \<in> set ms. ws_good m"
  shows "\<exists>fs. net_sends header0 junk w polls ms wn =
       Some (Inr (wn\<lparr>client := Some (n\<lparr>conn := Some (c\<lparr>tasks := tasks c @ map SendTask fs\<rparr>)\<rparr>)\<rparr>)) \<and>
     concat fs = concat (map (ws_enc header0) ms)"
  using assms
proof (induction ms arbitrary: wn n c)
  case Nil
  then show ?case by (intro exI [of _ "[]"]) simp
next
  case (Cons m ms)
  obtain ty d where m: "m = (ty, d)" by (cases m)
  let ?fs = "map wire (message_frames (opcode_val ty) d)"
  have good: "ws_good (ty, d)" using Cons.prems(5) m by simp
  then have enc: "encodeFrame header0 d (int (length d)) ty = Inr (xmask d, ?fs)"
    using encodeFrame_data [of ty "length d" d header0] by (simp add: ws_good_def deliverable_def)
  obtain j where "wait_connected polls = Some j" using wait_connected_Some [OF Cons.prems(4)] by blast
  let ?c = "c\<lparr>tasks := tasks c @ map SendTask ?fs\<rparr>"
  let ?n = "n\<lparr>conn := Some ?c\<rparr>"
  have sent: "net_send header0 junk False w polls True d (int (length d)) ty wn = Some (Inr (xmask d, wn\<lparr>client := Some ?n\<rparr>))"
    using each_frame_posts [OF Cons.prems(1-3), of junk w 0 ?fs] \<open>wait_connected polls = Some j\<close>
    by (simp add: net_send_def enc)
  have "client (wn\<lparr>client := Some ?n\<rparr>) = Some ?n" "conn ?n = Some ?c" "state ?c = eConnected" "\<forall>m \<in> set ms. ws_good m"
    using Cons.prems by simp_all
  from Cons.IH [OF this(1-3) Cons.prems(4) this(4)] obtain fs where
    "net_sends header0 junk w polls ms (wn\<lparr>client := Some ?n\<rparr>) =
       Some (Inr (wn\<lparr>client := Some (n\<lparr>conn := Some (c\<lparr>tasks := tasks ?c @ map SendTask fs\<rparr>)\<rparr>)\<rparr>))"
    "concat fs = concat (map (ws_enc header0) ms)" by auto
  with sent m ws_enc_frames [OF good, of header0] show ?case
    by (intro exI [of _ "?fs @ fs"]) simp
qed

section \<open>From the client's application to the server's\<close>


lemma demo_listens: "listens 4 demo_sys"
  using open_conn_facts(4) by (simp add: listens_def)

lemma demo_batch: "batch_ok \<lparr>FIN = 0, RSV = 5, Opcode = 9, maskBit = 0, PayloadLen = 77\<rparr> [(eTextFrame, [104]), (eTextFrame, [105, 33])]"
  "batch_ok \<lparr>FIN = 0, RSV = 5, Opcode = 9, maskBit = 0, PayloadLen = 77\<rparr> [(eTextFrame, [46])]"
  using short_message_length [of "[104]"] short_message_length [of "[105, 33]"] short_message_length [of "[46]"]
  by (simp_all add: batch_ok_def delivered_def Let_def slice_consts PING_def csMaxBufSize_def)


end
