(* ===== verification/ClientRuns.thy ===== *)
theory ClientRuns
  imports ClientEndpoint ConnectionLife Runs
begin

text \<open>
  A whole client at work: \<^verbatim>\<open>WSNet\<close> with its connector, its connection and its heartbeat, under any order
  of posted tasks, events of its descriptors, heartbeat timers and sends of the application. The calls of
  the connection to \<^verbatim>\<open>onConnected\<close> and \<^verbatim>\<open>onConnMessage\<close> are carried out here; \<^verbatim>\<open>destroyConnection\<close>, its
  close callback, is empty.
\<close>

section \<open>The system\<close>

definition cl_on_conn :: "(NetConnection \<Rightarrow> NetConnection res) \<Rightarrow> WSNet \<Rightarrow> (conn_out list \<times> WSNet) res" where
  "cl_on_conn f wn =
     (case client wn of
        None \<Rightarrow> Inl NullDeref
      | Some n \<Rightarrow>
          (case conn n of
             None \<Rightarrow> Inl NullDeref
           | Some c \<Rightarrow> res_bind (f c) (\<lambda>d.
               Inr (drop (length (out c)) (out d), wn\<lparr>client := Some (n\<lparr>conn := Some d\<rparr>)\<rparr>))))"

definition cl_deliver :: "WSNet \<Rightarrow> WSNet res option" where
  "cl_deliver wn =
     (case client wn of
        None \<Rightarrow> Some (Inl NullDeref)
      | Some n \<Rightarrow>
          (case conn n of
             None \<Rightarrow> Some (Inl NullDeref)
           | Some c \<Rightarrow> map_option (\<lambda>r. res_bind r (\<lambda>(wn, b).
               Inr (wn\<lparr>client := Some (n\<lparr>conn := Some (c\<lparr>readBuffer := b\<rparr>)\<rparr>)\<rparr>)))
               (net_onConnMessage True (readBuffer c) wn)))"

text \<open>\<open>w\<close> and \<open>w'\<close> answer the writes of PING frames, \<open>idx\<close> is the next timer index.\<close>

fun cl_upcalls ::
    "WSHead \<Rightarrow> (nat \<Rightarrow> byte) \<Rightarrow> (nat \<Rightarrow> errno + nat) \<Rightarrow> (nat \<Rightarrow> errno + nat) \<Rightarrow> Timestamp \<Rightarrow> int \<Rightarrow> conn_out list
     \<Rightarrow> WSNet \<Rightarrow> WSNet res option" where
  "cl_upcalls header0 junk w w' clk idx [] wn = Some (Inr wn)"
| "cl_upcalls header0 junk w w' clk idx (ConnCb st # xs) wn =
     go (Some (net_onConnected header0 junk True w w' clk idx (st = eConnected) wn)) (cl_upcalls header0 junk w w' clk idx xs)"
| "cl_upcalls header0 junk w w' clk idx (MsgCb m # xs) wn =
     go (cl_deliver wn) (cl_upcalls header0 junk w w' clk idx xs)"
| "cl_upcalls header0 junk w w' clk idx (_ # xs) wn = cl_upcalls header0 junk w w' clk idx xs wn"

text \<open>The socket that a step of the connector hands over.\<close>

definition new_socket :: "Connector \<Rightarrow> Connector \<Rightarrow> int option" where
  "new_socket c d = (case concat (map (\<lambda>x. case x of NewConnection s \<Rightarrow> [s] | _ \<Rightarrow> []) (drop (length (cout c)) (cout d))) of
     [] \<Rightarrow> None | s # _ \<Rightarrow> Some s)"

text \<open>
  The steps. The connector hands a socket over once in its life, so \<^verbatim>\<open>establishConnection\<close> finds no older
  connection whose close it would have to report.
\<close>

datatype cl_op =
    ConnectorTask "errno + int" "errno option"
  | ConnectDone int "errno + sockaddr_in" "errno + sockaddr_in" "nat \<Rightarrow> errno + nat" "nat \<Rightarrow> errno + nat" Timestamp int
  | ConnTask "errno + nat" "nat \<Rightarrow> errno + nat" Timestamp int
  | ConnReadable "int + byte list" "nat \<Rightarrow> errno + nat" "nat \<Rightarrow> errno + nat" Timestamp int
  | HeartTick "nat \<Rightarrow> errno + nat" "errno + int" "errno option"
  | ClientSend OpCode "byte list" "bool list" "nat \<Rightarrow> errno + nat"

fun cl_exec :: "WSHead \<Rightarrow> (nat \<Rightarrow> byte) \<Rightarrow> (uint32 \<Rightarrow> string) \<Rightarrow> cl_op \<Rightarrow> WSNet \<Rightarrow> WSNet res option" where
  "cl_exec header0 junk ntop (ConnectorTask s r) wn =
     Some (case client wn of
        None \<Rightarrow> Inl NullDeref
      | Some n \<Rightarrow> res_bind (run_cn_task s r (connector n)) (\<lambda>c. Inr (wn\<lparr>client := Some (n\<lparr>connector := c\<rparr>)\<rparr>)))"
| "cl_exec header0 junk ntop (ConnectDone err peer local w w' clk idx) wn =
     (case client wn of
        None \<Rightarrow> Some (Inl NullDeref)
      | Some n \<Rightarrow>
          let c = c_handleWrite err (connector n); n' = n\<lparr>connector := c\<rparr> in
          (case new_socket (connector n) c of
             None \<Rightarrow> Some (Inr (wn\<lparr>client := Some n'\<rparr>))
           | Some sockfd \<Rightarrow>
               go (Some (establishConnection junk ntop peer local sockfd n')) (\<lambda>n'.
                 cl_upcalls header0 junk w w' clk idx (case conn n' of None \<Rightarrow> [] | Some c \<Rightarrow> out c)
                   (wn\<lparr>client := Some n'\<rparr>))))"
| "cl_exec header0 junk ntop (ConnTask w0 w clk idx) wn =
     go (Some (cl_on_conn (run_task junk w0 None) wn)) (\<lambda>(us, wn). cl_upcalls header0 junk w w clk idx us wn)"
| "cl_exec header0 junk ntop (ConnReadable r w w' clk idx) wn =
     go (Some (cl_on_conn (handleRead junk r) wn)) (\<lambda>(us, wn). cl_upcalls header0 junk w w' clk idx us wn)"
| "cl_exec header0 junk ntop (HeartTick w s r) wn =
     Some (case client wn of
        None \<Rightarrow> Inl NullDeref
      | Some n \<Rightarrow> res_bind (timerHandle header0 junk False w s r (heart wn, n)) (\<lambda>(h, n).
          Inr (wn\<lparr>heart := h, client := Some n\<rparr>)))"
| "cl_exec header0 junk ntop (ClientSend type data polls w) wn =
     map_option (\<lambda>r. res_bind r (\<lambda>(_, wn). Inr wn))
       (net_send header0 junk False w polls True data (int (length data)) type wn)"

abbreviation cl_run :: "WSHead \<Rightarrow> (nat \<Rightarrow> byte) \<Rightarrow> (uint32 \<Rightarrow> string) \<Rightarrow> cl_op list \<Rightarrow> WSNet \<Rightarrow> WSNet res option" where
  "cl_run header0 junk ntop \<equiv> steps (cl_exec header0 junk ntop)"

text \<open>
  When a step can occur, with what is known to fail kept out: the system gives a socket and knows the
  addresses of a connected one; what is read makes the decoder return, and the server does not close; a
  heartbeat timer finds its PING answered.
\<close>

fun cl_ok :: "cl_op \<Rightarrow> WSNet \<Rightarrow> bool" where
  "cl_ok (ConnectorTask s r) wn \<longleftrightarrow> (case s of Inl e \<Rightarrow> False | Inr sockfd \<Rightarrow> True)"
| "cl_ok (ConnectDone err peer local w w' clk idx) wn \<longleftrightarrow>
     (case client wn of None \<Rightarrow> False | Some n \<Rightarrow> cevent (connector n) \<noteq> None) \<and>
     (case (peer, local) of (Inr a, Inr b) \<Rightarrow> True | _ \<Rightarrow> False)"
| "cl_ok (ConnTask w0 w clk idx) wn \<longleftrightarrow> (case client wn of None \<Rightarrow> False | Some n \<Rightarrow> conn n \<noteq> None)"
| "cl_ok (ConnReadable r w w' clk idx) wn \<longleftrightarrow>
     (case client wn of
        None \<Rightarrow> False
      | Some n \<Rightarrow>
          (case conn n of
             None \<Rightarrow> False
           | Some c \<Rightarrow> readv_fits (reset (readBuffer c)) r \<and>
               (case r of
                  Inl _ \<Rightarrow> True
                | Inr xs \<Rightarrow> xs \<noteq> [] \<and>
                    (case decodeFrame (proto wn) (xs @ [0]) (int (length xs)) of Some (Inr t) \<Rightarrow> True | _ \<Rightarrow> False))))"
| "cl_ok (HeartTick w s r) wn \<longleftrightarrow> timers (heart wn) \<noteq> [] \<and> state_of (heart wn) \<noteq> eWaitPong"
| "cl_ok (ClientSend type data polls w) wn \<longleftrightarrow>
     (type = eTextFrame \<or> type = eBlobFrame) \<and> data \<noteq> [] \<and> True \<in> set polls"

abbreviation cl_oks :: "WSHead \<Rightarrow> (nat \<Rightarrow> byte) \<Rightarrow> (uint32 \<Rightarrow> string) \<Rightarrow> cl_op list \<Rightarrow> WSNet \<Rightarrow> bool" where
  "cl_oks header0 junk ntop \<equiv> all_ok (cl_exec header0 junk ntop) cl_ok"

section \<open>The invariant\<close>

text \<open>
  Before the connect is complete nothing else has happened; afterwards the connection is open, the
  connector is at rest, and the heartbeat has a timer and waits to send a PING or for its PONG.
\<close>

definition net_inv :: "NetClient \<Rightarrow> HeartbeatSender \<Rightarrow> bool" where
  "net_inv n h \<longleftrightarrow> cbConn n \<and> cbMsg n \<and> connector_inv (connector n) \<and> has_loop h \<and>
     (case conn n of
        None \<Rightarrow> cstate (connector n) = CDisconnected \<and> state_of h = eWaitPing \<and> timers h = [] \<and>
          (ctasks (connector n) = [] \<or> ctasks (connector n) = [StartTask] \<and> cevent (connector n) = None)
      | Some c \<Rightarrow> life c \<and> opened c \<and> cstate (connector n) = CConnected \<and> ctasks (connector n) = [] \<and>
          cevent (connector n) = None \<and> has_net h \<and> (state_of h = eWaitPing \<or> state_of h = eWaitPong) \<and> timers h \<noteq> [])"

definition cl_inv :: "WSNet \<Rightarrow> bool" where
  "cl_inv wn \<longleftrightarrow> (\<exists>n. client wn = Some n \<and> net_inv n (heart wn))"

lemma open_life: "life c \<Longrightarrow> state c = eConnected \<Longrightarrow> opened c"
  by (auto simp: life_def phase_defs)

lemma opened_state: "opened c \<Longrightarrow> state c = eConnected"
  by (simp add: opened_def)

lemma net_inv_conn:
  "net_inv n h \<Longrightarrow> conn n = Some c \<Longrightarrow> life d \<Longrightarrow> state d = eConnected \<Longrightarrow> net_inv (n\<lparr>conn := Some d\<rparr>) h"
  using open_life by (simp add: net_inv_def)

text \<open>A send on the open connection, frame by frame.\<close>

lemma frames_to_client:
  assumes "conn n = Some c" and "life c" and "state c = eConnected"
  shows "\<exists>d. each_frame (\<lambda>i data n. if b then send_to_client junk il w i data n else Inr n) i fs n = Inr (n\<lparr>conn := Some d\<rparr>) \<and>
     life d \<and> state d = eConnected"
  using assms
proof (induction fs arbitrary: i n c)
  case Nil
  then show ?case by (intro exI [of _ c]) simp
next
  case (Cons f fs)
  from life_send [OF Cons.prems(2), of junk il "w i" f] obtain d where
    d: "send junk il (w i) f c = Inr d" "life d" "state d = eConnected" using Cons.prems(3) by auto
  let ?d = "if b then d else c"
  have "conn (n\<lparr>conn := Some ?d\<rparr>) = Some ?d" "life ?d" "state ?d = eConnected" using d Cons.prems by simp_all
  from Cons.IH [OF this, of "Suc i"] obtain e where
    e: "each_frame (\<lambda>i data n. if b then send_to_client junk il w i data n else Inr n) (Suc i) fs (n\<lparr>conn := Some ?d\<rparr>) =
      Inr (n\<lparr>conn := Some e\<rparr>)" "life e" "state e = eConnected" by auto
  have "n\<lparr>conn := Some c\<rparr> = n" using Cons.prems(1) by simp
  with e d(1) Cons.prems(1) show ?case by (cases b) (auto simp: send_to_client_def)
qed

lemma ping_sent:
  assumes "conn n = Some c" and "life c" and "state c = eConnected"
  shows "\<exists>d. sendHeartbeat header0 junk il w h n = Inr (n\<lparr>conn := Some d\<rparr>) \<and> life d \<and> state d = eConnected"
  using frames_to_client [OF assms, of "has_net h" junk il w 0 "[ping_frame header0]"]
  unfolding sendHeartbeat_def encode_ping by simp

lemma frames_posted:
  assumes "client wn = Some n" and "conn n = Some c" and "life c" and "state c = eConnected"
  shows "\<exists>d. each_frame (net_encFrameCallback junk False w) i fs wn = Inr (wn\<lparr>client := Some (n\<lparr>conn := Some d\<rparr>)\<rparr>) \<and>
     life d \<and> state d = eConnected"
proof -
  have "list_all is_send (tasks c)" using open_life [OF assms(3,4)] by (simp add: opened_def)
  moreover have "list_all is_send (map SendTask fs)" by (induction fs) simp_all
  ultimately have "life (c\<lparr>tasks := tasks c @ map SendTask fs\<rparr>)"
    using assms(3,4) run_inv_frame(1) by (simp add: life_def opened_def)
  then show ?thesis
    using each_frame_posts [OF assms(1,2,4), of junk w i fs] assms(4)
    by (intro exI [of _ "c\<lparr>tasks := tasks c @ map SendTask fs\<rparr>"]) simp
qed

section \<open>The steps\<close>

lemma connector_step:
  assumes "cl_inv wn"
  shows "\<exists>t. cl_exec header0 junk ntop (ConnectorTask (Inr sockfd) r) wn = Some (Inr t) \<and> cl_inv t"
proof -
  from assms obtain n where n: "client wn = Some n" "net_inv n (heart wn)" by (auto simp: cl_inv_def)
  show ?thesis
  proof (cases "ctasks (connector n)")
    case Nil
    have "n\<lparr>connector := connector n\<rparr> = n" by simp
    with n Nil show ?thesis by (simp add: run_cn_task_def cl_inv_def)
  next
    case (Cons t ts)
    with n(2) have c: "t = StartTask" "ts = []" "conn n = None" "cstate (connector n) = CDisconnected" "cevent (connector n) = None"
      by (auto simp: net_inv_def split: option.splits)
    let ?c = "(connector n)\<lparr>ctasks := []\<rparr>"
    have inv: "connector_inv ?c" using n(2) by (simp add: net_inv_def connector_inv_def)
    obtain d where d: "connect (Inr sockfd) r ?c = Inr d" "cstate d = CDisconnected" "ctasks d = []"
      using c(4,5) by (auto simp: connect_def createNonblockTcpSock_def Let_def connectImpl_def retry_def c_emit_def
          split: option.splits if_splits)
    have "connector_inv d" by (rule connector_inv_connect [OF inv d(1)])
    with n c d Cons show ?thesis
      by (auto simp: run_cn_task_def startInLoop_def cl_inv_def net_inv_def)
  qed
qed

lemma onConnected_first:
  assumes "client wn = Some n" and "conn n = Some c" and "life c" and "state c = eConnected"
    and "has_loop (heart wn)" and "state_of (heart wn) = eWaitPing"
  shows "\<exists>h d. net_onConnected header0 junk True w w' clk idx True wn =
       Inr (wn\<lparr>bconnected := True, heart := h, client := Some (n\<lparr>conn := Some d\<rparr>)\<rparr>) \<and> life d \<and> state d = eConnected \<and>
     has_loop h \<and> has_net h \<and> state_of h = eWaitPong \<and> timers h \<noteq> []"
proof -
  let ?h = "(heart wn)\<lparr>has_net := True\<rparr>"
  from ping_sent [OF assms(2-4), of header0 junk True w' ?h] obtain d where
    "sendHeartbeat header0 junk True w' ?h n = Inr (n\<lparr>conn := Some d\<rparr>)" "life d" "state d = eConnected" by blast
  moreover define h where "h = (setHeartState eWaitPong ?h)\<lparr>timers := timers (heart wn) @
      [setTimerAlgorithm (HeartTimer_nextTimestamp eWaitPong) (new_Timer () idx (HeartTimer_nextTimestamp eWaitPong clk) 1 True)]\<rparr>"
  ultimately have "net_onConnected header0 junk True w w' clk idx True wn =
      Inr (wn\<lparr>bconnected := True, heart := h, client := Some (n\<lparr>conn := Some d\<rparr>)\<rparr>)"
    using assms(1,5,6) by (simp add: net_onConnected_def heart_start_def getHeartState_def Let_def)
  moreover have "has_loop h" "has_net h" "state_of h = eWaitPong" "timers h \<noteq> []" using assms(5) by (simp_all add: h_def)
  ultimately show ?thesis using \<open>life d\<close> \<open>state d = eConnected\<close> by blast
qed

lemma connected_new:
  "\<exists>c. connEstablished (set_callbacks True True b True (new_NetConnection junk sockfd)) = Inr c \<and> life c \<and>
     state c = eConnected \<and> out c = [ConnCb eConnected, PollUpdate csEventRead]"
proof -
  let ?c = "set_callbacks True True b True (new_NetConnection junk sockfd)"
  obtain c where c: "connEstablished ?c = Inr c" "state c = eConnected" "out c = [ConnCb eConnected, PollUpdate csEventRead]"
    "tasks c = []" "connCallbackFunc c" "msgRecvFunc c" "closeFunc c"
    by (simp add: connEstablished_def with_event_def Let_def set_callbacks_def new_NetConnection_def
        new_EventHandler_def set_enableRead_def csEventNone_def)
  moreover have "run_inv c" using connEstablished_step [OF run_inv_new c(1)] by simp
  ultimately show ?thesis by (simp add: life_def opened_def)
qed

lemma done_step:
  assumes "cl_inv wn" and "cl_ok (ConnectDone err peer local w w' clk idx) wn"
  shows "\<exists>t. cl_exec header0 junk ntop (ConnectDone err peer local w w' clk idx) wn = Some (Inr t) \<and> cl_inv t"
proof -
  from assms obtain n e a b where n: "client wn = Some n" "net_inv n (heart wn)" "cevent (connector n) = Some e"
    "peer = Inr a" "local = Inr b"
    by (auto simp: cl_inv_def split: sum.splits)
  then have i: "conn n = None" "cbConn n" "cbMsg n" "connector_inv (connector n)" "has_loop (heart wn)" "ctasks (connector n) = []"
    "state_of (heart wn) = eWaitPing" "timers (heart wn) = []" "cstate (connector n) = CDisconnected"
    by (auto simp: net_inv_def split: option.splits)
  let ?d = "c_handleWrite err (connector n)"
  have t: "retryTimer (connector n) = None" using i(4) by (simp add: connector_inv_def)
  have inv: "connector_inv ?d" by (rule connector_inv_handleWrite [OF i(4)])
  have d: "ctasks ?d = []" "cevent ?d = None" "cstate ?d = (if err = 0 then CConnected else CDisconnected)"
    "new_socket (connector n) ?d = (if err = 0 then Some (fd e) else None)"
    using n(3) i(6) t by (simp_all add: c_handleWrite_def resetEvent_def resetInLoop_def retry_def Let_def new_socket_def)
  show ?thesis
  proof (cases "err = 0")
    case False
    with n i d inv show ?thesis by (simp add: cl_inv_def net_inv_def)
  next
    case True
    let ?k = "client_conn_id (ntop (sin_addr a)) (network2Host16 (sin_port a)) (connIndex n)"
    obtain c where c: "connEstablished (set_callbacks True True (cbCompl n) True (new_NetConnection junk (fd e))) = Inr c"
      "life c" "state c = eConnected" "out c = [ConnCb eConnected, PollUpdate csEventRead]"
      using connected_new by blast
    let ?n = "n\<lparr>connector := ?d, connIndex := connIndex n + 1, conn := Some c, connId := ?k\<rparr>"
    have est: "establishConnection junk ntop peer local (fd e) (n\<lparr>connector := ?d\<rparr>) = Inr ?n"
      using n(4,5) i(1-3) c(1) by (simp add: establishConnection_def get_addr_def toIp_def INET_ADDRSTRLEN_def Let_def)
    let ?wn = "wn\<lparr>client := Some ?n\<rparr>"
    have "client ?wn = Some ?n" "conn ?n = Some c" "has_loop (heart ?wn)" "state_of (heart ?wn) = eWaitPing"
      using i(5,7) by simp_all
    from onConnected_first [OF this(1,2) c(2,3) this(3,4), of header0 junk w w' clk idx] obtain h x where
      up: "net_onConnected header0 junk True w w' clk idx True ?wn =
        Inr (?wn\<lparr>bconnected := True, heart := h, client := Some (?n\<lparr>conn := Some x\<rparr>)\<rparr>)" "life x" "state x = eConnected"
        "has_loop h" "has_net h" "state_of h = eWaitPong" "timers h \<noteq> []" by blast
    have "cl_exec header0 junk ntop (ConnectDone err peer local w w' clk idx) wn =
        Some (Inr (?wn\<lparr>bconnected := True, heart := h, client := Some (?n\<lparr>conn := Some x\<rparr>)\<rparr>))"
      using n(1) d(4) est up(1) c(4) True by (simp add: Let_def)
    moreover have "net_inv (?n\<lparr>conn := Some x\<rparr>) h"
      using i(2,3) inv d True up open_life by (simp add: net_inv_def)
    ultimately show ?thesis by (simp add: cl_inv_def)
  qed
qed

lemma cl_upcalls_ups: "cl_upcalls header0 junk w w' clk idx ys wn = cl_upcalls header0 junk w w' clk idx (ups ys) wn"
proof (induction ys arbitrary: wn)
  case (Cons y ys)
  then show ?case by (cases y) (auto simp: go_def split: option.splits sum.splits)
qed simp

lemma conn_task_step:
  assumes "cl_inv wn" and "cl_ok (ConnTask w0 w clk idx) wn"
  shows "\<exists>t. cl_exec header0 junk ntop (ConnTask w0 w clk idx) wn = Some (Inr t) \<and> cl_inv t"
proof -
  from assms obtain n c where n: "client wn = Some n" "net_inv n (heart wn)" "conn n = Some c"
    by (auto simp: cl_inv_def)
  then have c: "life c" "opened c" by (simp_all add: net_inv_def)
  then have "\<not> waiting c" "tasks c \<noteq> [CloseTask]" by (auto simp: phase_defs)
  with life_task [OF c(1), of junk w0] c(2) obtain d where d: "run_task junk w0 None c = Inr d" "life d" "calls [] c d"
    "state d = eConnected" by (auto simp: opened_def)
  have "cl_exec header0 junk ntop (ConnTask w0 w clk idx) wn = Some (Inr (wn\<lparr>client := Some (n\<lparr>conn := Some d\<rparr>)\<rparr>))"
    using n d(1) calls_out [OF d(3)] by (simp add: cl_on_conn_def cl_upcalls_ups [of _ _ _ _ _ _ "drop _ _"])
  then show ?thesis using net_inv_conn [OF n(2,3) d(2,4)] by (simp add: cl_inv_def)
qed

text \<open>What the messages of a read do: a PONG is processed, the others go to the application.\<close>

lemma messages_frame:
  "let wn' = fold (net_decFrameCallback True) ds wn in
     client wn' = client wn \<and> has_loop (heart wn') = has_loop (heart wn) \<and> has_net (heart wn') = has_net (heart wn) \<and>
     timers (heart wn') = timers (heart wn) \<and> (state_of (heart wn') = state_of (heart wn) \<or> state_of (heart wn') = eWaitPing)"
proof (induction ds arbitrary: wn)
  case (Cons d ds)
  from Cons [of "net_decFrameCallback True d wn"] show ?case
    by (auto simp: Let_def net_decFrameCallback_def processPong_def split: if_splits)
qed simp

lemma read_client_step:
  assumes "cl_inv wn" and "cl_ok (ConnReadable r w w' clk idx) wn"
  shows "\<exists>t. cl_exec header0 junk ntop (ConnReadable r w w' clk idx) wn = Some (Inr t) \<and> cl_inv t"
proof -
  from assms(1) obtain n0 where "client wn = Some n0" "net_inv n0 (heart wn)" by (auto simp: cl_inv_def)
  moreover from this assms(2) obtain c where "conn n0 = Some c" by (auto split: option.splits)
  ultimately obtain n where n: "client wn = Some n" "net_inv n (heart wn)" "conn n = Some c"
    "readv_fits (reset (readBuffer c)) r" "r \<noteq> Inr []" using assms(2) by (cases r) auto
  have dec: "\<exists>t. decodeFrame (proto wn) (xs @ [0]) (int (length xs)) = Some (Inr t)" if "r = Inr xs" for xs
    using assms(2) n that
    by (cases "decodeFrame (proto wn) (xs @ [0]) (int (length xs))") (auto split: sum.splits)
  from n have c: "life c" "opened c" by (simp_all add: net_inv_def)
  from life_read [OF c(1) _ n(4), of junk] c(2) n(5) obtain d where d: "handleRead junk r c = Inr d" "life d" "state d = eConnected"
    "calls (case r of Inl _ \<Rightarrow> [] | Inr xs \<Rightarrow> if xs = [] then [ConnCb eDisconnected, CloseCb] else [MsgCb xs]) c d"
    "\<forall>xs. r = Inr xs \<longrightarrow> xs \<noteq> [] \<longrightarrow> content (readBuffer d) = xs" by (auto simp: opened_def)
  let ?n = "n\<lparr>conn := Some d\<rparr>"
  let ?wn = "wn\<lparr>client := Some ?n\<rparr>"
  have inv: "net_inv ?n (heart wn)" by (rule net_inv_conn [OF n(2,3) d(2,3)])
  have on: "cl_on_conn (handleRead junk r) wn = Inr (drop (length (out c)) (out d), ?wn)"
    using n d(1) by (simp add: cl_on_conn_def)
  show ?thesis
  proof (cases r)
    case (Inl e)
    with on calls_out [OF d(4)] inv show ?thesis
      by (simp add: cl_upcalls_ups [of _ _ _ _ _ _ "drop _ _"] cl_inv_def)
  next
    case (Inr xs)
    with n(5) d(5) have xs: "xs \<noteq> []" "content (readBuffer d) = xs" by auto
    from dec [OF Inr] obtain t where t: "decodeFrame (proto wn) (xs @ [0]) (int (length xs)) = Some (Inr t)" by blast
    have buf: "buf_inv (readBuffer d)" using d(2) by (simp add: life_def run_inv_def conn_inv_def)
    from readAll_content [OF buf] xs obtain b where b: "readAll (readBuffer d) = Inr (xs, b)" "buf_inv b" by auto
    let ?m = "fold (net_decFrameCallback True) (d_out t) (?wn\<lparr>proto := d_proto t\<rparr>)"
    let ?x = "d\<lparr>readBuffer := b\<rparr>"
    have "cl_deliver ?wn = Some (Inr (?m\<lparr>client := Some (?n\<lparr>conn := Some ?x\<rparr>)\<rparr>))"
      using b(1) t length_content [OF buf] xs(2) by (simp add: cl_deliver_def net_onConnMessage_def)
    moreover have "run_inv ?x" using d(2) b(2) by (simp add: life_def run_inv_def conn_inv_def)
    then have "life ?x" using d(2,3) by (simp add: life_def phase_defs)
    then have "net_inv (?n\<lparr>conn := Some ?x\<rparr>) (heart wn)" using net_inv_conn [OF inv, of d ?x] d(3) by simp
    then have "net_inv (?n\<lparr>conn := Some ?x\<rparr>) (heart ?m)"
      using messages_frame [of "d_out t" "?wn\<lparr>proto := d_proto t\<rparr>"] by (auto simp: net_inv_def Let_def)
    ultimately show ?thesis
      using on calls_out [OF d(4)] Inr xs(1)
      by (simp add: cl_upcalls_ups [of _ _ _ _ _ _ "drop _ _"] cl_inv_def)
  qed
qed

lemma heart_step:
  assumes "cl_inv wn" and "cl_ok (HeartTick w s r) wn"
  shows "\<exists>t. cl_exec header0 junk ntop (HeartTick w s r) wn = Some (Inr t) \<and> cl_inv t"
proof -
  from assms(1) obtain n where n: "client wn = Some n" "net_inv n (heart wn)" by (auto simp: cl_inv_def)
  with assms(2) obtain c where c: "conn n = Some c" "life c" "opened c" "state_of (heart wn) = eWaitPing"
    by (auto simp: net_inv_def split: option.splits)
  from ping_sent [OF c(1,2) opened_state [OF c(3)], of header0 junk False w "heart wn"] obtain d where
    d: "sendHeartbeat header0 junk False w (heart wn) n = Inr (n\<lparr>conn := Some d\<rparr>)" "life d" "state d = eConnected" by blast
  have "net_inv (n\<lparr>conn := Some d\<rparr>) (setHeartState eWaitPong (heart wn))"
    using net_inv_conn [OF n(2) c(1) d(2,3)] by (simp add: net_inv_def)
  with n(1) c(4) d(1) show ?thesis by (simp add: timerHandle_def cl_inv_def)
qed

lemma send_client_step:
  assumes "cl_inv wn" and "cl_ok (ClientSend type data polls w) wn"
  shows "\<exists>t. cl_exec header0 junk ntop (ClientSend type data polls w) wn = Some (Inr t) \<and> cl_inv t"
proof -
  from assms(1) obtain n where n: "client wn = Some n" "net_inv n (heart wn)" by (auto simp: cl_inv_def)
  from assms(2) obtain j where j: "wait_connected polls = Some j" using wait_connected_Some [of polls] by auto
  obtain buf fs where enc: "encodeFrame header0 data (int (length data)) type = Inr (buf, fs)"
    using encodeFrame_data [of type "length data" data header0] assms(2) by auto
  show ?thesis
  proof (cases "conn n")
    case None
    have "each_frame (net_encFrameCallback junk False w) i fs wn = Inr wn" for i
      using n(1) None by (induction fs arbitrary: i) (simp_all add: net_encFrameCallback_def)
    with assms(1) j enc show ?thesis by (simp add: net_send_def)
  next
    case (Some c)
    then have c: "life c" "state c = eConnected" using n(2) by (simp_all add: net_inv_def opened_def)
    from frames_posted [OF n(1) Some c, of junk w 0 fs] obtain d where
      "each_frame (net_encFrameCallback junk False w) 0 fs wn = Inr (wn\<lparr>client := Some (n\<lparr>conn := Some d\<rparr>)\<rparr>)"
      "life d" "state d = eConnected" by blast
    with net_inv_conn [OF n(2) Some] j enc show ?thesis by (simp add: net_send_def cl_inv_def)
  qed
qed

lemma any_client_step:
  assumes "cl_inv wn" and "cl_ok a wn"
  shows "\<exists>t. cl_exec header0 junk ntop a wn = Some (Inr t) \<and> cl_inv t"
proof (cases a)
  case (ConnectorTask s r)
  then obtain sockfd where "s = Inr sockfd" using assms(2) by (cases s) simp_all
  with ConnectorTask connector_step [OF assms(1)] show ?thesis by simp
next
  case ConnectDone
  with assms done_step show ?thesis by blast
next
  case ConnTask
  with assms conn_task_step show ?thesis by blast
next
  case ConnReadable
  with assms read_client_step show ?thesis by blast
next
  case HeartTick
  with assms heart_step show ?thesis by blast
next
  case ClientSend
  with assms send_client_step show ?thesis by blast
qed

interpretation client_side: guarded_steps "cl_exec header0 junk ntop" cl_ok cl_inv "\<lambda>_. {} :: unit set" "\<lambda>_. {}"
  for header0 junk ntop
  by unfold_locales (use any_client_step in simp)

end
