(* ===== verification/ClientProperties.thy ===== *)
theory ClientProperties
  imports ClientRuns
begin

text \<open>
  What a client guarantees in any run from its constructor, and how a run ends that the server closes or
  in which it leaves a PING without an answer.
\<close>

section \<open>Runs from the constructor\<close>

lemma connect_inv:
  assumes "new_WSNet inet_pton junk0 junk_net url = Some (Inr wn0)" and "client wn0 = Some n0"
    and "net_connect False s r wn0 = Inr wn"
  shows "cl_inv wn"
proof -
  from assms(1,2) obtain host port where new: "new_NetClient inet_pton host port = Inr n0"
    and h: "heart wn0 = new_HeartbeatSender True junk_net"
    by (auto simp: new_WSNet_def res_bind_eq_Inr split: option.splits)
  then obtain addr where "n0 = client_at addr" by (auto simp: new_NetClient_def res_bind_eq_Inr)
  with assms(2,3) h show ?thesis
    by (auto simp: net_connect_def client_connect_def c_start_def client_at_def cl_inv_def net_inv_def new_HeartbeatSender_def
        connector_inv_def new_Connector_def)
qed


definition demo_url_net :: WSNet where
  "demo_url_net =
     \<lparr>proto = new_WSProtocol (\<lambda>_. 0), client = Some (client_at \<lparr>sin_family = 2, sin_port = host2Network16 80, sin_addr = 1\<rparr>),
      bconnected = False, heart = new_HeartbeatSender True False, msgRecvCallback = False, received = []\<rparr>"

lemma demo_url: "new_WSNet (\<lambda>_. Some 1) (\<lambda>_. 0) False ''ws://h:80'' = Some (Inr demo_url_net)"
proof -
  have "parse_url (''ws:'' @ ''//'' @ ''h'' @ '':'' @ ''80'') = Some (Inr (Some (''h'', of_int (atoi ''80''))))"
    by (rule parse_url_good) simp_all
  moreover have "atoi ''80'' = 80" by (simp add: atoi_def is_space_def is_digit_def)
  ultimately show ?thesis
    by (simp add: new_WSNet_def demo_url_net_def new_NetClient_def makeSockAddr_def AF_INET_def)
qed

definition demo_client_ops :: "cl_op list" where
  "demo_client_ops =
     [ConnectorTask (Inr 9) (Some EINPROGRESS),
      ClientSend eTextFrame [104, 105] [False, True] (\<lambda>_. Inr 0),
      ConnectDone 0 (Inr \<lparr>sin_family = 2, sin_port = 1, sin_addr = 1\<rparr>) (Inr \<lparr>sin_family = 2, sin_port = 1, sin_addr = 1\<rparr>)
        (\<lambda>_. Inr 10) (\<lambda>_. Inr 10) (Timestamp 100000000) 1,
      ConnTask (Inr 10) (\<lambda>_. Inr 10) (Timestamp 100000000) 1,
      ConnReadable (Inr (pong_frame \<lparr>FIN = 0, RSV = 5, Opcode = 9, maskBit = 0, PayloadLen = 77\<rparr>)) (\<lambda>_. Inr 10) (\<lambda>_. Inr 10)
        (Timestamp 101000000) 1]"

definition demo_wn :: WSNet where
  "demo_wn = demo_url_net\<lparr>client := Some ((client_at \<lparr>sin_family = 2, sin_port = host2Network16 80, sin_addr = 1\<rparr>)
      \<lparr>cbConn := True, cbMsg := True, connector := new_Connector\<lparr>ctasks := [StartTask]\<rparr>\<rparr>)\<rparr>"

lemma demo_connect: "net_connect False (Inr 9) None demo_url_net = Inr demo_wn"
  by (simp add: demo_wn_def demo_url_net_def net_connect_def client_connect_def c_start_def client_at_def new_Connector_def)

lemmas client_defs = run_cn_task_def startInLoop_def connect_def createNonblockTcpSock_def Let_def connectImpl_def c_emit_def
  net_send_def c_handleWrite_def resetEvent_def resetInLoop_def new_socket_def establishConnection_def get_addr_def toIp_def
  INET_ADDRSTRLEN_def connEstablished_def with_event_def set_callbacks_def new_NetConnection_def new_EventHandler_def
  emit_def set_event_def net_onConnected_def heart_start_def getHeartState_def new_HeartbeatSender_def
  send_to_client_def send_def sendInReactor_def cl_on_conn_def run_task_def

lemma demo_client_ok:
  "cl_oks \<lparr>FIN = 0, RSV = 5, Opcode = 9, maskBit = 0, PayloadLen = 77\<rparr> (\<lambda>_. 0) (\<lambda>_. ''10.0.0.1'') demo_client_ops demo_wn"
proof -
  let ?h = "\<lparr>FIN = 0, RSV = 5, Opcode = 9, maskBit = 0, PayloadLen = 77\<rparr> :: WSHead"
  obtain b f where hi: "encode_data ?h [104, 105] (2::int) eTextFrame = Inr (b, [f])" using encode_hi by blast
  obtain t where dec: "decodeFrame (new_WSProtocol (\<lambda>_. 0)) (pong_frame ?h @ [0]) 10 = Some (Inr t)"
    using heart_frames_decode(2) [OF proto_inv_new] by blast
  have ping: "sendHeartbeat ?h (\<lambda>_. 0) True w h n =
      each_frame (\<lambda>i data n. if has_net h then send_to_client (\<lambda>_. 0) True w i data n else Inr n) 0 [ping_frame ?h] n" for w h n
    unfolding sendHeartbeat_def encode_ping by simp
  have "pong_frame ?h \<noteq> []" using length_heart_frames(2) [of ?h] by (metis list.size(3) numeral_neq_zero)
  then show ?thesis
    by (simp add: demo_client_ops_def demo_wn_def demo_url_net_def client_at_def new_Connector_def client_defs hi dec ping
        demo_readv net_encFrameCallback_def split: option.splits sum.splits)
qed


section \<open>The end of a client\<close>

text \<open>A timer that finds its PING unanswered posts a connect, on which the loop thread asserts.\<close>

lemma unanswered:
  assumes "client wn = Some n" and "cstate (connector n) = CConnected" and "ctasks (connector n) = []"
    and "state_of (heart wn) = eWaitPong"
  shows "cl_run header0 junk ntop [HeartTick w s r, ConnectorTask s' r'] wn = Some (Inl AssertFail)"
  using assms by (simp add: timerHandle_def client_connect_def c_start_def run_cn_task_def startInLoop_def)

lemma down_waits:
  assumes "client wn = Some n" and "conn n = Some c" and "state c = eDisconnected" and "has_loop (heart wn)"
    and "state_of (heart wn) = eWaitPing \<or> state_of (heart wn) = eWaitPong"
  shows "\<exists>h d. net_onConnected header0 junk True w w' clk idx False wn =
       Inr (wn\<lparr>bconnected := False, heart := h, client := Some (n\<lparr>conn := Some d\<rparr>)\<rparr>) \<and> state_of h = eWaitPong"
proof (cases "state_of (heart wn) = eWaitPong")
  case True
  have "n\<lparr>conn := Some c\<rparr> = n" using assms(2) by simp
  with True assms(1) show ?thesis
    by (intro exI [of _ "heart wn"] exI [of _ c]) (simp add: net_onConnected_def getHeartState_def Let_def)
next
  case False
  then have wait: "state_of (heart wn) = eWaitPing" using assms(5) by simp
  let ?h = "(heart wn)\<lparr>has_net := True\<rparr>"
  let ?d = "Connection.emit [Dropped (ping_frame header0)] c"
  have "sendHeartbeat header0 junk True w' ?h n = Inr (n\<lparr>conn := Some ?d\<rparr>)"
    using assms(2,3) unfolding sendHeartbeat_def encode_ping by (simp add: send_to_client_def send_def)
  with wait assms(1,4) show ?thesis
    by (simp add: net_onConnected_def heart_start_def getHeartState_def Let_def) (metis heart_simps(1) HeartbeatSender.select_convs(1)
        HeartbeatSender.surjective HeartbeatSender.update_convs(4))
qed

text \<open>
  C35. A connected client does not survive the end of its connection: when the server closes, or leaves a
  PING unanswered, the next heartbeat timer posts a new connect, and the loop thread runs into the assert
  that the connector is not connected.
\<close>

theorem client_never_recovers:
  assumes "cl_inv wn" and "client wn = Some n" and "conn n = Some c"
  shows "cl_run header0 junk ntop [ConnReadable (Inr []) w w' clk idx, HeartTick w2 s r, ConnectorTask s' r'] wn = Some (Inl AssertFail) \<and>
     (state_of (heart wn) = eWaitPong \<longrightarrow> cl_run header0 junk ntop [HeartTick w2 s r, ConnectorTask s' r'] wn = Some (Inl AssertFail))"
proof -
  from assms have i: "life c" "opened c" "cstate (connector n) = CConnected" "ctasks (connector n) = []" "has_loop (heart wn)"
    "state_of (heart wn) = eWaitPing \<or> state_of (heart wn) = eWaitPong" by (auto simp: cl_inv_def net_inv_def)
  have "readv_fits (reset (readBuffer c)) (Inr [])" by (simp add: readv_fits_def)
  from life_read [OF i(1) _ this, of junk] i(2) obtain d where d: "handleRead junk (Inr []) c = Inr d" "gone d"
    "calls [ConnCb eDisconnected, CloseCb] c d" by auto
  let ?wn = "wn\<lparr>client := Some (n\<lparr>conn := Some d\<rparr>)\<rparr>"
  have "client ?wn = Some (n\<lparr>conn := Some d\<rparr>)" "conn (n\<lparr>conn := Some d\<rparr>) = Some d" "state d = eDisconnected"
    "has_loop (heart ?wn)" "state_of (heart ?wn) = eWaitPing \<or> state_of (heart ?wn) = eWaitPong"
    using d(2) i(5,6) by (simp_all add: gone_def)
  from down_waits [OF this, of header0 junk w w' clk idx] obtain h x where
    h: "net_onConnected header0 junk True w w' clk idx False ?wn =
      Inr (?wn\<lparr>bconnected := False, heart := h, client := Some (n\<lparr>conn := Some x\<rparr>)\<rparr>)" "state_of h = eWaitPong" by auto
  let ?t = "?wn\<lparr>bconnected := False, heart := h, client := Some (n\<lparr>conn := Some x\<rparr>)\<rparr>"
  have "cl_exec header0 junk ntop (ConnReadable (Inr []) w w' clk idx) wn = Some (Inr ?t)"
    using assms(2,3) d(1) calls_out [OF d(3)] h(1)
    by (simp add: cl_on_conn_def cl_upcalls_ups [of _ _ _ _ _ _ "drop _ _"])
  moreover have "cl_run header0 junk ntop [HeartTick w2 s r, ConnectorTask s' r'] ?t = Some (Inl AssertFail)"
    using i(3,4) h(2) unanswered [of ?t "n\<lparr>conn := Some x\<rparr>"] by simp
  moreover have "state_of (heart wn) = eWaitPong \<longrightarrow>
      cl_run header0 junk ntop [HeartTick w2 s r, ConnectorTask s' r'] wn = Some (Inl AssertFail)"
    using unanswered [OF assms(2) i(3,4)] by simp
  ultimately show ?thesis by simp
qed

definition demo_up :: WSNet where
  "demo_up = demo_net\<lparr>client := Some (demo_client\<lparr>cbConn := True, cbMsg := True\<rparr>),
     heart := (processPong demo_heart)\<lparr>timers := [new_Timer () 1 (Timestamp 100000000) 1 True]\<rparr>\<rparr>"

lemma demo_up_facts:
  "cl_inv demo_up" "client demo_up = Some (demo_client\<lparr>cbConn := True, cbMsg := True\<rparr>)"
proof -
  show "client demo_up = Some (demo_client\<lparr>cbConn := True, cbMsg := True\<rparr>)" by (simp add: demo_up_def)
  have "run_inv demo_conn"
    using demo_conn_facts(1) by (simp add: run_inv_def new_Buffer_def csPrependSize_def)
  then have "life demo_conn" "opened demo_conn"
    by (simp_all add: life_def opened_def demo_conn_def set_callbacks_def new_NetConnection_def Let_def)
  then show "cl_inv demo_up"
    by (simp add: demo_up_def cl_inv_def net_inv_def demo_client_def demo_heart_def processPong_def new_HeartbeatSender_def
        connector_inv_def new_Connector_def client_at_def)
qed

theorem client_never_recovers_witness:
  "cl_run \<lparr>FIN = 0, RSV = 5, Opcode = 9, maskBit = 0, PayloadLen = 77\<rparr> (\<lambda>_. 0) (\<lambda>_. ''10.0.0.1'')
     [ConnReadable (Inr []) (\<lambda>_. Inr 10) (\<lambda>_. Inr 10) (Timestamp 101000000) 2, HeartTick (\<lambda>_. Inr 10) (Inr 9) None,
      ConnectorTask (Inr 9) None] demo_up = Some (Inl AssertFail)"
  using client_never_recovers [OF demo_up_facts, of demo_conn] by simp

end
