(* ===== verification/Chunking.thy ===== *)
theory Chunking
  imports CodecProperties
begin

text \<open>
  A reference for the encoder: cut the message into pieces of at most 500 bytes, one frame for each. The
  loop of \<^verbatim>\<open>encodeFrame\<close> works with indices and counts instead.
\<close>

function chunks :: "byte list \<Rightarrow> byte list list" where
  "chunks xs = (if length xs \<le> SLICE_SIZE then [xs] else take SLICE_SIZE xs # chunks (drop SLICE_SIZE xs))"
  by pat_completeness auto
termination by (relation "measure length") (auto simp: slice_consts)

declare chunks.simps [simp del]

text \<open>The first piece carries the opcode of the message, the last one the final bit.\<close>

fun piece_frames :: "4 word \<Rightarrow> byte list list \<Rightarrow> frame list" where
  "piece_frames op [] = []"
| "piece_frames op [x] = [data_frame True (SHORT_LENGTH \<le> length x) op x]"
| "piece_frames op (x # y # xs) = data_frame False True op x # piece_frames 0 (y # xs)"

lemma chunks_short [simp]: "length xs \<le> SLICE_SIZE \<Longrightarrow> chunks xs = [xs]"
  by (simp add: chunks.simps [of xs])

lemma chunks_long: "SLICE_SIZE < length xs \<Longrightarrow> chunks xs = take SLICE_SIZE xs # chunks (drop SLICE_SIZE xs)"
  by (simp add: chunks.simps [of xs])

lemma chunks_Cons: "\<exists>y ys. chunks xs = y # ys"
  by (cases "length xs \<le> SLICE_SIZE") (auto simp: chunks_long)

lemma piece_frames_long: "SLICE_SIZE < length xs \<Longrightarrow>
  piece_frames op (chunks xs) = data_frame False True op (take SLICE_SIZE xs) # piece_frames 0 (chunks (drop SLICE_SIZE xs))"
  using chunks_Cons [of "drop SLICE_SIZE xs"] by (auto simp: chunks_long)

lemma middle_slices_Cons:
  "middle_slices op xs (Suc k) = data_frame False True op (take SLICE_SIZE xs) # middle_slices 0 (drop SLICE_SIZE xs) k"
proof -
  have "middle_slices op xs (Suc k) = data_frame False True op (take SLICE_SIZE xs) #
      map (\<lambda>i. data_frame False True 0 (take SLICE_SIZE (drop (Suc i * SLICE_SIZE) xs))) [0 ..< k]"
    by (simp add: middle_slices_def upt_conv_Cons map_Suc_upt [symmetric] comp_def del: upt_Suc)
  then show ?thesis by (simp add: middle_slices_def add.commute)
qed

lemma slices_are_chunks:
  assumes "length xs = k * SLICE_SIZE + l" and "126 \<le> l" and "l < SLICE_SIZE"
  shows "piece_frames op (chunks xs) =
     middle_slices op xs k @ [data_frame True True (if k = 0 then op else 0) (take l (drop (k * SLICE_SIZE) xs))]"
  using assms
proof (induction k arbitrary: xs op)
  case 0
  then show ?case by (simp add: middle_slices_def slice_consts)
next
  case (Suc k)
  have "SLICE_SIZE < length xs" using Suc.prems by simp
  moreover have "length (drop SLICE_SIZE xs) = k * SLICE_SIZE + l" using Suc.prems(1) by simp
  ultimately show ?case
    using Suc.IH [of "drop SLICE_SIZE xs" 0] Suc.prems(2,3)
    by (simp add: piece_frames_long middle_slices_Cons add.commute)
qed



end
