(* ===== verification/IoReactor.thy ===== *)
theory IoReactor
  imports ReactorApi ConnectionRuns Runs
begin

text \<open>
  One reactor with its connections: the objects of \<open>Connection\<close> together with the event handlers, the
  poll set and the loop of \<open>ReactorApi\<close>. What a connection does to its event handler goes through the
  reactor to the poll set, and a round of \<^verbatim>\<open>Reactor::loop\<close> goes from \<^verbatim>\<open>poll(2)\<close> over the poll set to the read
  handlers of the connections.
\<close>

section \<open>The system\<close>

record ('cb, 'task) io_sys =
  io_loop :: "('cb, 'task) ReactorObj"
  io_conns :: "nat \<Rightarrow> NetConnection option"

text \<open>
  What the outputs of a connection are for its event handler: an update of the mask, or, when it is
  followed by a removal, the destructor.
\<close>

fun handler_ops :: "conn_out list \<Rightarrow> handler_op list" where
  "handler_ops [] = []"
| "handler_ops (PollUpdate m # PollRemove # xs) = Gone # handler_ops xs"
| "handler_ops (PollUpdate m # xs) = Mask m # handler_ops xs"
| "handler_ops (_ # xs) = handler_ops xs"

text \<open>An operation of the connection at \<open>p\<close>. Its handler has the same address in the heap of handlers.\<close>

definition on_obj ::
    "nat \<Rightarrow> (NetConnection \<Rightarrow> NetConnection res) \<Rightarrow> ('cb, 'task) io_sys \<Rightarrow> ('cb, 'task) io_sys res" where
  "on_obj p f s =
     (case io_conns s p of
        None \<Rightarrow> Inl UseAfterFree
      | Some c \<Rightarrow> res_bind (f c) (\<lambda>d.
          res_bind (handler_trace p (handler_ops (drop (length (out c)) (out d))) (io_loop s)) (\<lambda>r.
            Inr (s\<lparr>io_loop := r, io_conns := (io_conns s)(p \<mapsto> d)\<rparr>))))"

text \<open>A new connection for the descriptor \<open>f\<close>, as the server and the client make it.\<close>

definition attach :: "(nat \<Rightarrow> byte) \<Rightarrow> nat \<Rightarrow> int \<Rightarrow> bool \<Rightarrow> ('cb, 'task) io_sys \<Rightarrow> ('cb, 'task) io_sys" where
  "attach junk p f compl s =
     (let c = set_callbacks True True compl True (new_NetConnection junk f) in
      s\<lparr>io_loop := (io_loop s)\<lparr>handlers := (handlers (io_loop s))(p := event c)\<rparr>, io_conns := (io_conns s)(p \<mapsto> c)\<rparr>)"

text \<open>
  The active handlers in turn. \<open>rd\<close> and \<open>wr\<close> are the kernel's answers to the reads and writes of the
  connections. The handlers of the wake-up and the timer descriptor are those without a connection; what
  they run is in \<open>ReactorLoop\<close> and \<open>Timers\<close> and does not touch this state.
\<close>

fun dispatch ::
    "(nat \<Rightarrow> byte) \<Rightarrow> (nat \<Rightarrow> int + byte list) \<Rightarrow> (nat \<Rightarrow> errno + nat) \<Rightarrow> nat list \<Rightarrow> ('cb, 'task) io_sys
     \<Rightarrow> ('cb, 'task) io_sys res" where
  "dispatch junk rd wr [] s = Inr s"
| "dispatch junk rd wr (p # ps) s =
     (case handlers (io_loop s) p of
        None \<Rightarrow> Inl UseAfterFree
      | Some h \<Rightarrow>
          if io_conns s p = None then dispatch junk rd wr ps s
          else res_bind (on_obj p (conn_event junk (revents h) (rd p) (wr p)) s) (dispatch junk rd wr ps))"

text \<open>One turn of the loop up to its tasks: \<^verbatim>\<open>poll\<close>, then the handlers it reports.\<close>

definition io_round ::
    "(nat \<Rightarrow> byte) \<Rightarrow> (int + ushort list) \<Rightarrow> (nat \<Rightarrow> int + byte list) \<Rightarrow> (nat \<Rightarrow> errno + nat)
     \<Rightarrow> ('cb, 'task) io_sys \<Rightarrow> ('cb, 'task) io_sys res" where
  "io_round junk r rd wr s =
     (case poller (io_loop s) of
        None \<Rightarrow> Inr s
      | Some ps \<Rightarrow>
          res_bind (poll r ps (handlers (io_loop s))) (\<lambda>(ps, H, activeList).
            dispatch junk rd wr activeList (s\<lparr>io_loop := (io_loop s)\<lparr>poller := Some ps, handlers := H\<rparr>\<rparr>)))"

datatype io_op =
    Attach nat int bool
  | Op nat conn_op
  | Round "int + ushort list" "nat \<Rightarrow> int + byte list" "nat \<Rightarrow> errno + nat"

fun io_exec :: "(nat \<Rightarrow> byte) \<Rightarrow> io_op \<Rightarrow> ('cb, 'task) io_sys \<Rightarrow> ('cb, 'task) io_sys res option" where
  "io_exec junk (Attach p f compl) s = Some (Inr (attach junk p f compl s))"
| "io_exec junk (Op p a) s = Some (on_obj p (conn_exec junk a) s)"
| "io_exec junk (Round r rd wr) s = Some (io_round junk r rd wr s)"

text \<open>
  When a step can occur: \<^verbatim>\<open>new\<close> returns fresh addresses and the kernel a descriptor that no live handler has;
  the application and the tasks use existing connections, events come from rounds only; \<open>poll(2)\<close> fills in one
  mask per entry, none with the sign bit; and a read of a connection that is due fits its buffer.
\<close>

definition reported :: "SelectPoller \<Rightarrow> ushort list \<Rightarrow> int \<Rightarrow> ushort" where
  "reported ps revs f = (case map_of (zip (map pfd_fd (pollFds ps)) revs) f of None \<Rightarrow> 0 | Some v \<Rightarrow> v)"

fun is_event :: "conn_op \<Rightarrow> bool" where
  "is_event (DoEvent revs r w) \<longleftrightarrow> True"
| "is_event _ \<longleftrightarrow> False"

fun io_ok :: "io_op \<Rightarrow> ('cb, 'task) io_sys \<Rightarrow> bool" where
  "io_ok (Attach p f compl) s \<longleftrightarrow> handlers (io_loop s) p = None \<and> io_conns s p = None \<and>
     f \<notin> (\<lambda>h. fd h) ` ran (handlers (io_loop s))"
| "io_ok (Op p a) s \<longleftrightarrow> io_conns s p \<noteq> None \<and> \<not> is_event a"
| "io_ok (Round r rd wr) s \<longleftrightarrow>
     (case (r, poller (io_loop s)) of
        (Inr revs, Some ps) \<Rightarrow> length revs = length (pollFds ps) \<and> (\<forall>v \<in> set revs. 0 \<le> sint v) \<and>
          (\<forall>p \<in> dom (io_conns s). readv_fits (reset (readBuffer (the (io_conns s p)))) (rd p))
      | _ \<Rightarrow> True)"

abbreviation io_run :: "(nat \<Rightarrow> byte) \<Rightarrow> io_op list \<Rightarrow> ('cb, 'task) io_sys \<Rightarrow> ('cb, 'task) io_sys res option" where
  "io_run junk \<equiv> steps (io_exec junk)"

section \<open>What an operation does to the handler\<close>

text \<open>It leaves it alone, or changes its mask to one that is not empty and tells the poller, or deletes it.\<close>

definition tracks :: "NetConnection \<Rightarrow> NetConnection \<Rightarrow> bool" where
  "tracks c d \<longleftrightarrow> (\<exists>ys. out d = out c @ ys \<and>
     (event d = event c \<and> handler_ops ys = [] \<or>
      (\<exists>e m. event c = Some e \<and> event d = Some (e\<lparr>events := m\<rparr>) \<and> handler_ops ys = [Mask m] \<and> m \<noteq> csEventNone) \<or>
      (\<exists>e. event c = Some e \<and> event d = None \<and> handler_ops ys = [Gone])))"

lemma tracksI:
  assumes "out d = out c @ ys" and "handler_ops ys = []" and "event d = event c"
  shows "tracks c d"
  using assms by (auto simp: tracks_def)

lemma or_mask: "m OR csEventRead \<noteq> csEventNone" "m OR csEventWrite \<noteq> csEventNone"
  by (simp_all add: or_eq_0_iff poll_bits)

lemma handleClose_tracks:
  assumes "handleClose c = Inr d"
  shows "tracks c d"
proof -
  obtain e where e: "event c = Some e" using assms by (auto simp: handleClose_def with_event_def split: option.splits)
  from handleClose_result [OF e] assms have d: "event d = None" "out d = out c @ (if connCallbackFunc c then [ConnCb eDisconnected] else []) @
       (if closeFunc c then [CloseCb] else []) @ [PollUpdate csEventNone, PollRemove]" by auto
  show ?thesis unfolding tracks_def
    by (rule exI [of _ "(if connCallbackFunc c then [ConnCb eDisconnected] else []) @
       (if closeFunc c then [CloseCb] else []) @ [PollUpdate csEventNone, PollRemove]"]) (use d e in simp)
qed

lemma connEstablished_tracks:
  assumes "connEstablished c = Inr d"
  shows "tracks c d"
proof -
  obtain e where e: "event c = Some e"
    and d: "d = set_event (set_enableRead e) (emit (if connCallbackFunc c then [ConnCb eConnected] else []) (c\<lparr>state := eConnected\<rparr>))"
    using assms by (auto simp: connEstablished_def with_event_def Let_def emit_if split: option.splits)
  have "out d = out c @ (if connCallbackFunc c then [ConnCb eConnected] else []) @ [PollUpdate (events e OR csEventRead)]"
    unfolding d by (simp add: set_enableRead_def)
  then show ?thesis unfolding tracks_def
    by (rule exI [where x = "(if connCallbackFunc c then [ConnCb eConnected] else []) @ [PollUpdate (events e OR csEventRead)]",
        OF conjI]) (use e or_mask in \<open>simp add: d set_enableRead_def\<close>)
qed

lemma sendInReactor_tracks:
  assumes "sendInReactor junk w m c = Inr d"
  shows "tracks c d"
proof (cases "state c = eDisconnected \<or> readableBytes (writeBuffer c) \<noteq> 0 \<or> (\<exists>err. w = Inl err)")
  case True
  with assms have "d = emit [Dropped m] c"
    by (auto simp: sendInReactor_def with_event_def split: if_splits option.splits)
  then show ?thesis by (intro tracksI [of _ _ "[Dropped m]"]) simp_all
next
  case False
  then obtain n e where n: "w = Inr n" and e: "event c = Some e" and c: "state c \<noteq> eDisconnected" "readableBytes (writeBuffer c) = 0"
    using assms by (cases w) (auto simp: sendInReactor_def with_event_def split: option.splits)
  show ?thesis
  proof (cases "n < length m")
    case True
    then obtain b where b: "d = (let d = (emit [Written (take n m)] c)\<lparr>writeBuffer := b\<rparr> in
        if \<not> isWriteable e then set_event (set_enableWrite e) d else d)"
      using assms n e c by (auto simp: sendInReactor_def with_event_def Let_def res_bind_eq_Inr)
    show ?thesis
    proof (cases "isWriteable e")
      case True
      with b show ?thesis by (intro tracksI [of _ _ "[Written (take n m)]"]) (simp_all add: Let_def)
    next
      case False
      with b have "out d = out c @ [Written (take n m), PollUpdate (events e OR csEventWrite)]"
        "event d = Some (e\<lparr>events := events e OR csEventWrite\<rparr>)" by (simp_all add: set_enableWrite_def Let_def)
      with e or_mask show ?thesis by (auto simp: tracks_def)
    qed
  next
    case False
    with assms n e c have "d = (if writeCompleteFunc c then emit [WriteCompleteCb] (emit [Written m] c) else emit [Written m] c)"
      by (auto simp: sendInReactor_def with_event_def Let_def)
    then show ?thesis
      by (intro tracksI [of _ _ "Written m # (if writeCompleteFunc c then [WriteCompleteCb] else [])"]) simp_all
  qed
qed

lemma tracks_fields [simp]:
  "tracks (c\<lparr>tasks := ts\<rparr>) d \<longleftrightarrow> tracks c d" "tracks (c\<lparr>state := st\<rparr>) d \<longleftrightarrow> tracks c d"
  "tracks (c\<lparr>readBuffer := b\<rparr>) d \<longleftrightarrow> tracks c d" "tracks c (d\<lparr>tasks := ts\<rparr>) \<longleftrightarrow> tracks c d"
  "tracks c (d\<lparr>state := st\<rparr>) \<longleftrightarrow> tracks c d"
  by (simp_all add: tracks_def)

lemma tracks_refl [simp]: "tracks c c"
  by (rule tracksI [of _ _ "[]"]) simp_all

lemma shutdown_tracks: "shutdownInReactor r c = Inr d \<Longrightarrow> tracks c d"
  by (drule shutdownInReactor_cases) (auto intro: tracksI)

lemma handleRead_tracks:
  assumes "run_inv c" and "handleRead junk r c = Inr d"
  shows "tracks c d"
proof -
  from assms obtain e where e: "event c = Some e" by (auto simp: handleRead_def with_event_def split: option.splits)
  from assms(2) e obtain n err b where n: "readfd junk (reset (readBuffer c)) r = Inr (n, err, b)"
    by (auto simp: handleRead_def with_event_def res_bind_eq_Inr)
  show ?thesis
  proof (cases "n = 0")
    case True
    with assms(2) e n have "handleClose (c\<lparr>readBuffer := b\<rparr>) = Inr d" by (simp add: handleRead_def with_event_def)
    then show ?thesis using handleClose_tracks by fastforce
  next
    case False
    with assms(2) e n have "d = c\<lparr>readBuffer := b\<rparr> \<or> d = emit [MsgCb (content b)] (c\<lparr>readBuffer := b\<rparr>)"
      by (auto simp: handleRead_def handleError_def with_event_def Let_def split: if_splits)
    then show ?thesis by (elim disjE) (auto intro: tracksI [of _ _ "[]"] tracksI [of _ _ "[MsgCb (content b)]"])
  qed
qed

lemma conn_exec_tracks:
  assumes "run_inv c" and "conn_exec junk a c = Inr d"
  shows "tracks c d"
proof (cases a)
  case Establish
  with assms connEstablished_tracks show ?thesis by simp
next
  case (DoSend il w m)
  with assms(2) sendInReactor_tracks [of junk w m c d] show ?thesis
    by (auto simp: send_def split: if_splits intro: tracksI)
next
  case (DoTask w r)
  show ?thesis
  proof (cases "tasks c")
    case (Cons t ts)
    with DoTask assms(2) have *: "(case t of EstablishTask \<Rightarrow> connEstablished (c\<lparr>tasks := ts\<rparr>)
        | SendTask msg \<Rightarrow> sendInReactor junk w msg (c\<lparr>tasks := ts\<rparr>) | CloseTask \<Rightarrow> handleClose (c\<lparr>tasks := ts\<rparr>)
        | ShutdownTask \<Rightarrow> shutdownInReactor r (c\<lparr>tasks := ts\<rparr>)) = Inr d"
      by (simp add: run_task_def Let_def)
    have "tracks (c\<lparr>tasks := ts\<rparr>) d"
      by (cases t; insert *; simp del: tracks_fields)
        (blast intro: connEstablished_tracks sendInReactor_tracks handleClose_tracks shutdown_tracks)+
    then show ?thesis by simp
  qed (use DoTask assms(2) in \<open>simp add: run_task_def\<close>)
next
  case (DoEvent revs r w)
  with assms have "conn_event junk revs r w c = Inr d" "conn_inv c" by (simp_all add: run_inv_def)
  then show ?thesis
  proof (cases rule: conn_event_cases [rotated, consumes 1])
    case 2
    from 2(1) show ?thesis by (rule handleRead_tracks [OF assms(1)])
  qed simp
next
  case (DoClose il)
  with assms(2) handleClose_tracks [of "c\<lparr>state := eDisconnected\<rparr>" d] show ?thesis
    by (auto simp: forceClose_def Let_def split: if_splits)
next
  case (DoShutdown il r)
  with assms(2) shutdown_tracks [of r c d] show ?thesis
    by (auto simp: shutdown_def split: if_splits)
qed

section \<open>The invariant\<close>

text \<open>
  The handler objects of the heap are those of the connections, up to what the last \<^verbatim>\<open>poll\<close> has stored in
  them, and those of the reactor itself, \<open>own\<close>. A connection that has not been established is not in the
  poll set.
\<close>

definition synced :: "EventHandler option \<Rightarrow> EventHandler option \<Rightarrow> bool" where
  "synced x y \<longleftrightarrow> map_option (\<lambda>h. h\<lparr>revents := 0\<rparr>) x = map_option (\<lambda>h. h\<lparr>revents := 0\<rparr>) y"

definition io_inv :: "heap \<Rightarrow> ('cb, 'task) io_sys \<Rightarrow> bool" where
  "io_inv own s \<longleftrightarrow> reg_inv (io_loop s) \<and>
     (\<forall>p. synced (handlers (io_loop s) p) (case io_conns s p of None \<Rightarrow> own p | Some c \<Rightarrow> event c)) \<and>
     (\<forall>p c. io_conns s p = Some c \<longrightarrow> run_inv c \<and>
        (\<forall>e. event c = Some e \<longrightarrow> events e = csEventNone \<longrightarrow> interest (io_loop s) (fd e) = None))"

lemma synced_refl [simp]: "synced x x"
  by (simp add: synced_def)

lemma synced_None [simp]: "synced None y \<longleftrightarrow> y = None" "synced x None \<longleftrightarrow> x = None"
  by (auto simp: synced_def)

lemma synced_Some:
  assumes "synced x (Some e)"
  obtains h where "x = Some h" and "fd h = fd e" and "events h = events e" and "h\<lparr>revents := 0\<rparr> = e\<lparr>revents := 0\<rparr>"
proof -
  from assms obtain h where h: "x = Some h" "h\<lparr>revents := 0\<rparr> = e\<lparr>revents := 0\<rparr>" by (auto simp: synced_def)
  then have "fd (h\<lparr>revents := 0\<rparr>) = fd (e\<lparr>revents := 0\<rparr>)" "events (h\<lparr>revents := 0\<rparr>) = events (e\<lparr>revents := 0\<rparr>)" by simp_all
  then have "fd h = fd e" "events h = events e" by simp_all
  with h that show ?thesis by blast
qed

lemma synced_mask: "h\<lparr>revents := 0\<rparr> = e\<lparr>revents := 0\<rparr> \<Longrightarrow> synced (Some (h\<lparr>events := m\<rparr>)) (Some (e\<lparr>events := m\<rparr>))"
  unfolding synced_def by (cases h; cases e) simp

text \<open>An operation of one connection.\<close>

lemma on_obj_inv:
  assumes inv: "io_inv own s" and c: "io_conns s p = Some c" and d: "f c = Inr d" "run_inv d" "tracks c d"
  shows "\<exists>t. on_obj p f s = Inr t \<and> io_inv own t \<and> io_conns t = (io_conns s)(p \<mapsto> d) \<and>
     (\<forall>q. q \<noteq> p \<longrightarrow> handlers (io_loop t) q = handlers (io_loop s) q)"
proof -
  have reg: "reg_inv (io_loop s)" using inv by (simp add: io_inv_def)
  have sync: "synced (handlers (io_loop s) p) (event c)"
    "\<And>q. synced (handlers (io_loop s) q) (case io_conns s q of None \<Rightarrow> own q | Some c \<Rightarrow> event c)"
    using inv c unfolding io_inv_def by (metis option.simps(5), blast)
  from d(3) obtain ys where ys: "out d = out c @ ys" and cases:
    "event d = event c \<and> handler_ops ys = [] \<or>
     (\<exists>e m. event c = Some e \<and> event d = Some (e\<lparr>events := m\<rparr>) \<and> handler_ops ys = [Mask m] \<and> m \<noteq> csEventNone) \<or>
     (\<exists>e. event c = Some e \<and> event d = None \<and> handler_ops ys = [Gone])"
    unfolding tracks_def by blast
  have "\<exists>r. handler_trace p (handler_ops ys) (io_loop s) = Inr r \<and> reg_inv r \<and> synced (handlers r p) (event d) \<and>
      (\<forall>q. q \<noteq> p \<longrightarrow> handlers r q = handlers (io_loop s) q) \<and>
      (\<forall>f. interest r f = interest (io_loop s) f \<or> (\<exists>e. event c = Some e \<and> f = fd e)) \<and>
      (\<forall>e. event d = Some e \<longrightarrow> events e = csEventNone \<longrightarrow> interest r (fd e) = None)"
  proof (cases "event d = event c \<and> handler_ops ys = []")
    case True
    with inv c reg sync(1) show ?thesis by (intro exI [of _ "io_loop s"]) (simp add: io_inv_def)
  next
    case False
    then obtain e where e: "event c = Some e" using cases by blast
    from sync(1) [unfolded e] obtain h where h: "handlers (io_loop s) p = Some h" "fd h = fd e" "events h = events e"
      "h\<lparr>revents := 0\<rparr> = e\<lparr>revents := 0\<rparr>" by (rule synced_Some)
    have "Gone \<notin> set (butlast (handler_ops ys))" using cases False by auto
    from handler_trace_law [OF reg h(1) this] obtain r where
      r: "handler_trace p (handler_ops ys) (io_loop s) = Inr r" "reg_inv r"
        "handlers r = (handlers (io_loop s))(p := outcome (handler_ops ys) h)"
        "interest r = (interest (io_loop s))(fd h := if handler_ops ys = [] then interest (io_loop s) (fd h)
           else map_option (\<lambda>h. ucast (events h)) (outcome (handler_ops ys) h))" by blast
    have "synced (outcome (handler_ops ys) h) (event d) \<and> (\<forall>e. event d = Some e \<longrightarrow> events e \<noteq> csEventNone)"
      using cases False e synced_mask [OF h(4)] by (elim disjE) auto
    with r h(2) e show ?thesis by (intro exI [of _ r]) auto
  qed
  then obtain r where r: "handler_trace p (handler_ops ys) (io_loop s) = Inr r" "reg_inv r" "synced (handlers r p) (event d)"
    "\<And>q. q \<noteq> p \<Longrightarrow> handlers r q = handlers (io_loop s) q"
    "\<And>f. interest r f = interest (io_loop s) f \<or> (\<exists>e. event c = Some e \<and> f = fd e)"
    "\<And>e. event d = Some e \<Longrightarrow> events e = csEventNone \<Longrightarrow> interest r (fd e) = None" by blast
  let ?t = "s\<lparr>io_loop := r, io_conns := (io_conns s)(p \<mapsto> d)\<rparr>"
  have run: "on_obj p f s = Inr ?t" using c d(1) ys r(1) by (simp add: on_obj_def)
  have quiet: "interest r (fd e) = None" if q: "io_conns s q = Some x" "q \<noteq> p" "event x = Some e" "events e = csEventNone" for q x e
  proof -
    have none: "interest (io_loop s) (fd e) = None" using inv q unfolding io_inv_def by blast
    have "fd e \<noteq> fd e'" if e': "event c = Some e'" for e'
    proof -
      from sync(2) [of q] q obtain h where h: "handlers (io_loop s) q = Some h" "fd h = fd e" by (auto elim: synced_Some)
      from sync(1) e' obtain h' where h': "handlers (io_loop s) p = Some h'" "fd h' = fd e'" by (auto elim: synced_Some)
      have "fds_apart (handlers (io_loop s))" using reg by (rule reg_invD)
      with h h' q(2) show ?thesis unfolding fds_apart_def by metis
    qed
    with r(5) [of "fd e"] none show ?thesis by auto
  qed
  have "io_inv own ?t" unfolding io_inv_def
  proof (intro conjI allI impI)
    show "synced (handlers (io_loop ?t) q) (case io_conns ?t q of None \<Rightarrow> own q | Some c \<Rightarrow> event c)" for q
      using r(3,4) sync(2) [of q] by (cases "q = p") simp_all
    show "run_inv x" if "io_conns ?t q = Some x" for q x
      using that inv d(2) by (auto simp: io_inv_def split: if_splits)
    show "interest (io_loop ?t) (fd e) = None" if "io_conns ?t q = Some x" "event x = Some e" "events e = csEventNone" for q x e
      using that quiet [of q x e] r(6) [of e] by (auto split: if_splits)
  qed (use r(2) in simp)
  with run r(4) show ?thesis by (intro exI [of _ ?t]) simp
qed

end
