(* ===== verification/IoRounds.thy ===== *)
theory IoRounds
  imports IoReactor
begin

text \<open>
  What holds in every run of a reactor with its connections: the poll set mirrors the connections, and a
  round hands what the kernel reports to the connections it is for.
\<close>

section \<open>Polling\<close>

text \<open>\<^verbatim>\<open>poll\<close> seen from the handlers: those whose descriptors are reported, each once and with its events.\<close>

lemma poll_handlers:
  assumes "poller_inv ps" and "heap_ok H ps" and "masks_ok H (watch ps)" and "fds_apart H"
    and "length revs = length (pollFds ps)" and "\<forall>v \<in> set revs. 0 \<le> sint v"
  shows "\<exists>ps' H' act. poll (Inr revs) ps H = Inr (ps', H', act) \<and> poller_inv ps' \<and> watch ps' = watch ps \<and>
     evHandlers ps' = evHandlers ps \<and> distinct act \<and>
     (\<forall>q. q \<in> set act \<longleftrightarrow> (\<exists>h. H q = Some h \<and> reported ps revs (fd h) \<noteq> 0)) \<and>
     (\<forall>q. H' q = map_option (\<lambda>h. if reported ps revs (fd h) = 0 then h else h\<lparr>revents := scast (reported ps revs (fd h))\<rparr>) (H q))"
proof -
  define fds where "fds = map2 (\<lambda>e v. e\<lparr>pfd_revents := v\<rparr>) (pollFds ps) revs"
  let ?own = "\<lambda>e. the (evHandlers ps (pfd_fd e))"
  let ?due = "{e \<in> set fds. pfd_revents e \<noteq> 0}"
  from poll_reports [OF assms(1,2,5,6), folded fds_def] obtain ps' H' where
    p: "poll (Inr revs) ps H = Inr (ps', H', map ?own (filter (\<lambda>e. pfd_revents e \<noteq> 0) (pollFds ps')))"
      "pollFds ps' = fds" "poller_inv ps'" "watch ps' = watch ps" "evHandlers ps' = evHandlers ps"
    and due: "\<And>e. e \<in> ?due \<Longrightarrow> \<exists>h. H (?own e) = Some h \<and> H' (?own e) = Some (h\<lparr>revents := scast (pfd_revents e)\<rparr>)"
    and other: "\<And>q. q \<notin> ?own ` ?due \<Longrightarrow> H' q = H q" by auto
  have keys: "map pfd_fd fds = map pfd_fd (pollFds ps)" and vals: "map pfd_revents fds = revs"
    using assms(5) by (auto simp: fds_def intro!: nth_equalityI)
  have zip: "zip (map pfd_fd (pollFds ps)) revs = map (\<lambda>e. (pfd_fd e, pfd_revents e)) fds"
    using assms(5) by (auto simp: fds_def intro!: nth_equalityI)
  have dist: "distinct (map pfd_fd fds)" using assms(1) keys by (simp add: poller_inv_def)
  have rep: "reported ps revs (pfd_fd e) = pfd_revents e" if "e \<in> set fds" for e
  proof -
    have "map_of (map (\<lambda>e. (pfd_fd e, pfd_revents e)) fds) (pfd_fd e) = Some (pfd_revents e)"
      using that dist by (intro map_of_is_SomeI) (auto simp: comp_def)
    then show ?thesis by (simp add: reported_def zip)
  qed
  have hit: "\<exists>e \<in> ?due. pfd_fd e = f" if "reported ps revs f \<noteq> 0" for f
  proof -
    from that obtain v where "map_of (map (\<lambda>e. (pfd_fd e, pfd_revents e)) fds) f = Some v" "v \<noteq> 0"
      by (auto simp: reported_def zip split: option.splits)
    then have "(f, v) \<in> set (map (\<lambda>e. (pfd_fd e, pfd_revents e)) fds)" by (blast dest: map_of_SomeD)
    with \<open>v \<noteq> 0\<close> show ?thesis by auto
  qed
  have own: "\<exists>h. H (?own e) = Some h \<and> fd h = pfd_fd e" if "e \<in> set fds" for e
  proof -
    have "pfd_fd e \<in> set (map pfd_fd fds)" using that by (metis image_eqI list.set_map)
    then have "pfd_fd e \<in> dom (evHandlers ps)" using assms(1) unfolding keys by (simp add: poller_inv_def)
    with assms(2) show ?thesis by (auto simp: heap_ok_def)
  qed
  have iff: "q \<in> ?own ` ?due \<longleftrightarrow> (\<exists>h. H q = Some h \<and> reported ps revs (fd h) \<noteq> 0)" for q
  proof
    assume "q \<in> ?own ` ?due"
    then obtain e where "e \<in> ?due" "q = ?own e" by blast
    with own [of e] rep [of e] show "\<exists>h. H q = Some h \<and> reported ps revs (fd h) \<noteq> 0" by auto
  next
    assume "\<exists>h. H q = Some h \<and> reported ps revs (fd h) \<noteq> 0"
    then obtain h where h: "H q = Some h" "reported ps revs (fd h) \<noteq> 0" by blast
    from hit [OF h(2)] obtain e where e: "e \<in> ?due" "pfd_fd e = fd h" by blast
    with own [of e] h(1) assms(4) have "?own e = q" unfolding fds_apart_def by (metis (no_types, lifting) mem_Collect_eq)
    with e(1) show "q \<in> ?own ` ?due" by blast
  qed
  have inj: "inj_on ?own (set fds)"
  proof (rule inj_onI)
    fix x y assume xy: "x \<in> set fds" "y \<in> set fds" "?own x = ?own y"
    with own [of x] own [of y] have "pfd_fd x = pfd_fd y" by auto
    with xy(1,2) dist show "x = y" unfolding distinct_map by (metis inj_onD)
  qed
  have "distinct fds" using dist by (simp add: distinct_map)
  then have "distinct (map ?own (filter (\<lambda>e. pfd_revents e \<noteq> 0) fds))"
    using inj by (simp add: distinct_map inj_on_def del: set_map)
  moreover have "q \<in> set (map ?own (filter (\<lambda>e. pfd_revents e \<noteq> 0) fds)) \<longleftrightarrow> q \<in> ?own ` ?due" for q
    by (simp only: set_map set_filter)
  moreover have "H' q = map_option (\<lambda>h. if reported ps revs (fd h) = 0 then h else h\<lparr>revents := scast (reported ps revs (fd h))\<rparr>) (H q)" for q
  proof (cases "q \<in> ?own ` ?due")
    case True
    then obtain e where e: "e \<in> ?due" "q = ?own e" by blast
    with due [OF e(1)] own [of e] rep [of e] show ?thesis by auto
  next
    case False
    with other [OF False] iff [of q] show ?thesis by (cases "H q") auto
  qed
  ultimately show ?thesis using p iff by (intro exI [of _ ps'] exI [of _ H'] exI conjI) auto
qed

text \<open>What \<^verbatim>\<open>poll\<close> stores does not disturb the invariant.\<close>

lemma io_inv_polled:
  assumes "io_inv own s" and "poller (io_loop s) = Some ps" and "length revs = length (pollFds ps)" and "\<forall>v \<in> set revs. 0 \<le> sint v"
  shows "\<exists>ps' H' act. poll (Inr revs) ps (handlers (io_loop s)) = Inr (ps', H', act) \<and>
     io_inv own (s\<lparr>io_loop := (io_loop s)\<lparr>poller := Some ps', handlers := H'\<rparr>\<rparr>) \<and> distinct act \<and>
     (\<forall>q. q \<in> set act \<longleftrightarrow> (\<exists>h. handlers (io_loop s) q = Some h \<and> reported ps revs (fd h) \<noteq> 0)) \<and>
     (\<forall>q \<in> set act. \<exists>h. H' q = Some h \<and> revents h = scast (reported ps revs (fd h)))"
proof -
  have reg: "reg_inv (io_loop s)" using assms(1) by (simp add: io_inv_def)
  have ps: "poller_inv ps" "heap_ok (handlers (io_loop s)) ps" "masks_ok (handlers (io_loop s)) (watch ps)"
    "fds_apart (handlers (io_loop s))" "interest (io_loop s) = watch ps"
    using reg assms(2) by (auto elim: reg_invD)
  from poll_handlers [OF ps(1-4) assms(3,4)] obtain ps' H' act where
    p: "poll (Inr revs) ps (handlers (io_loop s)) = Inr (ps', H', act)" "poller_inv ps'" "watch ps' = watch ps"
      "evHandlers ps' = evHandlers ps" "distinct act"
      "\<And>q. q \<in> set act \<longleftrightarrow> (\<exists>h. handlers (io_loop s) q = Some h \<and> reported ps revs (fd h) \<noteq> 0)"
      "\<And>q. H' q = map_option (\<lambda>h. if reported ps revs (fd h) = 0 then h else h\<lparr>revents := scast (reported ps revs (fd h))\<rparr>)
         (handlers (io_loop s) q)" by blast
  have same: "\<exists>h. handlers (io_loop s) q = Some h \<and> fd h = fd k \<and> events h = events k" if "H' q = Some k" for q k
    using that p(7) [of q] by (auto split: if_splits)
  have "heap_ok H' ps'" unfolding heap_ok_def
  proof (intro allI impI)
    fix f q assume "evHandlers ps' f = Some q"
    with ps(2) p(4) obtain h where "handlers (io_loop s) q = Some h" "fd h = f" by (auto simp: heap_ok_def)
    with p(7) [of q] show "\<exists>h. H' q = Some h \<and> fd h = f" by auto
  qed
  moreover have "masks_ok H' (watch ps')" unfolding masks_ok_def p(3)
    using ps(3) same unfolding masks_ok_def by metis
  moreover have "fds_apart H'" unfolding fds_apart_def
    using ps(4) same unfolding fds_apart_def by metis
  ultimately have reg': "reg_inv ((io_loop s)\<lparr>poller := Some ps', handlers := H'\<rparr>)" using p(2) by (simp add: reg_inv_def)
  have sync: "synced (H' q) x" if "synced (handlers (io_loop s) q) x" for q x
  proof -
    have "map_option (\<lambda>h. h\<lparr>revents := 0\<rparr>) (H' q) = map_option (\<lambda>h. h\<lparr>revents := 0\<rparr>) (handlers (io_loop s) q)"
      unfolding p(7) by (cases "handlers (io_loop s) q") simp_all
    with that show ?thesis by (simp add: synced_def)
  qed
  have "interest ((io_loop s)\<lparr>poller := Some ps', handlers := H'\<rparr>) = interest (io_loop s)"
    using ps(5) p(3) by (simp add: interest_def)
  with assms(1) reg' sync have "io_inv own (s\<lparr>io_loop := (io_loop s)\<lparr>poller := Some ps', handlers := H'\<rparr>\<rparr>)"
    by (simp add: io_inv_def)
  moreover have "\<exists>h. H' q = Some h \<and> revents h = scast (reported ps revs (fd h))" if "q \<in> set act" for q
    using that p(6,7) by auto
  ultimately show ?thesis using p(1,5,6) by blast
qed

section \<open>Rounds and runs\<close>

lemma answer_run_inv:
  assumes "run_inv c" and "answer_fits a c" and "conn_exec junk a c = Inr d"
  shows "run_inv d \<and> tracks c d"
  using conn_exec_step [OF assms] conn_exec_tracks [OF assms(1,3)] by blast

text \<open>A round that succeeds keeps the invariant, whatever the kernel answers.\<close>

lemma dispatch_inv:
  assumes "io_inv own s" and "distinct act"
    and "\<And>p c. p \<in> set act \<Longrightarrow> io_conns s p = Some c \<Longrightarrow> readv_fits (reset (readBuffer c)) (rd p)"
    and "dispatch junk rd wr act s = Inr t"
  shows "io_inv own t \<and> dom (io_conns t) = dom (io_conns s)"
  using assms
proof (induction act arbitrary: s)
  case (Cons p act)
  from Cons.prems(4) obtain h where h: "handlers (io_loop s) p = Some h" by (auto split: option.splits)
  show ?case
  proof (cases "io_conns s p")
    case None
    with Cons.prems h Cons.IH [of s] show ?thesis by simp
  next
    case (Some c)
    with Cons.prems(4) h obtain u where u: "on_obj p (conn_event junk (revents h) (rd p) (wr p)) s = Inr u"
      "dispatch junk rd wr act u = Inr t" by (auto simp: res_bind_eq_Inr)
    from u(1) Some obtain d where d: "conn_event junk (revents h) (rd p) (wr p) c = Inr d"
      by (auto simp: on_obj_def res_bind_eq_Inr)
    have "run_inv c" using Cons.prems(1) Some by (simp add: io_inv_def)
    then have "run_inv d \<and> tracks c d"
      using answer_run_inv [of c "DoEvent (revents h) (rd p) (wr p)" junk d] Cons.prems(3) Some d by simp
    with on_obj_inv [OF Cons.prems(1) Some, of "conn_event junk (revents h) (rd p) (wr p)" d] d u(1) have
      t: "io_inv own u" "io_conns u = (io_conns s)(p \<mapsto> d)" by auto
    have "io_inv own t \<and> dom (io_conns t) = dom (io_conns u)"
    proof (rule Cons.IH [OF t(1) _ _ u(2)])
      fix q x assume q: "q \<in> set act" "io_conns u q = Some x"
      with Cons.prems(2) have "q \<noteq> p" by auto
      with q t(2) show "readv_fits (reset (readBuffer x)) (rd q)" by (intro Cons.prems(3)) simp_all
    qed (use Cons.prems(2) in simp)
    with t(2) Some show ?thesis by auto
  qed
qed simp

lemma attach_inv:
  assumes "io_inv own s" and "io_ok (Attach p f compl) s"
  shows "io_inv own (attach junk p f compl s)"
proof -
  let ?c = "set_callbacks True True compl True (new_NetConnection junk f)"
  let ?t = "attach junk p f compl s"
  obtain e where e: "event ?c = Some e" "fd e = f" "events e = csEventNone"
    by (simp add: set_callbacks_def new_NetConnection_def Let_def new_EventHandler_def csEventNone_def)
  have fresh: "handlers (io_loop s) p = None" "io_conns s p = None" using assms(2) by simp_all
  have apart: "fd h \<noteq> fd e" if "handlers (io_loop s) q = Some h" for q h
    using assms(2) imageI [OF ranI [of "handlers (io_loop s)", OF that], of fd] e(2) by auto
  have t: "?t = s\<lparr>io_loop := (io_loop s)\<lparr>handlers := (handlers (io_loop s))(p \<mapsto> e)\<rparr>, io_conns := (io_conns s)(p \<mapsto> ?c)\<rparr>"
    by (simp add: attach_def Let_def e(1))
  have "reg_inv (io_loop s)" using assms(1) by (simp add: io_inv_def)
  from reg_inv_new [OF this fresh(1) apart e(3)] have reg: "reg_inv (io_loop ?t)" by (simp add: t)
  have "interest (io_loop ?t) = interest (io_loop s)" by (simp add: t interest_def)
  moreover have "interest (io_loop s) (fd e) = None"
    using reg_unregistered [OF \<open>reg_inv (io_loop s)\<close> apart] by simp
  ultimately show ?thesis using assms(1) reg e(1) unfolding io_inv_def by (auto simp: t)
qed

lemma io_exec_inv:
  assumes "io_inv own s" and "io_ok a s" and "io_exec junk a s = Some (Inr t)"
  shows "io_inv own t"
proof (cases a)
  case (Attach p f compl)
  with assms attach_inv [of own s p f compl junk] show ?thesis by simp
next
  case (Op p b)
  with assms(2,3) obtain c d where c: "io_conns s p = Some c" "conn_exec junk b c = Inr d" "\<not> is_event b"
    by (auto simp: on_obj_def res_bind_eq_Inr)
  have "run_inv c" using assms(1) c(1) by (simp add: io_inv_def)
  moreover have "answer_fits b c" using c(3) by (cases b) simp_all
  ultimately have "run_inv d \<and> tracks c d" using answer_run_inv c(2) by blast
  with on_obj_inv [OF assms(1) c(1), of "conn_exec junk b" d] c(2) assms(3) Op show ?thesis by auto
next
  case (Round r rd wr)
  show ?thesis
  proof (cases "poller (io_loop s)")
    case None
    with Round assms show ?thesis by (simp add: io_round_def)
  next
    case (Some ps)
    show ?thesis
    proof (cases r)
      case (Inl e)
      have "s\<lparr>io_loop := (io_loop s)\<lparr>poller := Some ps, handlers := handlers (io_loop s)\<rparr>\<rparr> = s"
        using Some by simp
      with Inl Some Round assms(1,3) show ?thesis by (simp add: io_round_def poll_def)
    next
      case (Inr revs)
      have ok: "length revs = length (pollFds ps)" "\<forall>v \<in> set revs. 0 \<le> sint v"
        "\<And>p c. io_conns s p = Some c \<Longrightarrow> readv_fits (reset (readBuffer c)) (rd p)"
        using assms(2) Round Inr Some by (auto simp: dom_def)
      from io_inv_polled [OF assms(1) Some ok(1,2)] obtain ps' H' act where
        p: "poll (Inr revs) ps (handlers (io_loop s)) = Inr (ps', H', act)"
          "io_inv own (s\<lparr>io_loop := (io_loop s)\<lparr>poller := Some ps', handlers := H'\<rparr>\<rparr>)" "distinct act" by blast
      have "dispatch junk rd wr act (s\<lparr>io_loop := (io_loop s)\<lparr>poller := Some ps', handlers := H'\<rparr>\<rparr>) = Inr t"
        using assms(3) Round Inr Some p(1) by (simp add: io_round_def)
      with dispatch_inv [OF p(2,3), of rd junk wr t] ok(3) show ?thesis by auto
    qed
  qed
qed

lemma io_run_inv:
  assumes "io_inv own s" and "all_ok (io_exec junk) io_ok as s" and "io_run junk as s = Some (Inr t)"
  shows "io_inv own t"
  using assms
proof (induction as arbitrary: s)
  case (Cons a as)
  from Cons.prems(3) obtain u where "io_exec junk a s = Some (Inr u)" "io_run junk as u = Some (Inr t)"
    by (auto simp: go_def split: option.splits sum.splits)
  with Cons io_exec_inv [of own s a junk u] show ?case by simp
qed simp

section \<open>The poll set mirrors the connections\<close>

text \<open>The reactor as its constructor leaves it, with no connection.\<close>

definition io_start :: "('cb, 'task) ReactorObj \<Rightarrow> ('cb, 'task) io_sys" where
  "io_start r = \<lparr>io_loop = r, io_conns = (\<lambda>_. None)\<rparr>"

lemma io_inv_start: "reg_inv r \<Longrightarrow> io_inv (handlers r) (io_start r)"
  by (simp add: io_inv_def io_start_def)

lemma interest_iff:
  assumes "io_inv own t"
  shows "interest (io_loop t) f = Some m \<longleftrightarrow>
     (\<exists>p h. io_conns t p = None \<and> handlers (io_loop t) p = Some h \<and> fd h = f \<and> interest (io_loop t) f = Some m) \<or>
     (\<exists>p c e. io_conns t p = Some c \<and> event c = Some e \<and> fd e = f \<and> events e \<noteq> csEventNone \<and> m = ucast (events e))"
proof -
  have reg: "reg_inv (io_loop t)" and sync: "\<And>p. synced (handlers (io_loop t) p) (case io_conns t p of None \<Rightarrow> own p | Some c \<Rightarrow> event c)"
    and quiet: "\<And>p c e. io_conns t p = Some c \<Longrightarrow> event c = Some e \<Longrightarrow> events e = csEventNone \<Longrightarrow> interest (io_loop t) (fd e) = None"
    using assms unfolding io_inv_def by blast+
  from reg obtain ps where ps: "interest (io_loop t) = watch ps" "masks_ok (handlers (io_loop t)) (watch ps)"
    by (auto elim: reg_invD)
  have conn: "interest (io_loop t) (fd e) = (if events e = csEventNone then None else Some (ucast (events e)))"
    if "io_conns t p = Some c" "event c = Some e" for p c e
  proof -
    from sync [of p] that obtain h where h: "handlers (io_loop t) p = Some h" "fd h = fd e" "events h = events e"
      by (auto elim: synced_Some)
    with ps(2) have "watch ps (fd e) = Some (ucast (events e)) \<or> watch ps (fd e) = None \<and> events e = csEventNone"
      unfolding masks_ok_def by metis
    with quiet [OF that] ps(1) show ?thesis by auto
  qed
  show ?thesis
  proof
    assume m: "interest (io_loop t) f = Some m"
    then obtain p h where h: "handlers (io_loop t) p = Some h" "fd h = f"
      using reg_unregistered [OF reg, of f] by fastforce
    show "(\<exists>p h. io_conns t p = None \<and> handlers (io_loop t) p = Some h \<and> fd h = f \<and> interest (io_loop t) f = Some m) \<or>
       (\<exists>p c e. io_conns t p = Some c \<and> event c = Some e \<and> fd e = f \<and> events e \<noteq> csEventNone \<and> m = ucast (events e))"
    proof (cases "io_conns t p")
      case None
      with h m show ?thesis by blast
    next
      case (Some c)
      with sync [of p] h(1) obtain e where e: "event c = Some e" by (cases "event c") simp_all
      with sync [of p] h Some have "fd e = f" by (auto elim: synced_Some)
      with conn [OF Some e] m have "events e \<noteq> csEventNone" "m = ucast (events e)" by (auto split: if_splits)
      with Some e \<open>fd e = f\<close> show ?thesis by blast
    qed
  next
    assume "(\<exists>p h. io_conns t p = None \<and> handlers (io_loop t) p = Some h \<and> fd h = f \<and> interest (io_loop t) f = Some m) \<or>
       (\<exists>p c e. io_conns t p = Some c \<and> event c = Some e \<and> fd e = f \<and> events e \<noteq> csEventNone \<and> m = ucast (events e))"
    with conn show "interest (io_loop t) f = Some m" by fastforce
  qed
qed

text \<open>
  C26. At any point of any run of a reactor and its connections, what the poll set watches is: the reactor's
  own two descriptors, and the descriptor of each connection that has been established and not closed,
  each with the mask of its event handler. A connection that is waiting or closed is not watched.
\<close>

theorem poll_set_mirrors_connections:
  assumes "reactor_ctor False evfd tfd ptr tev clk clk' tptr cb setup idx = Inr r"
    and "evfd \<noteq> createTimerfd tfd" and "ptr \<noteq> tev" and "tptr < UINTPTR_MAX" and "valid clk"
    and "all_ok (io_exec junk) io_ok as (io_start r)" and "io_run junk as (io_start r) = Some (Inr t)"
    and "f \<noteq> evfd" and "f \<noteq> createTimerfd tfd"
  shows "interest (io_loop t) f = Some m \<longleftrightarrow>
     (\<exists>p c e. io_conns t p = Some c \<and> event c = Some e \<and> fd e = f \<and> events e \<noteq> csEventNone \<and> m = ucast (events e))"
proof -
  have "0 \<le> evfd" using assms(1) by (simp add: reactor_ctor_def)
  from reactor_ctor_ok [OF this assms(2-5), of clk' cb "setup" idx, where 'b = 'b] assms(1)
  have r: "reg_inv r" "\<And>p h. handlers r p = Some h \<Longrightarrow> fd h = evfd \<or> fd h = createTimerfd tfd" by auto
  note inv = io_run_inv [OF io_inv_start [OF r(1)] assms(6,7)]
  have "fd h \<noteq> f" if "io_conns t p = None" "handlers (io_loop t) p = Some h" for p h
  proof -
    have sync: "synced (Some h) (handlers r p)" using inv that unfolding io_inv_def by (metis option.simps(4))
    then obtain k where k: "handlers r p = Some k" by (cases "handlers r p") simp_all
    with sync have "fd k = fd h" by (auto elim: synced_Some)
    with r(2) [OF k] assms(8,9) show ?thesis by auto
  qed
  with interest_iff [OF inv, of f m] show ?thesis by blast
qed

lemma demo_reactor:
  obtains r :: "(nat, nat) ReactorObj" where "reactor_ctor False 3 (Inr 4) 1 2 (Timestamp 1) (Timestamp 1) 5 (0 :: nat) False 0 = Inr r"
    and "reg_inv r" and "dom (handlers r) = {1, 2}" and "\<And>h. h \<in> ran (handlers r) \<Longrightarrow> fd h \<noteq> 7"
proof -
  have "0 \<le> (3 :: int)" "(3 :: int) \<noteq> createTimerfd (Inr 4)" "(1 :: nat) \<noteq> 2" "(5 :: nat) < UINTPTR_MAX" "valid (Timestamp 1)"
    by (simp_all add: createTimerfd_def UINTPTR_MAX_def valid_def)
  from reactor_ctor_ok [OF this, of "Timestamp 1" "0 :: nat" False 0, where 'b = nat] obtain r :: "(nat, nat) ReactorObj" where
    r: "reactor_ctor False 3 (Inr 4) 1 2 (Timestamp 1) (Timestamp 1) 5 (0 :: nat) False 0 = Inr r" "reg_inv r" "dom (handlers r) = {1, 2}"
      "\<forall>p h. handlers r p = Some h \<longrightarrow> fd h = 3 \<or> fd h = createTimerfd (Inr 4)" by blast
  have "fd h \<noteq> 7" if h: "h \<in> ran (handlers r)" for h
  proof -
    from h obtain p where "handlers r p = Some h" by (auto simp: ran_def)
    with r(4) have "fd h = 3 \<or> fd h = 4" by (simp add: createTimerfd_def)
    then show ?thesis by auto
  qed
  with r that show ?thesis by blast
qed

text \<open>A demonstration run: one connection on descriptor 7 is made and established.\<close>

lemma demo_io:
  assumes "reg_inv r" and "dom (handlers r) = {1, 2}" and "\<And>h. h \<in> ran (handlers r) \<Longrightarrow> fd h \<noteq> 7"
  obtains t c e where "io_run (\<lambda>_. 0) [Attach 10 7 True, Op 10 Establish] (io_start r) = Some (Inr t)"
    and "all_ok (io_exec (\<lambda>_. 0)) io_ok [Attach 10 7 True, Op 10 Establish] (io_start r)"
    and "io_conns t = [10 \<mapsto> c]" and "event c = Some e" and "fd e = 7" and "events e = csEventRead" and "open_inv c"
    and "readBuffer c = new_Buffer (\<lambda>_. 0)" and "msgRecvFunc c" and "msgs_up (out c) = []"
proof -
  let ?u = "attach (\<lambda>_. 0) 10 7 True (io_start r)"
  let ?c = "set_callbacks True True True True (new_NetConnection (\<lambda>_. 0) 7)"
  have "10 \<notin> dom (handlers r)" by (simp add: assms(2))
  then have ok: "io_ok (Attach 10 7 True) (io_start r)" using assms(3) by (auto simp: io_start_def domIff)
  note inv = attach_inv [OF io_inv_start [OF assms(1)] ok, of "\<lambda>_. 0"]
  have c: "io_conns ?u = [10 \<mapsto> ?c]" by (simp add: attach_def io_start_def Let_def)
  obtain d e where d: "connEstablished ?c = Inr d" "event d = Some e" "fd e = 7" "events e = csEventRead"
    "readBuffer d = new_Buffer (\<lambda>_. 0)" "tasks d = []" "msgRecvFunc d" "msgs_up (out d) = []"
    by (simp add: connEstablished_def set_callbacks_def new_NetConnection_def Let_def with_event_def new_EventHandler_def
        set_enableRead_def csEventNone_def)
  have "run_inv d \<and> tracks ?c d" using answer_run_inv [of ?c Establish "\<lambda>_. 0" d] d(1) by simp
  moreover from this have "open_inv d"
    using connEstablished_step [OF run_inv_new d(1)] d(6) by (simp add: open_inv_def)
  moreover have "io_conns ?u 10 = Some ?c" using c by simp
  ultimately obtain t where t: "on_obj 10 (conn_exec (\<lambda>_. 0) Establish) ?u = Inr t" "io_conns t = [10 \<mapsto> d]"
    using on_obj_inv [OF inv, of 10 ?c "conn_exec (\<lambda>_. 0) Establish" d] d(1) c by auto
  show ?thesis
  proof (rule that [of t d e])
    show "io_run (\<lambda>_. 0) [Attach 10 7 True, Op 10 Establish] (io_start r) = Some (Inr t)" using t(1) by simp
    show "all_ok (io_exec (\<lambda>_. 0)) io_ok [Attach 10 7 True, Op 10 Establish] (io_start r)"
      using ok c t(1) by (simp del: io_ok.simps(1))
  qed (use t(2) d \<open>open_inv d\<close> in simp_all)
qed

theorem poll_set_mirrors_connections_witness:
  "\<exists>(r :: (nat, nat) ReactorObj) t. reactor_ctor False 3 (Inr 4) 1 2 (Timestamp 1) (Timestamp 1) 5 0 False 0 = Inr r \<and>
     io_run (\<lambda>_. 0) [Attach 10 7 True, Op 10 Establish] (io_start r) = Some (Inr t) \<and>
     interest (io_loop t) 7 = Some (ucast csEventRead)"
proof -
  obtain r :: "(nat, nat) ReactorObj" where r:
    "reactor_ctor False 3 (Inr 4) 1 2 (Timestamp 1) (Timestamp 1) 5 (0 :: nat) False 0 = Inr r"
    "reg_inv r" "dom (handlers r) = {1, 2}" "\<And>h. h \<in> ran (handlers r) \<Longrightarrow> fd h \<noteq> 7" by (rule demo_reactor) blast
  obtain t c e where t: "io_run (\<lambda>_. 0) [Attach 10 7 True, Op 10 Establish] (io_start r) = Some (Inr t)"
    "all_ok (io_exec (\<lambda>_. 0)) io_ok [Attach 10 7 True, Op 10 Establish] (io_start r)"
    "io_conns t = [10 \<mapsto> c]" "event c = Some e" "fd e = 7" "events e = csEventRead"
    using demo_io [OF r(2-4)] by blast
  have "events e \<noteq> csEventNone" using t(6) by (simp add: poll_bits)
  with poll_set_mirrors_connections [OF r(1) _ _ _ _ t(2,1), of 7 "ucast csEventRead"] t(3-6) r(1) t(1)
  show ?thesis by (auto simp: createTimerfd_def UINTPTR_MAX_def valid_def)
qed

section \<open>Serving the connections\<close>

text \<open>
  The active handlers in turn: each connection among them reads once, none of them disturbs the handlers
  still to come, and the others are left alone.
\<close>

lemma event_serves:
  assumes "io_inv own s" and "io_conns s p = Some c" and "open_inv c" and "msgRecvFunc c" and "r \<noteq> Inr []"
    and "readv_fits (reset (readBuffer c)) r"
  shows "\<exists>u d. on_obj p (conn_event junk revs r w) s = Inr u \<and> io_inv own u \<and> io_conns u = (io_conns s)(p \<mapsto> d) \<and>
     (\<forall>q. q \<noteq> p \<longrightarrow> handlers (io_loop u) q = handlers (io_loop s) q) \<and> open_inv d \<and>
     msgs_up (out d) = msgs_up (out c) @ inbound (DoEvent revs r w)"
proof -
  from conn_exec_open [OF assms(3), of "DoEvent revs r w" junk] assms(4-6) obtain d where
    d: "conn_event junk revs r w c = Inr d" "open_inv d" "msgs_up (out d) = msgs_up (out c) @ inbound (DoEvent revs r w)"
    by (auto simp del: inbound.simps)
  have "run_inv c" using assms(3) by (simp add: open_inv_def)
  then have "run_inv d \<and> tracks c d"
    using answer_run_inv [of c "DoEvent revs r w" junk d] assms(6) d(1) by simp
  with on_obj_inv [OF assms(1,2), of "conn_event junk revs r w" d] d show ?thesis by blast
qed

lemma dispatch_serves:
  assumes "io_inv own s" and "distinct act" and "\<forall>p \<in> set act. handlers (io_loop s) p \<noteq> None"
    and "\<And>p c. p \<in> set act \<Longrightarrow> io_conns s p = Some c \<Longrightarrow>
      open_inv c \<and> msgRecvFunc c \<and> rd p \<noteq> Inr [] \<and> readv_fits (reset (readBuffer c)) (rd p)"
  shows "\<exists>t. dispatch junk rd wr act s = Inr t \<and> io_inv own t \<and> (\<forall>p. p \<notin> set act \<longrightarrow> io_conns t p = io_conns s p) \<and>
     (\<forall>p c. p \<in> set act \<longrightarrow> io_conns s p = Some c \<longrightarrow> (\<exists>d. io_conns t p = Some d \<and> open_inv d \<and>
        msgs_up (out d) = msgs_up (out c) @ inbound (DoEvent (revents (the (handlers (io_loop s) p))) (rd p) (wr p))))"
  using assms
proof (induction act arbitrary: s)
  case (Cons p act)
  from Cons.prems(3) obtain h where h: "handlers (io_loop s) p = Some h" by auto
  show ?case
  proof (cases "io_conns s p")
    case None
    have "\<exists>t. dispatch junk rd wr act s = Inr t \<and> io_inv own t \<and> (\<forall>p. p \<notin> set act \<longrightarrow> io_conns t p = io_conns s p) \<and>
     (\<forall>p c. p \<in> set act \<longrightarrow> io_conns s p = Some c \<longrightarrow> (\<exists>d. io_conns t p = Some d \<and> open_inv d \<and>
        msgs_up (out d) = msgs_up (out c) @ inbound (DoEvent (revents (the (handlers (io_loop s) p))) (rd p) (wr p))))"
      using Cons.prems by (intro Cons.IH) auto
    then obtain t where t: "dispatch junk rd wr act s = Inr t" "io_inv own t"
      "\<And>p. p \<notin> set act \<Longrightarrow> io_conns t p = io_conns s p"
      "\<And>p c. p \<in> set act \<Longrightarrow> io_conns s p = Some c \<Longrightarrow> \<exists>d. io_conns t p = Some d \<and> open_inv d \<and>
        msgs_up (out d) = msgs_up (out c) @ inbound (DoEvent (revents (the (handlers (io_loop s) p))) (rd p) (wr p))" by blast
    have "dispatch junk rd wr (p # act) s = Inr t" using h None t(1) by simp
    moreover have "\<exists>d. io_conns t q = Some d \<and> open_inv d \<and>
        msgs_up (out d) = msgs_up (out x) @ inbound (DoEvent (revents (the (handlers (io_loop s) q))) (rd q) (wr q))"
      if q: "q \<in> set (p # act)" "io_conns s q = Some x" for q x
      using q None t(4) [of q x] by (cases "q = p") simp_all
    ultimately show ?thesis using t(2,3) by (intro exI [of _ t]) simp
  next
    case (Some c)
    have p: "open_inv c" "msgRecvFunc c" "rd p \<noteq> Inr []" "readv_fits (reset (readBuffer c)) (rd p)"
      using Cons.prems(4) [of p c] Some by simp_all
    from event_serves [OF Cons.prems(1) Some p, of junk "revents h" "wr p"] obtain u d where
      u: "on_obj p (conn_event junk (revents h) (rd p) (wr p)) s = Inr u" "io_inv own u" "io_conns u = (io_conns s)(p \<mapsto> d)"
        "\<And>q. q \<noteq> p \<Longrightarrow> handlers (io_loop u) q = handlers (io_loop s) q"
      and d: "open_inv d" "msgs_up (out d) = msgs_up (out c) @ inbound (DoEvent (revents h) (rd p) (wr p))" by blast
    have other: "q \<noteq> p" if "q \<in> set act" for q using that Cons.prems(2) by auto
    have "\<exists>t. dispatch junk rd wr act u = Inr t \<and> io_inv own t \<and> (\<forall>p. p \<notin> set act \<longrightarrow> io_conns t p = io_conns u p) \<and>
     (\<forall>p c. p \<in> set act \<longrightarrow> io_conns u p = Some c \<longrightarrow> (\<exists>d. io_conns t p = Some d \<and> open_inv d \<and>
        msgs_up (out d) = msgs_up (out c) @ inbound (DoEvent (revents (the (handlers (io_loop u) p))) (rd p) (wr p))))"
      using Cons.prems(2-4) other u(3,4) by (intro Cons.IH [OF u(2)]) auto
    then obtain t where t: "dispatch junk rd wr act u = Inr t" "io_inv own t"
      "\<And>p. p \<notin> set act \<Longrightarrow> io_conns t p = io_conns u p"
      "\<And>p c. p \<in> set act \<Longrightarrow> io_conns u p = Some c \<Longrightarrow> \<exists>d. io_conns t p = Some d \<and> open_inv d \<and>
        msgs_up (out d) = msgs_up (out c) @ inbound (DoEvent (revents (the (handlers (io_loop u) p))) (rd p) (wr p))" by blast
    have "dispatch junk rd wr (p # act) s = Inr t" using h Some u(1) t(1) by simp
    moreover have "io_conns t q = io_conns s q" if "q \<notin> set (p # act)" for q using that t(3) [of q] u(3) by simp
    moreover have "\<exists>d. io_conns t q = Some d \<and> open_inv d \<and>
        msgs_up (out d) = msgs_up (out x) @ inbound (DoEvent (revents (the (handlers (io_loop s) q))) (rd q) (wr q))"
      if q: "q \<in> set (p # act)" "io_conns s q = Some x" for q x
    proof (cases "q = p")
      case True
      have "p \<notin> set act" using Cons.prems(2) by simp
      with True q(2) Some t(3) u(3) d h show ?thesis by (simp del: inbound.simps)
    next
      case False
      with q t(4) [of q x] u(3,4) show ?thesis by (simp del: inbound.simps)
    qed
    ultimately show ?thesis using t(2) by blast
  qed
qed simp

text \<open>What \<^verbatim>\<open>poll\<close> reports, in terms of the connections.\<close>

lemma round_active:
  assumes inv: "io_inv own s" and "poller (io_loop s) = Some ps" and "length revs = length (pollFds ps)" and "\<forall>v \<in> set revs. 0 \<le> sint v"
  shows "\<exists>ps' H' act. poll (Inr revs) ps (handlers (io_loop s)) = Inr (ps', H', act) \<and>
     io_inv own (s\<lparr>io_loop := (io_loop s)\<lparr>poller := Some ps', handlers := H'\<rparr>\<rparr>) \<and> distinct act \<and> (\<forall>q \<in> set act. H' q \<noteq> None) \<and>
     (\<forall>q c. io_conns s q = Some c \<longrightarrow> (q \<in> set act \<longleftrightarrow> (\<exists>e. event c = Some e \<and> reported ps revs (fd e) \<noteq> 0)) \<and>
        (q \<in> set act \<longrightarrow> (\<exists>h e. H' q = Some h \<and> event c = Some e \<and> revents h = scast (reported ps revs (fd e)))))"
proof -
  from io_inv_polled [OF assms] obtain ps' H' act where
    p: "poll (Inr revs) ps (handlers (io_loop s)) = Inr (ps', H', act)"
      "io_inv own (s\<lparr>io_loop := (io_loop s)\<lparr>poller := Some ps', handlers := H'\<rparr>\<rparr>)" "distinct act"
      "\<And>q. q \<in> set act \<longleftrightarrow> (\<exists>h. handlers (io_loop s) q = Some h \<and> reported ps revs (fd h) \<noteq> 0)"
      "\<And>q. q \<in> set act \<Longrightarrow> \<exists>h. H' q = Some h \<and> revents h = scast (reported ps revs (fd h))" by blast
  define u where "u = s\<lparr>io_loop := (io_loop s)\<lparr>poller := Some ps', handlers := H'\<rparr>\<rparr>"
  have u: "io_conns u = io_conns s" "handlers (io_loop u) = H'" "io_inv own u" using p(2) by (simp_all add: u_def)
  have "(q \<in> set act \<longleftrightarrow> (\<exists>e. event c = Some e \<and> reported ps revs (fd e) \<noteq> 0)) \<and>
      (q \<in> set act \<longrightarrow> (\<exists>h e. H' q = Some h \<and> event c = Some e \<and> revents h = scast (reported ps revs (fd e))))"
    if c: "io_conns s q = Some c" for q c
  proof (cases "event c")
    case None
    have "synced (handlers (io_loop s) q) (event c)" using inv c unfolding io_inv_def by (metis option.simps(5))
    with None p(4) [of q] show ?thesis by simp
  next
    case (Some e)
    have "synced (handlers (io_loop s) q) (Some e)" "synced (H' q) (Some e)"
      using inv u c Some unfolding io_inv_def by (metis option.simps(5))+
    then obtain g h where "handlers (io_loop s) q = Some g" "fd g = fd e" "H' q = Some h" "fd h = fd e"
      by (metis synced_Some)
    with Some p(4,5) [of q] show ?thesis by auto
  qed
  moreover have "\<forall>q \<in> set act. H' q \<noteq> None" using p(5) by fastforce
  ultimately show ?thesis using p(1-3) by blast
qed


lemma reported_uniform:
  "reported ps (map (\<lambda>e. g (pfd_fd e)) (pollFds ps)) f = (if f \<in> pfd_fd ` set (pollFds ps) then g f else 0)"
proof -
  have "map_of (zip (map pfd_fd es) (map (\<lambda>e. g (pfd_fd e)) es)) f = (if f \<in> pfd_fd ` set es then Some (g f) else None)"
    for es :: "pollfd list"
    by (induction es) auto
  then show ?thesis by (simp add: reported_def)
qed


end
