(* ===== verification/Teardown.thy ===== *)
theory Teardown
  imports ServerProperties
begin

text \<open>
  The end of a server: what \<^verbatim>\<open>~WebSocketServer\<close> and \<^verbatim>\<open>~NetServer\<close> delete at any point of a run, what stays
  allocated, and which posted tasks are left for connections that no longer exist.
\<close>

section \<open>The loop over the table\<close>

text \<open>A connection of the table is deleted; in the reactor's thread an open one is closed first.\<close>

lemma delete_life:
  assumes "life c"
  shows "\<exists>d. delete_NetConnection il c = Inr d \<and> (tasks d = [] \<longleftrightarrow> tasks c = [] \<and> (il \<or> state c \<noteq> eConnected))"
proof (cases "state c = eConnected \<and> il")
  case True
  from assms have inv: "conn_inv c" by (rule life_conn_inv)
  with True obtain e where "event c = Some e" by (auto simp: conn_inv_def)
  then have "event (c\<lparr>state := eDisconnected\<rparr>) = Some e" by simp
  from handleClose_result [OF this] obtain d where "handleClose (c\<lparr>state := eDisconnected\<rparr>) = Inr d" "tasks d = tasks c" by auto
  with True show ?thesis by (simp add: forceClose_def Let_def)
qed (use assms in \<open>auto simp: forceClose_def Let_def\<close>)

definition listed :: "string list \<Rightarrow> NetServer \<Rightarrow> nat set" where
  "listed keys s = {p. p \<noteq> 0 \<and> (\<exists>k \<in> set keys. conns s k = Some p)}"

definition has_work :: "bool \<Rightarrow> NetConnection \<Rightarrow> bool" where
  "has_work il c \<longleftrightarrow> tasks c \<noteq> [] \<or> \<not> il \<and> state c = eConnected"

lemma listed_Cons:
  "listed (k # ks) s = (case conns s k of None \<Rightarrow> {} | Some p \<Rightarrow> if p = 0 then {} else {p}) \<union> listed ks s"
  by (auto simp: listed_def split: option.splits)

lemma delete_conns_all:
  assumes "\<forall>k \<in> set keys. \<forall>p. conns s k = Some p \<longrightarrow> p = 0 \<or> (ServerSide.heap s p \<noteq> None \<and> ident s p = k)"
    and "\<forall>p c. ServerSide.heap s p = Some c \<longrightarrow> life c" and "distinct keys"
  shows "\<exists>ps t. delete_conns il keys s = Inr (ps, t) \<and>
     ServerSide.heap t = (\<lambda>p. if p \<in> listed keys s then None else ServerSide.heap s p) \<and>
     set ps = {p \<in> listed keys s. \<exists>c. ServerSide.heap s p = Some c \<and> has_work il c}"
  using assms
proof (induction keys arbitrary: s)
  case Nil
  then show ?case by (simp add: listed_def)
next
  case (Cons k ks)
  show ?case
  proof (cases "conns s k = None \<or> conns s k = Some 0")
    case True
    then have "delete_conns il (k # ks) s = delete_conns il ks s" "listed (k # ks) s = listed ks s"
      by (auto simp: listed_Cons)
    with Cons show ?thesis by simp
  next
    case False
    then obtain p where p: "conns s k = Some p" "p \<noteq> 0" by auto
    with Cons.prems(1) obtain c where c: "ServerSide.heap s p = Some c" "ident s p = k" by fastforce
    with Cons.prems(2) obtain d where d: "delete_NetConnection il c = Inr d" "tasks d = [] \<longleftrightarrow> \<not> has_work il c"
      using delete_life [of c il] by (auto simp: has_work_def)
    define u where "u = (if CloseCb \<in> set (drop (length (out c)) (out d)) then removeConnInLoop p s else s)"
    define t where "t = u\<lparr>ServerSide.heap := (ServerSide.heap u)(p := None)\<rparr>"
    have same: "conns t k' = conns s k'" if "k' \<noteq> k" for k'
      using that c(2) by (simp add: t_def u_def removeConnInLoop_def)
    have heap: "ServerSide.heap t = (ServerSide.heap s)(p := None)" "ident t = ident s"
      by (simp_all add: t_def u_def removeConnInLoop_def)
    have apart: "conns s k' \<noteq> Some p" if "k' \<in> set ks" for k'
      using Cons.prems(1,3) that p(2) c(2) by fastforce
    have conns: "conns t k' = conns s k'" if "k' \<in> set ks" for k' using Cons.prems(3) that same by (metis distinct.simps(2))
    then have listed: "listed ks t = listed ks s" by (auto simp: listed_def)
    have "\<forall>k \<in> set ks. \<forall>p. conns t k = Some p \<longrightarrow> p = 0 \<or> (ServerSide.heap t p \<noteq> None \<and> ident t p = k)"
      using Cons.prems(1) conns apart heap by (metis fun_upd_apply list.set_intros(2))
    moreover have "\<forall>p c. ServerSide.heap t p = Some c \<longrightarrow> life c" using Cons.prems(2) heap by simp
    ultimately obtain ps w where w: "delete_conns il ks t = Inr (ps, w)"
      "ServerSide.heap w = (\<lambda>p. if p \<in> listed ks s then None else ServerSide.heap t p)"
      "set ps = {p \<in> listed ks s. \<exists>c. ServerSide.heap t p = Some c \<and> has_work il c}"
      using Cons.IH [of t] Cons.prems(3) listed by auto
    have run: "delete_conns il (k # ks) s = Inr (if tasks d = [] then ps else p # ps, w)"
      using p c d w(1) by (simp add: u_def t_def Let_def del: delete_NetConnection_def)
    have "p \<notin> listed ks s" using apart by (auto simp: listed_def)
    then have "set ps = {p \<in> listed ks s. \<exists>c. ServerSide.heap s p = Some c \<and> has_work il c}"
      using w(3) heap by auto
    with run w(2) heap d(2) p c show ?thesis
      by (intro exI [of _ "if tasks d = [] then ps else p # ps"] exI [of _ w]) (auto simp: listed_Cons fun_eq_iff)
  qed
qed

section \<open>Destruction at any point of a run\<close>

text \<open>
  C32. The destructor of the server, called at any point of any run, returns. It frees the connections
  that are in the table and no others, so every connection that has left the table stays allocated for good.
  The connections it frees with work ahead of them - those with posted tasks and, outside the reactor's
  thread, all open ones - are used after they have been freed as soon as their next task runs.
\<close>

theorem server_teardown:
  assumes "new_WebSocketServer inet_pton servIp servPort s0 b l addr base clk idx = Inr k"
    and "srv_oks header0 junk ntop as (started f k)" and "srv_run header0 junk ntop as (started f k) = Some (Inr s)"
    and "server (sk s) = Some srv" and "set keys = dom (conns srv)" and "distinct keys"
  shows "\<exists>ps left srv'. delete_WebSocketServer il keys (sk s) = Inr (ps, left, (sk s)\<lparr>server := None, hb_recv := None\<rparr>) \<and>
     delete_NetServer il keys srv = Inr (ps, srv') \<and>
     dom (ServerSide.heap srv') = \<Union> (accepts ` set as) - ran (conns srv) \<and>
     set ps = {p \<in> ran (conns srv). \<exists>c. conn_at p s = Some c \<and> has_work il c} \<and>
     (\<forall>p \<in> set ps. \<forall>w clk. srv_exec header0 junk ntop (Task p w clk) (s\<lparr>sk := (sk s)\<lparr>server := Some srv'\<rparr>\<rparr>) =
        Some (Inl UseAfterFree))"
proof -
  from server.run [OF _ assms(2)] started_inv [OF assms(1)] assms(3) have
    s: "sys_inv s" "objects s = \<Union> (accepts ` set as)" by auto
  from s(1) assms(4) obtain v where v: "core_inv {} srv v" by (auto simp: sys_inv_def)
  define a where "a = srv\<lparr>acceptor := delete_Acceptor (acceptor srv)\<rparr>"
  have a: "conns a = conns srv" "ServerSide.heap a = ServerSide.heap srv" "ident a = ident srv" by (simp_all add: a_def)
  have "\<forall>k \<in> set keys. \<forall>p. conns a k = Some p \<longrightarrow> p = 0 \<or> (ServerSide.heap a p \<noteq> None \<and> ident a p = k)"
    "\<forall>p c. ServerSide.heap a p = Some c \<longrightarrow> life c" "ServerSide.heap srv 0 = None"
    using v a by (auto simp: core_inv_def server_inv_def)
  from delete_conns_all [OF this(1,2) assms(6), of il] obtain ps srv' where
    d: "delete_NetServer il keys srv = Inr (ps, srv')"
      "ServerSide.heap srv' = (\<lambda>p. if p \<in> listed keys a then None else ServerSide.heap srv p)"
      "set ps = {p \<in> listed keys a. \<exists>c. ServerSide.heap srv p = Some c \<and> has_work il c}"
    unfolding delete_NetServer_def a_def [symmetric] a by blast
  have listed: "listed keys a = ran (conns srv) - {0}"
    unfolding listed_def ran_def a assms(5) by (auto simp: dom_def)
  note zero = \<open>ServerSide.heap srv 0 = None\<close>
  have "dom (ServerSide.heap srv') = objects s - ran (conns srv)"
    using objects_dom [OF assms(4)] zero unfolding d(2) listed by (auto simp: dom_def)
  moreover have "p \<in> set ps \<longleftrightarrow> p \<in> {p \<in> ran (conns srv). \<exists>c. conn_at p s = Some c \<and> has_work il c}" for p
    using zero by (cases "p = 0") (simp_all add: d(3) listed conn_at_def assms(4))
  then have "set ps = {p \<in> ran (conns srv). \<exists>c. conn_at p s = Some c \<and> has_work il c}" by (rule set_eqI)
  moreover have "ServerSide.heap srv' p = None" if "p \<in> set ps" for p using that d(2,3) by simp
  then have "\<forall>p \<in> set ps. \<forall>w clk. srv_exec header0 junk ntop (Task p w clk) (s\<lparr>sk := (sk s)\<lparr>server := Some srv'\<rparr>\<rparr>) =
      Some (Inl UseAfterFree)"
    by (simp add: on_conn_def)
  ultimately show ?thesis
    using d(1) s(2) assms(4) by (intro exI [of _ ps] exI [of _ _] exI [of _ srv'] conjI) (simp_all add: delete_WebSocketServer_def)
qed

lemma demo_accepted:
  "\<exists>s srv c. srv_run header0 junk ntop [Accept 4 9 peer peer] (started f demo_k) = Some (Inr s) \<and> server (sk s) = Some srv \<and>
     conns srv = [conn_key (ntop (sin_addr peer)) (network2Host16 (sin_port peer)) 0 \<mapsto> 4] \<and>
     conn_at 4 s = Some c \<and> tasks c = [EstablishTask] \<and>
     srv_oks header0 junk ntop [Accept 4 9 peer peer] (started f demo_k)"
proof -
  obtain srv v where k: "demo_k = \<lparr>server = Some srv, hb_recv = Some v, onConnMsgFunc = False, got = []\<rparr>" "connIndex srv = 0" "conns srv = (\<lambda>_. None)"
    "ServerSide.heap srv = (\<lambda>_. None)" "cb_conn srv" "cb_msg srv" "\<not> cb_compl srv" "connList v = []" "index (threadPool srv) = 0" "loops (threadPool srv) = [0]"
    using demo_k_parts by blast
  show ?thesis
    by (simp add: conn_at_def started_def setOnConnMsgFunc_def k run_defs split: option.splits sum.splits)
qed

theorem server_teardown_witness:
  "\<exists>s ps left (srv' :: NetServer). srv_run \<lparr>FIN = 0, RSV = 5, Opcode = 9, maskBit = 0, PayloadLen = 77\<rparr> (\<lambda>_. 0) (\<lambda>_. ''10.0.0.1'')
       [Accept 4 9 \<lparr>sin_family = 2, sin_port = 256, sin_addr = 1\<rparr> \<lparr>sin_family = 2, sin_port = 256, sin_addr = 1\<rparr>]
       (started True demo_k) = Some (Inr s) \<and>
     delete_WebSocketServer True [conn_key ''10.0.0.1'' (network2Host16 256) 0] (sk s) =
       Inr (ps, left, (sk s)\<lparr>server := None, hb_recv := None\<rparr>) \<and>
     dom (ServerSide.heap srv') = {} \<and> set ps = {4}"
proof -
  let ?p = "\<lparr>sin_family = 2, sin_port = 256, sin_addr = 1\<rparr> :: sockaddr_in"
  let ?h = "\<lparr>FIN = 0, RSV = 5, Opcode = 9, maskBit = 0, PayloadLen = 77\<rparr> :: WSHead"
  let ?n = "conn_key ''10.0.0.1'' (network2Host16 256) 0"
  from demo_accepted [of ?h "\<lambda>_. 0" "\<lambda>_. ''10.0.0.1''" ?p True] obtain s srv c where
    s: "srv_run ?h (\<lambda>_. 0) (\<lambda>_. ''10.0.0.1'') [Accept 4 9 ?p ?p] (started True demo_k) = Some (Inr s)"
      "srv_oks ?h (\<lambda>_. 0) (\<lambda>_. ''10.0.0.1'') [Accept 4 9 ?p ?p] (started True demo_k)"
      "server (sk s) = Some srv" "conns srv = [?n \<mapsto> 4]" "conn_at 4 s = Some c" "tasks c = [EstablishTask]" by auto
  have "set [?n] = dom (conns srv)" "distinct [?n]" using s(4) by simp_all
  from server_teardown [OF demo_k s(2,1,3) this, of True] obtain ps left and srv' :: NetServer where
    t: "delete_WebSocketServer True [?n] (sk s) = Inr (ps, left, (sk s)\<lparr>server := None, hb_recv := None\<rparr>)"
    "dom (ServerSide.heap srv') = \<Union> (accepts ` set [Accept 4 9 ?p ?p]) - ran (conns srv)"
    "set ps = {p \<in> ran (conns srv). \<exists>c. conn_at p s = Some c \<and> has_work True c}"
    by (elim exE conjE) (rule that; assumption)
  have "dom (ServerSide.heap srv') = {}" using t(2) s(4) by simp
  moreover have "set ps = {4}" using t(3) s(4-6) by (auto simp: has_work_def)
  ultimately show ?thesis using t(1) s(1) by blast
qed

end
