(* ===== verification/Echo.thy ===== *)
theory Echo
  imports Sessions Programs
begin

text \<open>
  The two programs together: \<^verbatim>\<open>ws_client.cpp\<close> sends its three messages, the callback of \<^verbatim>\<open>ws_server.cpp\<close> answers
  each of them on the same connection while the read is being handled, and the client reads the answers.
\<close>

section \<open>The client's messages\<close>

definition client_texts :: "byte list list" where
  "client_texts = [replicate 99 97 @ [0], replicate 459 98 @ [0], replicate 2048 99]"

definition reply :: "byte list" where
  "reply = replicate 2048 100"

lemma sendBlob_net:
  "sendBlob header0 junk w polls again d n k =
     go (net_send header0 junk False w polls again d n eTextFrame (net k)) (\<lambda>(buf, wn). Some (Inr (0, buf, k\<lparr>net := wn\<rparr>)))"
  by (auto simp: sendBlob_def go_def split: option.splits sum.splits)

lemma client_messages_sends:
  "client_messages header0 junk w polls k =
     go (net_sends header0 junk w polls (map (Pair eTextFrame) client_texts) (net k)) (\<lambda>wn. Some (Inr (k\<lparr>net := wn\<rparr>)))"
proof -
  have gen: "Option.bind (sendBlob header0 junk w polls True a 100 k) (\<lambda>r.
     case r of Inl e \<Rightarrow> Some (Inl e) | Inr (_, _, k) \<Rightarrow>
     Option.bind (sendBlob header0 junk w polls True b 460 k) (\<lambda>r.
     case r of Inl e \<Rightarrow> Some (Inl e) | Inr (_, _, k) \<Rightarrow>
     Option.bind (sendBlob header0 junk w polls True d 2048 k) (\<lambda>r.
     case r of Inl e \<Rightarrow> Some (Inl e) | Inr (_, _, k) \<Rightarrow> Some (Inr k)))) =
     go (net_sends header0 junk w polls [(eTextFrame, a), (eTextFrame, b), (eTextFrame, d)] (net k)) (\<lambda>wn. Some (Inr (k\<lparr>net := wn\<rparr>)))"
    if "length a = 100" "length b = 460" "length d = 2048" for a b d
    using that by (auto simp: sendBlob_net go_def split: option.splits sum.splits)
  show ?thesis unfolding client_messages_def client_texts_def list.map
    by (rule gen) simp_all
qed

lemma program_texts:
  "m \<in> set client_texts \<Longrightarrow> ws_good (eTextFrame, m) \<and> delivered m = m \<and> m \<noteq> PING"
  "ws_good (eTextFrame, reply)" "delivered reply = reply" "reply \<noteq> PONG"
proof -
  have short: "delivered m = m" if "length m < SLICE_SIZE" for m using that by (simp add: delivered_def Let_def)
  have len: "length (replicate 99 (97 :: byte) @ [0]) = 100" "length (replicate 459 (98 :: byte) @ [0]) = 460"
    "length PING = 4" "length PONG = 4" by (simp_all add: PING_def PONG_def)
  show "ws_good (eTextFrame, m) \<and> delivered m = m \<and> m \<noteq> PING" if "m \<in> set client_texts"
  proof -
    have "ws_good (eTextFrame, m)" "length m \<noteq> 4" using that
      by (auto simp: client_texts_def ws_good_def deliverable_def slice_consts)
    moreover have "delivered m = m"
    proof (cases "m = replicate 2048 99")
      case True
      then show ?thesis using delivered_replicate by (simp only:)
    next
      case False
      with that short show ?thesis by (auto simp: client_texts_def slice_consts)
    qed
    ultimately show ?thesis using len(3) by auto
  qed
  show "ws_good (eTextFrame, reply)" by (simp add: reply_def ws_good_def deliverable_def slice_consts)
  show "delivered reply = reply" unfolding reply_def by (rule delivered_replicate)
  have "length reply \<noteq> length PONG" using len(4) by (simp add: reply_def)
  then show "reply \<noteq> PONG" by auto
qed

lemma long_length:
  assumes "length d = 2048"
  shows "length (ws_enc h (eTextFrame, d)) \<le> 2100"
proof -
  have good: "ws_good (eTextFrame, d)" using assms by (simp add: ws_good_def deliverable_def slice_consts)
  have "length (concat (map wire (message_frames 1 d))) \<le> 2100"
    using assms by (simp add: message_frames_def Let_def slice_consts middle_slices_def last_slice_def data_frame_def
        length_wire upt_rec)
  then show ?thesis using ws_enc_frames [OF good, of h] by simp
qed

section \<open>The server's answers\<close>

text \<open>
  A frame of the decoder with the program's callback: what \<^verbatim>\<open>onMessage\<close> hands to the application is answered
  before the decoder goes on. \<open>w\<close> answers the writes of the heartbeat, \<open>w'\<close> those of the reply.
\<close>

definition echo_decFrameCallback ::
    "WSHead \<Rightarrow> (nat \<Rightarrow> byte) \<Rightarrow> (nat \<Rightarrow> errno + nat) \<Rightarrow> (nat \<Rightarrow> errno + nat) \<Rightarrow> Timestamp \<Rightarrow> nat \<Rightarrow> byte list
     \<Rightarrow> WebSocketServer \<Rightarrow> WebSocketServer res" where
  "echo_decFrameCallback header0 junk w w' clk p data k =
     res_bind (srv_decFrameCallback header0 junk True w clk p data k) (\<lambda>k'.
       if got k' = got k then Inr k' else servMsgRecv header0 junk True w' (conn_name p k') data k')"

text \<open>One read event of the connection at \<open>p\<close>.\<close>

definition echo_read ::
    "WSHead \<Rightarrow> (nat \<Rightarrow> byte) \<Rightarrow> (nat \<Rightarrow> errno + nat) \<Rightarrow> (nat \<Rightarrow> errno + nat) \<Rightarrow> Timestamp \<Rightarrow> nat \<Rightarrow> byte list
     \<Rightarrow> server_sys \<Rightarrow> server_sys res option" where
  "echo_read header0 junk w w' clk p bytes s =
     go (Some (on_conn p (handleRead junk (Inr bytes)) s)) (\<lambda>(_, s).
     case conn_at p s of
       None \<Rightarrow> Some (Inl UseAfterFree)
     | Some c \<Rightarrow>
         go (Some (readAll (readBuffer c))) (\<lambda>(data, b).
         go (decodeFrame (new_WSProtocol junk) (data @ [0]) (int (length data))) (\<lambda>t.
         go (Some (each_message (echo_decFrameCallback header0 junk w w' clk p) (d_out t) (sk s))) (\<lambda>k.
           Some (Inr (s\<lparr>sk := with_buffer p b k\<rparr>))))))"

text \<open>A connection that takes every frame it is given.\<close>

definition idle_conn :: "NetConnection \<Rightarrow> bool" where
  "idle_conn c \<longleftrightarrow> conn_inv c \<and> state c = eConnected \<and> content (writeBuffer c) = []"

definition whole_writes :: "byte list list \<Rightarrow> nat \<Rightarrow> errno + nat" where
  "whole_writes fs i = Inr (length (fs ! i))"

lemma heap_self: "ServerSide.heap srv p = Some c \<Longrightarrow> srv\<lparr>ServerSide.heap := (ServerSide.heap srv)(p \<mapsto> c)\<rparr> = srv"
  by (simp add: fun_upd_idem)

lemma each_frame_writes:
  assumes "ServerSide.heap srv p = Some c" and "p \<noteq> 0" and "idle_conn c"
    and "\<forall>j < length fs. w (i + j) = Inr (length (fs ! j))"
  shows "\<exists>d. each_frame (srv_encFrameCallback junk True w p) i fs srv =
       Inr (srv\<lparr>ServerSide.heap := (ServerSide.heap srv)(p \<mapsto> d)\<rparr>) \<and> idle_conn d \<and>
     wire_bytes (out d) = wire_bytes (out c) @ concat fs"
  using assms
proof (induction fs arbitrary: i srv c)
  case Nil
  show ?case by (rule exI [of _ c], unfold heap_self [OF Nil(1)]) (use Nil in simp)
next
  case (Cons f fs)
  let ?d = "Connection.emit (Written f # (if writeCompleteFunc c then [WriteCompleteCb] else [])) c"
  define srv1 where "srv1 = srv\<lparr>ServerSide.heap := (ServerSide.heap srv)(p \<mapsto> ?d)\<rparr>"
  have c: "conn_inv c" "state c = eConnected" "content (writeBuffer c) = []" using Cons.prems(3) by (simp_all add: idle_conn_def)
  have "w i = Inr (length f)" using Cons.prems(4) by force
  with send_whole [OF c, of junk f] have "srv_encFrameCallback junk True w p i f srv = Inr srv1"
    using Cons.prems(1,2) by (simp add: srv_encFrameCallback_def call_conn_def srv1_def)
  moreover have "idle_conn ?d" using Cons.prems(3) by (simp add: idle_conn_def conn_inv_def)
  moreover have "\<forall>j < length fs. w (Suc i + j) = Inr (length (fs ! j))" using Cons.prems(4) by fastforce
  moreover have "ServerSide.heap srv1 p = Some ?d" by (simp add: srv1_def)
  from Cons.IH [OF this Cons.prems(2) calculation(2,3)] obtain d where
    "each_frame (srv_encFrameCallback junk True w p) (Suc i) fs srv1 = Inr (srv1\<lparr>ServerSide.heap := (ServerSide.heap srv1)(p \<mapsto> d)\<rparr>)"
    "idle_conn d" "wire_bytes (out d) = wire_bytes (out ?d) @ concat fs" by blast
  moreover have "srv1\<lparr>ServerSide.heap := (ServerSide.heap srv1)(p \<mapsto> d)\<rparr> = srv\<lparr>ServerSide.heap := (ServerSide.heap srv)(p \<mapsto> d)\<rparr>"
    by (simp add: srv1_def)
  ultimately have "each_frame (srv_encFrameCallback junk True w p) i (f # fs) srv =
      Inr (srv\<lparr>ServerSide.heap := (ServerSide.heap srv)(p \<mapsto> d)\<rparr>)" by simp
  moreover have "wire_bytes (out d) = wire_bytes (out c) @ concat (f # fs)"
    using \<open>wire_bytes (out d) = wire_bytes (out ?d) @ concat fs\<close> by simp
  ultimately show ?case using \<open>idle_conn d\<close> by blast
qed

abbreviation reply_frames :: "byte list list" where
  "reply_frames \<equiv> map wire (message_frames 1 reply)"

lemma servMsgRecv_replies:
  assumes "server k = Some srv" and "conns srv name = Some p" and "ServerSide.heap srv p = Some c" and "p \<noteq> 0" and "idle_conn c"
  shows "\<exists>d. servMsgRecv header0 junk True (whole_writes reply_frames) name msg k =
       Inr (k\<lparr>server := Some (srv\<lparr>ServerSide.heap := (ServerSide.heap srv)(p \<mapsto> d)\<rparr>)\<rparr>) \<and> idle_conn d \<and>
     wire_bytes (out d) = wire_bytes (out c) @ ws_enc header0 (eTextFrame, reply)"
proof -
  have dom: "dom (conns srv) \<noteq> {}" using assms(2) by auto
  have enc: "encodeFrame header0 reply 2048 eTextFrame = Inr (xmask reply, reply_frames)"
    using encodeFrame_data [of eTextFrame 2048 reply header0] by (simp add: reply_def)
  have "ws_enc header0 (eTextFrame, reply) = concat reply_frames" using ws_enc_frames [OF program_texts(2)] by simp
  with each_frame_writes [OF assms(3-5), of reply_frames "whole_writes reply_frames" 0 junk] obtain d where
    "each_frame (srv_encFrameCallback junk True (whole_writes reply_frames) p) 0 reply_frames srv =
       Inr (srv\<lparr>ServerSide.heap := (ServerSide.heap srv)(p \<mapsto> d)\<rparr>)" "idle_conn d"
    "wire_bytes (out d) = wire_bytes (out c) @ ws_enc header0 (eTextFrame, reply)"
    by (auto simp: whole_writes_def)
  with assms(1,2,4) enc dom show ?thesis
    unfolding servMsgRecv_def reply_def [symmetric] by (intro exI [of _ d]) (simp add: srv_send_def getconn_def)
qed

text \<open>Each message of a read is passed on and answered.\<close>

lemma echo_messages:
  assumes "hb_recv k = Some v" and "server k = Some srv" and "PING \<notin> set ds" and "p \<noteq> 0" and "onConnMsgFunc k"
    and "conns srv (ident srv p) = Some p" and "ServerSide.heap srv p = Some c" and "idle_conn c"
  shows "\<exists>k' v' d. each_message (echo_decFrameCallback header0 junk w (whole_writes reply_frames) clk p) ds k = Inr k' \<and>
     hb_recv k' = Some v' \<and> server k' = Some (srv\<lparr>ServerSide.heap := (ServerSide.heap srv)(p \<mapsto> d)\<rparr>) \<and> onConnMsgFunc k' \<and>
     got k' = got k @ map (Pair (ident srv p)) ds \<and> idle_conn d \<and>
     wire_bytes (out d) = wire_bytes (out c) @ concat (replicate (length ds) (ws_enc header0 (eTextFrame, reply)))"
  using assms
proof (induction ds arbitrary: k v srv c)
  case Nil
  show ?case by (rule exI [of _ k], rule exI [of _ v], rule exI [of _ c], unfold heap_self [OF Nil(7)]) (use Nil in simp)
next
  case (Cons d ds)
  let ?v = "v\<lparr>connList := touch p (of_int (seconds_of clk)) (connList v)\<rparr>"
  let ?k = "k\<lparr>hb_recv := Some ?v, got := got k @ [(ident srv p, d)]\<rparr>"
  have "d \<noteq> PING" using Cons.prems(3) by auto
  then have dec: "srv_decFrameCallback header0 junk True w clk p d k = Inr ?k"
    using Cons.prems heartbeat_plain [OF Cons.prems(1,2), of d header0 junk True w clk p]
    by (simp add: srv_decFrameCallback_def conn_name_def)
  have "server ?k = Some srv" using Cons.prems(2) by simp
  from servMsgRecv_replies [OF this Cons.prems(6,7,4,8), of header0 junk d] obtain e where
    e: "servMsgRecv header0 junk True (whole_writes reply_frames) (ident srv p) d ?k =
        Inr (?k\<lparr>server := Some (srv\<lparr>ServerSide.heap := (ServerSide.heap srv)(p \<mapsto> e)\<rparr>)\<rparr>)" "idle_conn e"
      "wire_bytes (out e) = wire_bytes (out c) @ ws_enc header0 (eTextFrame, reply)" by blast
  define srv1 where "srv1 = srv\<lparr>ServerSide.heap := (ServerSide.heap srv)(p \<mapsto> e)\<rparr>"
  define k1 where "k1 = ?k\<lparr>server := Some srv1\<rparr>"
  have step: "echo_decFrameCallback header0 junk w (whole_writes reply_frames) clk p d k = Inr k1"
    using e(1) Cons.prems(2) by (simp add: echo_decFrameCallback_def dec k1_def srv1_def conn_name_def)
  have k1: "hb_recv k1 = Some ?v" "server k1 = Some srv1" "onConnMsgFunc k1" "got k1 = got k @ [(ident srv p, d)]"
    "ident srv1 = ident srv" "conns srv1 = conns srv" "ServerSide.heap srv1 p = Some e" "PING \<notin> set ds"
    using Cons.prems by (simp_all add: k1_def srv1_def)
  have "conns srv1 (ident srv1 p) = Some p" using Cons.prems(6) k1 by simp
  from Cons.IH [OF k1(1,2,8) Cons.prems(4) k1(3) this k1(7) e(2)] obtain k' v' d' where
    r: "each_message (echo_decFrameCallback header0 junk w (whole_writes reply_frames) clk p) ds k1 = Inr k'"
      "hb_recv k' = Some v'" "server k' = Some (srv1\<lparr>ServerSide.heap := (ServerSide.heap srv1)(p \<mapsto> d')\<rparr>)" "onConnMsgFunc k'"
      "got k' = got k1 @ map (Pair (ident srv1 p)) ds" "idle_conn d'"
      "wire_bytes (out d') = wire_bytes (out e) @ concat (replicate (length ds) (ws_enc header0 (eTextFrame, reply)))" by blast
  have "srv1\<lparr>ServerSide.heap := (ServerSide.heap srv1)(p \<mapsto> d')\<rparr> = srv\<lparr>ServerSide.heap := (ServerSide.heap srv)(p \<mapsto> d')\<rparr>"
    by (simp add: srv1_def)
  then have "server k' = Some (srv\<lparr>ServerSide.heap := (ServerSide.heap srv)(p \<mapsto> d')\<rparr>)" using r(3) by (simp only:)
  moreover have "each_message (echo_decFrameCallback header0 junk w (whole_writes reply_frames) clk p) (d # ds) k = Inr k'"
    using r(1) step by simp
  moreover have "got k' = got k @ map (Pair (ident srv p)) (d # ds)" using r(5) k1(4,5) by simp
  moreover have "wire_bytes (out d') = wire_bytes (out c) @ concat (replicate (length (d # ds)) (ws_enc header0 (eTextFrame, reply)))"
    using r(7) e(3) by simp
  ultimately show ?case using r(2,4,6) by blast
qed

lemma echo_batch:
  assumes "listens p s" and "server (sk s) = Some srv" and "conns srv (ident srv p) = Some p" and "conn_at p s = Some c"
    and "content (writeBuffer c) = []" and "ms \<noteq> []" and "\<forall>m \<in> set ms. ws_good m \<and> delivered (snd m) \<noteq> PING"
    and "bytes = concat (map (ws_enc header1) ms)" and "bytes \<noteq> []" and "length bytes \<le> csMaxBufSize"
  shows "\<exists>t d. echo_read header0 junk w (whole_writes reply_frames) clk p bytes s = Some (Inr t) \<and> conn_at p t = Some d \<and>
     got (sk t) = got (sk s) @ map (\<lambda>m. (conn_name p (sk s), delivered (snd m))) ms \<and>
     wire_bytes (out d) = wire_bytes (out c) @ concat (replicate (length ms) (ws_enc header0 (eTextFrame, reply)))"
proof -
  from assms(1,4) obtain e where s: "sys_inv s" "onConnMsgFunc (sk s)" "state c = eConnected" "event c = Some e"
    by (auto simp: listens_def)
  have small: "length bytes < MAX_FRAMESIZE" using assms(10) by (simp add: csMaxBufSize_def MAX_FRAMESIZE_def)
  from codec.dec_batch [of "new_WSProtocol junk" ms header1] assms(6-8) small obtain q where
    "ws_dec (new_WSProtocol junk) bytes = Some (q, map (\<lambda>m. delivered (snd m)) ms)" by auto
  then obtain t0 where t0: "decodeFrame (new_WSProtocol junk) (bytes @ [0]) (int (length bytes)) = Some (Inr t0)"
    "d_out t0 = map (\<lambda>m. delivered (snd m)) ms"
    by (auto simp: ws_dec_def split: option.splits sum.splits)
  from conn_at_sys [OF s(1) assms(4)] have p: "p \<noteq> 0" "conn_inv c" by (simp_all add: life_conn_inv)
  from handleRead_data [OF p(2) s(4) assms(9) reset_room [OF assms(10)], of junk] obtain d where
    d: "handleRead junk (Inr bytes) c = Inr d" "conn_inv d" "state d = state c" "writeBuffer d = writeBuffer c"
      "wire_bytes (out d) = wire_bytes (out c)" "content (readBuffer d) = bytes" by auto
  from s(1) assms(2,4) obtain v where v: "hb_recv (sk s) = Some v" "ServerSide.heap srv p = Some c"
    by (auto simp: sys_inv_def conn_at_def)
  define srv1 where "srv1 = srv\<lparr>ServerSide.heap := (ServerSide.heap srv)(p \<mapsto> d)\<rparr>"
  define k where "k = (sk s)\<lparr>server := Some srv1\<rparr>"
  have on: "\<exists>ys. on_conn p (handleRead junk (Inr bytes)) s = Inr (ys, s\<lparr>sk := k\<rparr>)"
    using assms(2) v(2) d(1) by (simp add: on_conn_def k_def srv1_def)
  have k: "hb_recv k = Some v" "server k = Some srv1" "onConnMsgFunc k" "got k = got (sk s)" "ident srv1 = ident srv"
    "conns srv1 (ident srv1 p) = Some p" "ServerSide.heap srv1 p = Some d"
    using v s(2) assms(3) by (simp_all add: k_def srv1_def)
  have idle: "idle_conn d" using d(2-4) s(3) assms(5) by (simp add: idle_conn_def)
  have "PING \<notin> set (d_out t0)" using t0(2) assms(7) by auto
  from echo_messages [OF k(1,2) this p(1) k(3,6,7) idle, of header0 junk w clk] obtain k' d' where
    r: "each_message (echo_decFrameCallback header0 junk w (whole_writes reply_frames) clk p) (d_out t0) k = Inr k'"
      "server k' = Some (srv1\<lparr>ServerSide.heap := (ServerSide.heap srv1)(p \<mapsto> d')\<rparr>)"
      "got k' = got k @ map (Pair (ident srv1 p)) (d_out t0)"
      "wire_bytes (out d') = wire_bytes (out d) @ concat (replicate (length (d_out t0)) (ws_enc header0 (eTextFrame, reply)))"
    by blast
  have "buf_inv (readBuffer d)" using d(2) by (simp add: conn_inv_def)
  from readAll_content [OF this] obtain b' where b': "readAll (readBuffer d) = Inr (bytes, b')" using d(6) by auto
  have "conn_at p (s\<lparr>sk := k\<rparr>) = Some d" using k(2,7) by (simp add: conn_at_def)
  with on b' t0(1) r(1) have "echo_read header0 junk w (whole_writes reply_frames) clk p bytes s =
      Some (Inr (s\<lparr>sk := with_buffer p b' k'\<rparr>))"
    by (auto simp: echo_read_def)
  moreover have "conn_at p (s\<lparr>sk := with_buffer p b' k'\<rparr>) = Some (d'\<lparr>readBuffer := b'\<rparr>)"
    using r(2) by (simp add: conn_at_def with_buffer_def)
  moreover have "got (with_buffer p b' k') = got (sk s) @ map (\<lambda>m. (conn_name p (sk s), delivered (snd m))) ms"
    using r(3) k(4,5) t0(2) assms(2) by (simp add: with_buffer_def conn_name_def comp_def split: option.split)
  moreover have "wire_bytes (out (d'\<lparr>readBuffer := b'\<rparr>)) =
      wire_bytes (out c) @ concat (replicate (length ms) (ws_enc header0 (eTextFrame, reply)))"
    using r(4) d(5) t0(2) by simp
  ultimately show ?thesis by (metis server_sys.select_convs(1) server_sys.simps(1) server_sys.surjective server_sys.update_convs(1))
qed

section \<open>The exchange\<close>

lemma client_texts_length: "length (concat (map (\<lambda>m. ws_enc h (eTextFrame, m)) client_texts)) \<le> csMaxBufSize"
proof -
  have "length (ws_enc h (eTextFrame, replicate 2048 99)) \<le> 2100" by (rule long_length) simp
  moreover have "length (ws_enc h (eTextFrame, d)) \<le> 600" if "length d < SLICE_SIZE" "d \<noteq> []" for d
  proof -
    have "ws_good (eTextFrame, d)" using that by (simp add: ws_good_def deliverable_def slice_consts)
    from ws_enc_frames [OF this, of h] that show ?thesis
      by (simp add: message_frames_def Let_def length_wire slice_consts data_frame_def)
  qed
  then have "length (ws_enc h (eTextFrame, replicate 99 97 @ [0])) \<le> 600" "length (ws_enc h (eTextFrame, replicate 459 98 @ [0])) \<le> 600"
    by (simp_all add: slice_consts)
  ultimately show ?thesis by (simp add: client_texts_def csMaxBufSize_def)
qed

text \<open>The client's messages are posted, and its loop thread writes them.\<close>

lemma client_writes:
  assumes "client (net k) = Some n" and "conn n = Some c" and "idle_conn c" and "tasks c = []" and "True \<in> set polls"
  shows "\<exists>k' n' c' fs d. client_messages header0 junk w polls k = Some (Inr k') \<and>
     proto (net k') = proto (net k) \<and> msgRecvCallback (net k') = msgRecvCallback (net k) \<and> received (net k') = received (net k) \<and>
     client (net k') = Some n' \<and> conn n' = Some c' \<and> run_tasks junk (map (\<lambda>f. Inr (length f)) fs) c' = Inr d \<and>
     conn_inv d \<and> state d = eConnected \<and> msgRecvFunc d = msgRecvFunc c \<and>
     wire_bytes (out d) = wire_bytes (out c) @ concat fs \<and> concat fs = concat (map (ws_enc header0) (map (Pair eTextFrame) client_texts))"
proof -
  let ?ms = "map (Pair eTextFrame) client_texts"
  have good: "\<forall>m \<in> set ?ms. ws_good m" using program_texts(1) by auto
  have c: "conn_inv c" "state c = eConnected" "content (writeBuffer c) = []" using assms(3) by (simp_all add: idle_conn_def)
  from net_sends_post [OF assms(1,2) c(2) assms(5) good, of header0 junk w] assms(4) obtain fs where
    fs: "net_sends header0 junk w polls ?ms (net k) =
       Some (Inr ((net k)\<lparr>client := Some (n\<lparr>conn := Some (c\<lparr>tasks := map SendTask fs\<rparr>)\<rparr>)\<rparr>))"
      "concat fs = concat (map (ws_enc header0) ?ms)" by auto
  define c' where "c' = c\<lparr>tasks := map SendTask fs\<rparr>"
  define n' where "n' = n\<lparr>conn := Some c'\<rparr>"
  define k' where "k' = k\<lparr>net := (net k)\<lparr>client := Some n'\<rparr>\<rparr>"
  have sent: "client_messages header0 junk w polls k = Some (Inr k')"
    using fs(1) by (simp add: client_messages_sends k'_def n'_def c'_def)
  have k': "client (net k') = Some n'" "conn n' = Some c'" "proto (net k') = proto (net k)"
    "msgRecvCallback (net k') = msgRecvCallback (net k)" "received (net k') = received (net k)"
    by (simp_all add: k'_def n'_def)
  have "conn_inv c'" "state c' = eConnected" "content (writeBuffer c') = []" "tasks c' = map SendTask fs"
    "msgRecvFunc c' = msgRecvFunc c" "out c' = out c"
    using c by (simp_all add: c'_def conn_inv_def)
  with run_tasks_write [of c' fs junk] sent k' fs(2) show ?thesis by (metis (no_types, lifting))
qed

text \<open>The server's answers arrive at an open connection of the client.\<close>

definition answers :: "WSHead \<Rightarrow> byte list" where
  "answers header1 = concat (replicate 3 (ws_enc header1 (eTextFrame, reply)))"

lemma client_reads_answers:
  assumes "conn_inv d" and "state d = eConnected" and "msgRecvFunc d" and "proto_inv (proto n)" and "msgRecvCallback n"
  shows "\<exists>d' n' r. handleRead junk (Inr (answers header1)) d = Inr d' \<and> last (out d') = MsgCb (answers header1) \<and>
     net_onConnMessage True (readBuffer d') n = Some (Inr (n', r)) \<and> received n' = received n @ replicate 3 reply"
proof -
  have "length (ws_enc header1 (eTextFrame, reply)) \<le> 2100" "ws_enc header1 (eTextFrame, reply) \<noteq> []"
    using long_length [of reply header1] ws_enc_nonempty [OF program_texts(2)] by (simp_all add: reply_def)
  then have len: "answers header1 \<noteq> []" "length (answers header1) \<le> csMaxBufSize"
    by (simp_all add: answers_def csMaxBufSize_def numeral_3_eq_3)
  obtain e where "event d = Some e" using assms(1,2) by (auto simp: conn_inv_def)
  from handleRead_data [OF assms(1) this len(1) reset_room [OF len(2)], of junk] assms(3) obtain d' where
    d': "handleRead junk (Inr (answers header1)) d = Inr d'" "conn_inv d'" "out d' = out d @ [MsgCb (answers header1)]"
      "content (readBuffer d') = answers header1"
    by auto
  let ?ms = "replicate 3 (eTextFrame, reply)"
  have "buf_inv (readBuffer d')" using d'(2) by (simp add: conn_inv_def)
  moreover have "content (readBuffer d') = concat (map (ws_enc header1) ?ms)" using d'(4) by (simp add: answers_def)
  moreover have "length (content (readBuffer d')) < MAX_FRAMESIZE"
    using d'(4) len(2) by (simp add: csMaxBufSize_def MAX_FRAMESIZE_def)
  moreover have "\<forall>m \<in> set ?ms. ws_good m" using program_texts(2) by simp
  ultimately obtain p r where "net_onConnMessage True (readBuffer d') n =
      Some (Inr (fold (net_decFrameCallback True) (map (\<lambda>m. delivered (snd m)) ?ms) (n\<lparr>proto := p\<rparr>), r))"
    using client_reads [OF assms(4), of "readBuffer d'" header1 ?ms] by auto
  then show ?thesis
    unfolding fold_decFrameCallback using d'(1,3) assms(5) program_texts(3,4) by simp
qed


definition demo_websocket :: WebSocket where
  "demo_websocket = \<lparr>net = demo_net, onOpen = False, onClose = True, onError = False, onMessage = True\<rparr>"


end
