(* ===== verification/TimerRuns.thy ===== *)
theory TimerRuns
  imports Timers Runs
begin

text \<open>
  A timer queue over time: timers are added and deleted while the clock advances, and the loop thread runs
  the handler when the descriptor is readable. The instant at which the kernel makes it readable follows
  from what \<^verbatim>\<open>timerfd_settime\<close> was given last.
\<close>

section \<open>The system\<close>

abbreviation usec :: "Timestamp \<Rightarrow> int" where
  "usec \<equiv> microsecondsSinceEpoch"

text \<open>\<open>alarm\<close> is when the descriptor becomes readable, if it is set at all; \<open>clock\<close> is the last clock seen.\<close>

record 'cb timer_sys =
  tq :: "'cb TimerQueue"
  alarm :: "int option"
  clock :: int

definition fires_at :: "Timestamp \<Rightarrow> fd_setting \<Rightarrow> int" where
  "fires_at clk s = (case s of AbsTime sec \<Rightarrow> sec * 1000000 | RelTime sec nsec \<Rightarrow> usec clk + sec * 1000000 + nsec div 1000)"

text \<open>Each step starts without a setting, so that what it leaves is what it has set.\<close>

definition unset :: "'cb TimerQueue \<Rightarrow> 'cb TimerQueue" where
  "unset q = q\<lparr>timerfd := None\<rparr>"

definition after :: "Timestamp \<Rightarrow> int option \<Rightarrow> 'cb TimerQueue \<Rightarrow> 'cb timer_sys" where
  "after clk a q =
     \<lparr>tq = q, alarm = (case timerfd q of None \<Rightarrow> a | Some s \<Rightarrow> Some (fires_at clk s)), clock = usec clk\<rparr>"

text \<open>
  \<open>Add\<close> is \<^verbatim>\<open>addTimer\<close> with a callback, \<open>AddPtr\<close> the one with a timer that its caller has made, \<open>Del\<close> is
  \<^verbatim>\<open>delTimerInLoop\<close>, \<open>Fire\<close> the handler, which reads the descriptor first and so unsets it.
\<close>

datatype 'cb timer_op =
    Add nat Timestamp 'cb rat bool Timestamp
  | AddPtr nat "'cb Timer" Timestamp
  | Del "int \<times> nat" Timestamp
  | Fire Timestamp "nat \<Rightarrow> Timestamp" Timestamp

fun tm_exec :: "'cb timer_op \<Rightarrow> 'cb timer_sys \<Rightarrow> 'cb timer_sys res option" where
  "tm_exec (Add p time cb intv rep clk) s =
     Some (res_bind (addTimer clk p time cb intv rep (unset (tq s))) (\<lambda>(_, q). Inr (after clk (alarm s) q)))"
| "tm_exec (AddPtr p tmer clk) s =
     Some (res_bind (addTimer_ptr clk (Some p) (unset (tq s)\<lparr>timers := (timers (tq s))(p \<mapsto> tmer)\<rparr>)) (\<lambda>(_, q).
       Inr (after clk (alarm s) q)))"
| "tm_exec (Del tid clk) s = Some (Inr (after clk (alarm s) (delTimerInLoop clk tid (unset (tq s)))))"
| "tm_exec (Fire evtime clk clk') s =
     Some (res_bind (eventRead clk clk' evtime (unset (tq s))) (\<lambda>q. Inr (after clk' None q)))"

abbreviation tm_run :: "'cb timer_op list \<Rightarrow> 'cb timer_sys \<Rightarrow> 'cb timer_sys res option" where
  "tm_run \<equiv> steps tm_exec"

text \<open>
  When a step can occur: \<^verbatim>\<open>new\<close> returns a fresh pointer, times are valid and the clock does not go back; the
  identity of the constructor's own timer (at \<open>p0\<close>, for the instant \<open>z\<close>) is not known outside, so nobody
  deletes it; the handler runs when the descriptor is readable, and more than a second before \<open>z\<close>.
\<close>

fun tm_ok :: "nat \<Rightarrow> Timestamp \<Rightarrow> 'cb timer_op \<Rightarrow> 'cb timer_sys \<Rightarrow> bool" where
  "tm_ok p0 z (Add p time cb intv rep clk) s \<longleftrightarrow>
     timers (tq s) p = None \<and> p < UINTPTR_MAX \<and> valid time \<and> clock s \<le> usec clk"
| "tm_ok p0 z (AddPtr p tmer clk) s \<longleftrightarrow>
     timers (tq s) p = None \<and> p < UINTPTR_MAX \<and> valid (expiration tmer) \<and> clock s \<le> usec clk"
| "tm_ok p0 z (Del tid clk) s \<longleftrightarrow> snd tid \<noteq> p0 \<and> clock s \<le> usec clk"
| "tm_ok p0 z (Fire evtime clk clk') s \<longleftrightarrow>
     (case alarm s of None \<Rightarrow> False | Some a \<Rightarrow> a \<le> usec evtime) \<and> clock s \<le> usec evtime \<and> usec evtime \<le> usec clk' \<and>
     usec evtime + 1000000 < usec z"

section \<open>The alarm\<close>

text \<open>The time of the head of the set.\<close>

definition head_time :: "'cb TimerQueue \<Rightarrow> int" where
  "head_time q = usec (fst (hd (timerLists q)))"

text \<open>
  The alarm is never earlier than the head, so the handler finds a due timer, and late only by the least
  delay of 100 microseconds. The constructor's first setting is rounded down to a second; that concerns its
  own timer only.
\<close>

definition alarm_ok :: "Timestamp \<Rightarrow> int \<Rightarrow> 'cb TimerQueue \<Rightarrow> int \<Rightarrow> bool" where
  "alarm_ok z c q a \<longleftrightarrow> min (head_time q) (usec z - 1000000) \<le> a \<and> a \<le> max (head_time q) (c + 100)"

lemma fires_howMuch: "fires_at clk (howMuchTimeFromNow clk t) = max (usec t) (usec clk + 100)"
proof -
  define m where "m = (if usec t - usec clk < 100 then 100 else usec t - usec clk)"
  have m: "0 \<le> m" "usec clk + m = max (usec t) (usec clk + 100)" by (auto simp: m_def)
  have "howMuchTimeFromNow clk t = RelTime (m div 1000000) (m mod 1000000 * 1000)"
    using m(1) by (simp add: howMuchTimeFromNow_def Let_def m_def [symmetric] csMicrosecondsPerSecond_def)
  then show ?thesis using m(2) by (simp add: fires_at_def)
qed

lemma reset_alarm:
  assumes "bsetup q"
  shows "after clk a (resetTimerFd clk t q) =
     \<lparr>tq = resetTimerFd clk t q, alarm = Some (max (usec t) (usec clk + 100)), clock = usec clk\<rparr>"
  using assms by (simp add: after_def resetTimerFd_def fires_howMuch)

lemma bsetup_resetTimerFd [simp]: "bsetup (resetTimerFd clk t q)"
  by (simp add: resetTimerFd_def)

lemma unset_fields [simp]:
  "timerLists (unset q) = timerLists q" "timers (unset q) = timers q" "bsetup (unset q) = bsetup q"
  "started (unset q) = started q" "timerfd (unset q) = None" "sIndexNum (unset q) = sIndexNum q"
  by (simp_all add: unset_def)

lemma tq_inv_unset [simp]: "tq_inv (unset q) = tq_inv q"
  by (rule tq_inv_cong) simp_all

section \<open>Inserting\<close>

lemma hd_insort_insert:
  fixes t :: "'t :: linorder" and p :: "'p :: linorder"
  assumes "sorted xs"
  shows "fst (hd (insort_insert (t, p) xs)) = (if xs = [] \<or> t < fst (hd xs) then t else fst (hd xs))"
proof (cases xs)
  case (Cons x ys)
  have "\<not> t < fst x" if "(t, p) \<in> set ys" using assms that Cons by (auto simp: less_eq_prod_def)
  then show ?thesis using Cons by (auto simp: insort_insert_key_def less_eq_prod_def)
qed (simp add: insort_insert_key_def)

lemma tq_insert_head:
  assumes "timers q p = Some t" and "valid (expiration t)" and "sorted (timerLists q)"
  shows "\<exists>q'. tq_insert p q = Inr (timerLists q = [] \<or> usec (expiration t) < head_time q, q') \<and> timerfd q' = timerfd q \<and>
     head_time q' = (if timerLists q = [] \<or> usec (expiration t) < head_time q then usec (expiration t) else head_time q)"
  using assms
  by (auto simp: tq_insert_def Let_def head_time_def hd_insort_insert less_Timestamp_def timestamp_less_def)

section \<open>The invariant\<close>

definition tm_inv :: "nat \<Rightarrow> Timestamp \<Rightarrow> 'cb \<Rightarrow> 'cb timer_sys \<Rightarrow> bool" where
  "tm_inv p0 z dcb s \<longleftrightarrow> tq_inv (tq s) \<and> bsetup (tq s) \<and> (z, p0) \<in> set (timerLists (tq s)) \<and>
     (\<exists>i. timers (tq s) p0 = Some (new_Timer dcb i z 0 False)) \<and>
     (\<exists>a. alarm s = Some a \<and> alarm_ok z (clock s) (tq s) a)"

text \<open>A timer that is not in the set goes in, and the descriptor is set again when the head changes.\<close>

lemma insert_step:
  assumes inv: "tm_inv p0 z dcb s" and new: "timers (tq s) p = None" "p < UINTPTR_MAX" "valid (expiration t)" "clock s \<le> usec clk"
    and q: "timerLists q = timerLists (tq s)" "timers q = (timers (tq s))(p \<mapsto> t)" "bsetup q" "timerfd q = None"
  shows "\<exists>b q'. tq_insert p q = Inr (b, q') \<and> timers q' p = Some t \<and>
     tm_inv p0 z dcb (after clk (alarm s) (if b then resetTimerFd clk (expiration t) q' else q'))"
proof -
  from inv obtain a i where a: "alarm s = Some a" "alarm_ok z (clock s) (tq s) a"
    and p0: "timers (tq s) p0 = Some (new_Timer dcb i z 0 False)" "(z, p0) \<in> set (timerLists (tq s))" and tq: "tq_inv (tq s)"
    by (auto simp: tm_inv_def)
  have fresh: "p \<notin> snd ` set (timerLists (tq s))" using tq new(1) by (auto simp: tq_inv_def entry_ok_def)
  have "tq_inv q"
    using tq_inv_fresh [OF tq fresh, of "Some t"] tq_inv_cong [of q "tq s\<lparr>timers := (timers (tq s))(p \<mapsto> t)\<rparr>"] q(1,2) by simp
  from tq_insert_inv [OF this, of p t] fresh q new(2,3) obtain b q' where
    i: "tq_insert p q = Inr (b, q')" "tq_inv q'" "set (timerLists q') = insert (expiration t, p) (set (timerLists (tq s)))"
      "\<And>p'. p' \<noteq> p \<Longrightarrow> timers q' p' = timers (tq s) p'" "timers q' p = Some t" "bsetup q'" by auto
  from tq_insert_head [of q p t] q new(3) i(1) p0(2) tq have
    h: "b \<longleftrightarrow> usec (expiration t) < head_time (tq s)" "timerfd q' = None"
      "head_time q' = (if b then usec (expiration t) else head_time (tq s))"
    by (auto simp: head_time_def tq_inv_def)
  let ?r = "if b then resetTimerFd clk (expiration t) q' else q'"
  have "tq_inv ?r" "bsetup ?r" "(z, p0) \<in> set (timerLists ?r)" using i p0(2) by simp_all
  moreover have "timers ?r p0 = Some (new_Timer dcb i z 0 False)" using i(4) [of p0] p0(1) new(1) by (cases "p0 = p") auto
  moreover have "\<exists>a'. alarm (after clk (alarm s) ?r) = Some a' \<and> alarm_ok z (usec clk) ?r a'"
  proof (cases b)
    case True
    with h(3) show ?thesis using reset_alarm [OF i(6)] by (auto simp: alarm_ok_def head_time_def)
  next
    case False
    with a h(2,3) new(4) show ?thesis by (auto simp: after_def alarm_ok_def)
  qed
  moreover have "tq (after clk (alarm s) ?r) = ?r" "clock (after clk (alarm s) ?r) = usec clk" by (simp_all add: after_def)
  ultimately have "tm_inv p0 z dcb (after clk (alarm s) ?r)" unfolding tm_inv_def by auto
  with i(1,5) show ?thesis by blast
qed

lemma add_step:
  assumes "tm_inv p0 z dcb s" and "tm_ok p0 z (Add p time cb intv rep clk) s"
  shows "\<exists>t. tm_exec (Add p time cb intv rep clk) s = Some (Inr t) \<and> tm_inv p0 z dcb t"
proof -
  let ?t = "new_Timer cb (sIndexNum (tq s)) time intv rep"
  let ?q = "unset (tq s)\<lparr>timers := (timers (tq s))(p \<mapsto> ?t), sIndexNum := sIndexNum (tq s) + 1\<rparr>"
  have t: "expiration ?t = time" "bsetup (tq s)" using assms(1) by (simp_all add: new_Timer_def tm_inv_def)
  from insert_step [OF assms(1), of p ?t clk ?q] assms(2) t obtain b q' where
    "tq_insert p ?q = Inr (b, q')" "timers q' p = Some ?t" "tm_inv p0 z dcb (after clk (alarm s) (if b then resetTimerFd clk time q' else q'))"
    unfolding t(1) by auto
  then show ?thesis by (auto simp: addTimer_def indexCreate_def Let_def)
qed

lemma add_ptr_step:
  assumes "tm_inv p0 z dcb s" and "tm_ok p0 z (AddPtr p tmer clk) s"
  shows "\<exists>t. tm_exec (AddPtr p tmer clk) s = Some (Inr t) \<and> tm_inv p0 z dcb t"
proof -
  let ?q = "unset (tq s)\<lparr>timers := (timers (tq s))(p \<mapsto> tmer)\<rparr>"
  have "bsetup (tq s)" using assms(1) by (simp add: tm_inv_def)
  with insert_step [OF assms(1), of p tmer clk ?q] assms(2) obtain b q' where
    "tq_insert p ?q = Inr (b, q')" "timers q' p = Some tmer"
    "tm_inv p0 z dcb (after clk (alarm s) (if b then resetTimerFd clk (expiration tmer) q' else q'))"
    by auto
  then show ?thesis by (auto simp: addTimer_ptr_def)
qed

section \<open>Deleting and firing\<close>

text \<open>After a step that has set the descriptor for the head of the set, the alarm is right.\<close>

lemma reset_ok:
  assumes "bsetup r" and "q = resetTimerFd clk (fst (hd (timerLists q))) r"
  shows "\<exists>a'. alarm (after clk a q) = Some a' \<and> alarm_ok z (usec clk) q a'" and "bsetup q"
proof -
  from reset_alarm [OF assms(1), of clk a "fst (hd (timerLists q))"] assms(2)
  have "alarm (after clk a q) = Some (max (head_time q) (usec clk + 100))" by (simp add: head_time_def)
  then show "\<exists>a'. alarm (after clk a q) = Some a' \<and> alarm_ok z (usec clk) q a'" by (simp add: alarm_ok_def)
  show "bsetup q" by (subst assms(2)) simp
qed

lemma after_fields [simp]: "tq (after clk a q) = q" "clock (after clk a q) = usec clk"
  by (simp_all add: after_def)

lemma delTimerInLoop_cases:
  assumes "timerLists (delTimerInLoop clk tid q) \<noteq> []"
  shows "delTimerInLoop clk tid q = q \<or>
     (\<exists>r. bsetup r = bsetup q \<and> delTimerInLoop clk tid q = resetTimerFd clk (fst (hd (timerLists (delTimerInLoop clk tid q)))) r)"
proof (cases "dropWhile (\<lambda>e. snd e \<noteq> snd tid) (timerLists q)")
  case Nil
  then have "delTimerInLoop clk tid q = q" by (simp only: delTimerInLoop_def list.case)
  then show ?thesis by (rule disjI1)
next
  case (Cons e rest)
  define r where "r = q\<lparr>timers := (timers q)(snd e := None), timerLists := takeWhile (\<lambda>e. snd e \<noteq> snd tid) (timerLists q) @ rest\<rparr>"
  have "delTimerInLoop clk tid q = (if timerLists r = [] then r else resetTimerFd clk (fst (hd (timerLists r))) r)"
    by (simp only: delTimerInLoop_def Cons list.case Let_def r_def)
  with assms have "delTimerInLoop clk tid q = resetTimerFd clk (fst (hd (timerLists (delTimerInLoop clk tid q)))) r"
    by (cases "timerLists r = []") simp_all
  moreover have "bsetup r = bsetup q" by (simp add: r_def)
  ultimately show ?thesis by blast
qed

lemma del_step:
  assumes "tm_inv p0 z dcb s" and "tm_ok p0 z (Del tid clk) s"
  shows "\<exists>t. tm_exec (Del tid clk) s = Some (Inr t) \<and> tm_inv p0 z dcb t"
proof -
  let ?q = "unset (tq s)"
  define q where "q = delTimerInLoop clk tid ?q"
  from assms(1) obtain a where inv: "tq_inv ?q" "bsetup ?q" "(z, p0) \<in> set (timerLists ?q)" "\<exists>i. timers ?q p0 = Some (new_Timer dcb i z 0 False)"
    "alarm s = Some a" "alarm_ok z (clock s) (tq s) a" by (auto simp: tm_inv_def)
  from delTimerInLoop_spec [OF inv(1), of clk "fst tid" "snd tid"] have
    d: "tq_inv q" "set (timerLists q) = {e \<in> set (timerLists ?q). snd e \<noteq> snd tid}" "\<And>p'. p' \<noteq> snd tid \<Longrightarrow> timers q p' = timers ?q p'"
    by (simp_all add: q_def)
  have tid: "snd tid \<noteq> p0" "clock s \<le> usec clk" using assms(2) by simp_all
  then have z: "(z, p0) \<in> set (timerLists q)" "\<exists>i. timers q p0 = Some (new_Timer dcb i z 0 False)" using inv(3,4) d(2,3) by auto
  then have "timerLists q \<noteq> []" by auto
  from delTimerInLoop_cases [of clk tid ?q, folded q_def, OF this]
  have "(\<exists>a'. alarm (after clk (alarm s) q) = Some a' \<and> alarm_ok z (usec clk) q a') \<and> bsetup q"
  proof
    assume same: "q = ?q"
    have "alarm (after clk (alarm s) ?q) = Some a" using inv(5) by (simp add: after_def)
    moreover have "alarm_ok z (usec clk) ?q a" using inv(6) tid(2) by (auto simp: alarm_ok_def head_time_def le_max_iff_disj)
    ultimately show ?thesis using inv(2) unfolding same by blast
  next
    assume "\<exists>r. bsetup r = bsetup ?q \<and> q = resetTimerFd clk (fst (hd (timerLists q))) r"
    then obtain r where "bsetup r" "q = resetTimerFd clk (fst (hd (timerLists q))) r" using inv(2) by auto
    from reset_ok [OF this] show ?thesis by blast
  qed
  with d(1) z have "tm_inv p0 z dcb (after clk (alarm s) q)" by (simp add: tm_inv_def)
  then show ?thesis by (simp add: q_def)
qed

text \<open>The handler finds the head due and the constructor's timer not due.\<close>

lemma fire_result:
  assumes "tm_inv p0 z dcb s" and "tm_ok p0 z (Fire evtime clk clk') s"
  shows "\<exists>q. tm_exec (Fire evtime clk clk') s = Some (Inr (after clk' None q)) \<and> tm_inv p0 z dcb (after clk' None q) \<and>
     filter (due evtime) (timerLists (tq s)) \<noteq> [] \<and>
     started q = started (tq s) @ map (\<lambda>e. timerCallback (the (timers (tq s) (snd e)))) (filter (due evtime) (timerLists (tq s)))"
proof -
  let ?q = "unset (tq s)"
  from assms(1) obtain a i where inv: "tq_inv ?q" "bsetup ?q" "(z, p0) \<in> set (timerLists ?q)" "timers ?q p0 = Some (new_Timer dcb i z 0 False)"
    "alarm s = Some a" "alarm_ok z (clock s) (tq s) a" by (auto simp: tm_inv_def)
  from assms(2) inv(5) have t: "a \<le> usec evtime" "usec evtime + 1000000 < usec z" by simp_all
  have z: "\<not> due evtime (z, p0)" using t(2) by (simp add: due_def less_eq_Timestamp_def)
  obtain h hs where h: "timerLists ?q = h # hs" using inv(3) by (cases "timerLists ?q") auto
  have hd: "due evtime h" using inv(6) t h by (auto simp: due_def less_eq_Timestamp_def alarm_ok_def head_time_def)
  have "\<exists>e \<in> set (timerLists ?q). due evtime e" "\<exists>e \<in> set (timerLists ?q). \<not> due evtime e" using hd h z inv(3) by auto
  from eventRead_expiry [OF inv(1) this(2,1), of clk clk'] obtain q r where q: "eventRead clk clk' evtime ?q = Inr q" "tq_inv q"
    "started q = started ?q @ map (\<lambda>e. timerCallback (the (timers ?q (snd e)))) (filter (due evtime) (timerLists ?q))"
    "{e \<in> set (timerLists ?q). \<not> due evtime e} \<subseteq> set (timerLists q)"
    "\<And>e. e \<in> set (timerLists ?q) \<Longrightarrow> \<not> due evtime e \<Longrightarrow> timers q (snd e) = timers ?q (snd e)"
    "bsetup r" "q = resetTimerFd clk' (fst (hd (timerLists q))) r"
    using inv(2) by auto
  have "(z, p0) \<in> set (timerLists q)" "timers q p0 = Some (new_Timer dcb i z 0 False)" using q(4) q(5) [of "(z, p0)"] inv(3,4) z by auto
  with q(2) reset_ok(1) [OF q(6,7), of None z] reset_ok(2) [OF q(6,7)] have "tm_inv p0 z dcb (after clk' None q)" by (auto simp: tm_inv_def)
  with q(1,3) hd h show ?thesis by auto
qed

interpretation timer_queue: guarded_steps tm_exec "tm_ok p0 z" "tm_inv p0 z dcb" "\<lambda>_. {} :: nat set" "\<lambda>_. {}"
  for p0 z dcb
proof
  fix a and s :: "'a timer_sys"
  assume inv: "tm_inv p0 z dcb s" and ok: "tm_ok p0 z a s"
  have "\<exists>t. tm_exec a s = Some (Inr t) \<and> tm_inv p0 z dcb t"
  proof (cases a)
    case (Fire evtime clk clk')
    then show ?thesis using fire_result [OF inv] ok by blast
  next
    case Add
    then show ?thesis using add_step [OF inv] ok by blast
  next
    case AddPtr
    then show ?thesis using add_ptr_step [OF inv] ok by blast
  next
    case Del
    then show ?thesis using del_step [OF inv] ok by blast
  qed
  then show "\<exists>t. tm_exec a s = Some (Inr t) \<and> tm_inv p0 z dcb t \<and> {} = {} \<union> {}" by simp
qed

section \<open>From the constructor\<close>

definition tm_start :: "Timestamp \<Rightarrow> 'cb TimerQueue \<Rightarrow> 'cb timer_sys" where
  "tm_start clk q = after clk None q"

text \<open>The instant of the constructor's own timer.\<close>

definition year_end :: "Timestamp \<Rightarrow> Timestamp" where
  "year_end clk = addSeconds clk (24 * 3600 * 365)"

lemma usec_year_end: "usec (year_end clk) = usec clk + 31536000 * 1000000"
  by (simp add: year_end_def)

lemma tm_inv_start:
  assumes "new_TimerQueue clk clk' p0 dcb setup idx = Inr q" and "valid clk" and "clk \<le> clk'" and "p0 < UINTPTR_MAX"
    and "usec clk' < usec (year_end clk)"
  shows "tm_inv p0 (year_end clk) dcb (tm_start clk' q)"
proof -
  let ?z = "year_end clk"
  have "valid ?z" using assms(2) usec_year_end [of clk] by (simp add: valid_def)
  then have q: "q = resetTimerFd clk' ?z \<lparr>timerLists = [(?z, p0)], timers = [p0 \<mapsto> new_Timer dcb idx ?z 0 False], timerfd = None,
      bsetup = setup, sIndexNum = idx + 1, started = []\<rparr>"
    using assms(1) unfolding new_TimerQueue_def year_end_def [symmetric]
    by (simp add: addTimer_def indexCreate_def tq_insert_def Let_def new_Timer_def insort_insert_key_def)
  have "fires_at clk' (AbsTime (c_div (usec ?z) csMicrosecondsPerSecond)) = usec ?z div 1000000 * 1000000"
    using \<open>valid ?z\<close> by (simp add: fires_at_def valid_def csMicrosecondsPerSecond_def)
  moreover have "usec ?z - 1000000 \<le> usec ?z div 1000000 * 1000000" "usec ?z div 1000000 * 1000000 \<le> usec ?z" by linarith+
  ultimately have "\<exists>a. alarm (after clk' None q) = Some a \<and> alarm_ok ?z (usec clk') q a"
    unfolding q by (cases "setup") (simp_all add: after_def resetTimerFd_def fires_howMuch alarm_ok_def head_time_def)
  moreover have "tq_inv q" using \<open>valid ?z\<close> assms(4) unfolding q by (simp add: tq_inv_def entry_ok_def new_Timer_def)
  moreover have "bsetup q" "(?z, p0) \<in> set (timerLists q)" "timers q p0 = Some (new_Timer dcb idx ?z 0 False)" by (simp_all add: q)
  ultimately show ?thesis by (auto simp: tm_inv_def tm_start_def)
qed

abbreviation callbacks :: "Timestamp \<Rightarrow> 'cb TimerQueue \<Rightarrow> 'cb list" where
  "callbacks evtime q \<equiv> map (\<lambda>e. timerCallback (the (timers q (snd e)))) (filter (due evtime) (timerLists q))"

text \<open>
  C14. No timer is lost in the first year: whatever timers are added, deleted and restarted, in any order, no step
  fails, the descriptor becomes readable when the earliest timer is due or 100 microseconds after the
  last call, and when it is readable the handler starts exactly the callbacks of the timers that are due, in the
  order of their times, and there is at least one.
\<close>

theorem timers_never_lost:
  assumes "new_TimerQueue clk clk' p0 dcb setup idx = Inr q" and "valid clk" and "clk \<le> clk'" and "p0 < UINTPTR_MAX"
    and "clk' < year_end clk" and "all_ok tm_exec (tm_ok p0 (year_end clk)) as (tm_start clk' q)"
  shows "\<exists>t a. tm_run as (tm_start clk' q) = Some (Inr t) \<and> timerLists (tq t) \<noteq> [] \<and>
     alarm t = Some a \<and> a \<le> max (usec (fst (hd (timerLists (tq t))))) (clock t + 100) \<and>
     (\<forall>ev clk1 clk2. a \<le> usec ev \<longrightarrow> clock t \<le> usec ev \<longrightarrow> ev \<le> clk2 \<longrightarrow> usec ev + 1000000 < usec (year_end clk) \<longrightarrow>
        (\<exists>u. tm_exec (Fire ev clk1 clk2) t = Some (Inr u) \<and>
           started (tq u) = started (tq t) @ callbacks ev (tq t) \<and> callbacks ev (tq t) \<noteq> []))"
proof -
  let ?z = "year_end clk"
  have "tm_inv p0 ?z dcb (tm_start clk' q)"
    using tm_inv_start [OF assms(1-4)] assms(5) by (simp add: less_Timestamp_def timestamp_less_def)
  from timer_queue.run [OF this assms(6)] obtain t where t: "tm_run as (tm_start clk' q) = Some (Inr t)" "tm_inv p0 ?z dcb t" by blast
  then obtain a where a: "alarm t = Some a" "alarm_ok ?z (clock t) (tq t) a" "(?z, p0) \<in> set (timerLists (tq t))"
    by (auto simp: tm_inv_def)
  have "\<exists>u. tm_exec (Fire ev clk1 clk2) t = Some (Inr u) \<and> started (tq u) = started (tq t) @ callbacks ev (tq t) \<and> callbacks ev (tq t) \<noteq> []"
    if "a \<le> usec ev" "clock t \<le> usec ev" "ev \<le> clk2" "usec ev + 1000000 < usec ?z" for ev clk1 clk2
  proof -
    have "tm_ok p0 ?z (Fire ev clk1 clk2) t" using that a(1) by (simp add: less_eq_Timestamp_def)
    from fire_result [OF t(2) this] show ?thesis by (auto simp del: tm_exec.simps)
  qed
  with t(1) a show ?thesis by (intro exI [of _ t] exI [of _ a]) (auto simp: alarm_ok_def head_time_def simp del: tm_exec.simps)
qed

text \<open>A queue made at 10 seconds, and a repeating timer due every two seconds from second 12.\<close>

definition demo_tq :: "string TimerQueue" where
  "demo_tq = (case new_TimerQueue (Timestamp 10000000) (Timestamp 10000000) 5 ''assert(0)'' False 0 of Inr q \<Rightarrow> q)"

lemma demo_tq: "new_TimerQueue (Timestamp 10000000) (Timestamp 10000000) 5 ''assert(0)'' False 0 = Inr demo_tq"
  by (simp add: demo_tq_def new_TimerQueue_def addTimer_def indexCreate_def tq_insert_def Let_def valid_def new_Timer_def)

definition demo_timer :: "string timer_op" where
  "demo_timer = Add 7 (Timestamp 12000000) ''tick'' 2 True (Timestamp 10000001)"

lemma demo_timer_ok: "all_ok tm_exec (tm_ok 5 (year_end (Timestamp 10000000))) [demo_timer] (tm_start (Timestamp 10000000) demo_tq)"
  using demo_tq
  by (auto simp: demo_timer_def tm_start_def demo_tq_def new_TimerQueue_def addTimer_def indexCreate_def tq_insert_def Let_def valid_def
      new_Timer_def UINTPTR_MAX_def resetTimerFd_def split: option.split sum.split)

theorem timers_never_lost_witness:
  "\<exists>t u. tm_run [demo_timer] (tm_start (Timestamp 10000000) demo_tq) = Some (Inr t) \<and>
     tm_exec (Fire (Timestamp 13000000) (\<lambda>_. Timestamp 13000000) (Timestamp 13000000)) t = Some (Inr u) \<and>
     started (tq u) = started (tq t) @ callbacks (Timestamp 13000000) (tq t) \<and> callbacks (Timestamp 13000000) (tq t) = [''tick'']"
proof -
  have y: "usec (year_end (Timestamp 10000000)) = 31536010000000" by (simp add: usec_year_end)
  have "valid (Timestamp 10000000)" "(5 :: nat) < UINTPTR_MAX" "Timestamp 10000000 < year_end (Timestamp 10000000)"
    using y by (simp_all add: valid_def UINTPTR_MAX_def less_Timestamp_def timestamp_less_def)
  from timers_never_lost [OF demo_tq this(1) _ this(2,3) demo_timer_ok] obtain t a where
    t: "tm_run [demo_timer] (tm_start (Timestamp 10000000) demo_tq) = Some (Inr t)"
      "alarm t = Some a" "a \<le> max (usec (fst (hd (timerLists (tq t))))) (clock t + 100)"
    and fire: "\<forall>ev clk1 clk2. a \<le> usec ev \<longrightarrow> clock t \<le> usec ev \<longrightarrow> ev \<le> clk2 \<longrightarrow> usec ev + 1000000 < 31536010000000 \<longrightarrow>
        (\<exists>u. tm_exec (Fire ev clk1 clk2) t = Some (Inr u) \<and>
           started (tq u) = started (tq t) @ callbacks ev (tq t) \<and> callbacks ev (tq t) \<noteq> [])"
    unfolding y by blast
  from t(1) have tq: "timerLists (tq t) = [(Timestamp 12000000, 7), (year_end (Timestamp 10000000), 5)]"
      "timers (tq t) 7 = Some (new_Timer ''tick'' 1 (Timestamp 12000000) 2 True)" "clock t = 10000001"
    by (auto simp: demo_timer_def tm_start_def demo_tq_def new_TimerQueue_def addTimer_def indexCreate_def tq_insert_def Let_def valid_def
        new_Timer_def resetTimerFd_def insort_insert_key_def year_end_def less_eq_prod_def less_Timestamp_def timestamp_less_def)
  have "callbacks (Timestamp 13000000) (tq t) = [''tick'']"
    using tq y by (simp add: due_def less_eq_Timestamp_def new_Timer_def)
  moreover from fire [rule_format, of "Timestamp 13000000" "Timestamp 13000000" "\<lambda>_. Timestamp 13000000"] t(3) tq
  obtain u where "tm_exec (Fire (Timestamp 13000000) (\<lambda>_. Timestamp 13000000) (Timestamp 13000000)) t = Some (Inr u)"
    "started (tq u) = started (tq t) @ callbacks (Timestamp 13000000) (tq t)" by (auto simp del: tm_exec.simps)
  ultimately show ?thesis using t(1) by (intro exI [of _ t] exI [of _ u] conjI)
qed

section \<open>When the year is over\<close>

text \<open>
  C36. A year after its construction the queue fails. When its handler runs then, one of two things happens: if
  a later timer is in the set, the constructor's own timer is due, and the callback that is started for it asserts;
  if not, all timers are due and none of them is started, they stay in the set, and the descriptor is not set
  again.
\<close>

theorem year_end_fails:
  assumes "new_TimerQueue clk clk' p0 dcb setup idx = Inr q" and "valid clk" and "clk \<le> clk'" and "p0 < UINTPTR_MAX"
    and "clk' < year_end clk" and "all_ok tm_exec (tm_ok p0 (year_end clk)) as (tm_start clk' q)" and "year_end clk \<le> ev"
  shows "\<exists>t u. tm_run as (tm_start clk' q) = Some (Inr t) \<and> tm_exec (Fire ev clk1 clk2) t = Some (Inr u) \<and>
     (if \<exists>e \<in> set (timerLists (tq t)). ev < fst e
      then dcb \<in> set (drop (length (started (tq t))) (started (tq u)))
      else started (tq u) = started (tq t) \<and> timerLists (tq u) = timerLists (tq t) \<and> alarm u = None)"
proof -
  let ?z = "year_end clk"
  have "tm_inv p0 ?z dcb (tm_start clk' q)"
    using tm_inv_start [OF assms(1-4)] assms(5) by (simp add: less_Timestamp_def timestamp_less_def)
  from timer_queue.run [OF this assms(6)] obtain t where t: "tm_run as (tm_start clk' q) = Some (Inr t)" "tm_inv p0 ?z dcb t" by blast
  then obtain i where inv: "tq_inv (unset (tq t))" "(?z, p0) \<in> set (timerLists (unset (tq t)))"
    "timers (tq t) p0 = Some (new_Timer dcb i ?z 0 False)"
    by (auto simp: tm_inv_def)
  have z: "due ev (?z, p0)" using assms(7) by (simp add: due_def)
  show ?thesis
  proof (cases "\<exists>e \<in> set (timerLists (tq t)). ev < fst e")
    case True
    then have "\<exists>e \<in> set (timerLists (unset (tq t))). \<not> due ev e" by (simp add: due_def not_le)
    moreover have "\<exists>e \<in> set (timerLists (unset (tq t))). due ev e" using inv(2) z by blast
    ultimately obtain r where r: "eventRead clk1 clk2 ev (unset (tq t)) = Inr r" "started r = started (tq t) @ callbacks ev (tq t)"
      using eventRead_expiry [OF inv(1), of ev clk1 clk2] by auto
    have "(?z, p0) \<in> set (filter (due ev) (timerLists (tq t)))" using inv(2) z by simp
    then have "timerCallback (the (timers (tq t) (snd (?z, p0)))) \<in> set (callbacks ev (tq t))" unfolding set_map by (rule imageI)
    then have "dcb \<in> set (callbacks ev (tq t))" using inv(3) by (simp add: new_Timer_def)
    with t(1) r True show ?thesis by (intro exI [of _ t] exI [of _ "after clk2 None r"]) (simp del: set_map)
  next
    case False
    have ne: "timerLists (unset (tq t)) \<noteq> []" using inv(2) by auto
    have "eventRead clk1 clk2 ev (unset (tq t)) = Inr (unset (tq t))"
      by (rule eventRead_nothing [OF inv(1) ne]) (use False in \<open>auto simp: due_def not_less\<close>)
    with t(1) False show ?thesis
      by (intro exI [of _ t] exI [of _ "after clk2 None (unset (tq t))"]) (simp add: after_def)
  qed
qed

theorem year_end_fails_witness:
  "\<exists>t u. tm_run [demo_timer] (tm_start (Timestamp 10000000) demo_tq) = Some (Inr t) \<and>
     tm_exec (Fire (Timestamp 31536010000001) (\<lambda>_. Timestamp 31536010000001) (Timestamp 31536010000001)) t = Some (Inr u) \<and>
     (if \<exists>e \<in> set (timerLists (tq t)). Timestamp 31536010000001 < fst e
      then ''assert(0)'' \<in> set (drop (length (started (tq t))) (started (tq u)))
      else started (tq u) = started (tq t) \<and> timerLists (tq u) = timerLists (tq t) \<and> alarm u = None)"
proof -
  have y: "usec (year_end (Timestamp 10000000)) = 31536010000000" by (simp add: usec_year_end)
  have "valid (Timestamp 10000000)" "(5 :: nat) < UINTPTR_MAX" "Timestamp 10000000 < year_end (Timestamp 10000000)"
    "year_end (Timestamp 10000000) \<le> Timestamp 31536010000001"
    using y by (simp_all add: valid_def UINTPTR_MAX_def less_Timestamp_def timestamp_less_def less_eq_Timestamp_def)
  from year_end_fails [OF demo_tq this(1) _ this(2,3) demo_timer_ok this(4)] show ?thesis by simp
qed

end
