(* ===== verification/SharedLoop.thy ===== *)
theory SharedLoop
  imports ClientEndpoint ConnectionRuns ReactorLoop Runs
begin

text \<open>
  Many connections on one reactor. The model of a connection has a list of posted tasks of its own, while in the
  code the tasks of all connections are bound functions in the one list of their reactor, which other
  threads fill while the loop thread runs. Here are both, and the second is shown to implement the first.
\<close>

section \<open>The system\<close>

text \<open>A bound function is the connection and what is called on it. The connections themselves hold no tasks.\<close>

record loop_conns =
  reactor :: "(nat \<times> conn_task) Reactor"
  conns :: "nat \<Rightarrow> NetConnection"

text \<open>
  \<open>Call\<close>: another thread calls an operation of a connection, up to the point where it has put the task into the
  list; \<open>Own\<close>: the loop thread, while it handles events, calls one or handles an event of the descriptor; \<open>Task\<close>:
  the loop thread runs the next bound function, with the answers of the kernel; \<open>Loop\<close>: any other action
  of the reactor. In a call the test of \<^verbatim>\<open>state_\<close> and the insertion into the list are one step.
\<close>

datatype loop_act =
    Call nat nat conn_op
  | Own nat conn_op
  | Task "errno + nat" "errno option"
  | Loop "(nat \<times> conn_task) action"

fun off_loop :: "conn_op \<Rightarrow> bool" where
  "off_loop (DoSend il w m) \<longleftrightarrow> \<not> il"
| "off_loop (DoClose il) \<longleftrightarrow> \<not> il"
| "off_loop (DoShutdown il r) \<longleftrightarrow> \<not> il"
| "off_loop _ \<longleftrightarrow> False"

fun on_loop :: "conn_op \<Rightarrow> bool" where
  "on_loop (DoTask w r) \<longleftrightarrow> False"
| "on_loop a \<longleftrightarrow> \<not> off_loop a"

fun own_action :: "'task action \<Rightarrow> bool" where
  "own_action (Post i f) \<longleftrightarrow> False"
| "own_action (Handler f) \<longleftrightarrow> False"
| "own_action RunTask \<longleftrightarrow> False"
| "own_action _ \<longleftrightarrow> True"

abbreviation rexec :: "(nat \<times> conn_task) action \<Rightarrow> (nat \<times> conn_task) Reactor \<Rightarrow> (nat \<times> conn_task) Reactor option" where
  "rexec \<equiv> exec (\<lambda>_. [])"

text \<open>The connection after a call, without the task, and the task in the list of the reactor.\<close>

definition set_conn :: "nat \<Rightarrow> NetConnection \<Rightarrow> loop_conns \<Rightarrow> loop_conns" where
  "set_conn p d s = s\<lparr>conns := (conns s)(p := d\<lparr>tasks := []\<rparr>)\<rparr>"

definition post_tasks :: "nat \<Rightarrow> nat \<Rightarrow> conn_task list \<Rightarrow> loop_conns \<Rightarrow> loop_conns" where
  "post_tasks i p ts s =
     (case ts of [] \<Rightarrow> s | t # _ \<Rightarrow> s\<lparr>reactor := (push_task (p, t) (reactor s))\<lparr>ext := (ext (reactor s))(i := XWrite)\<rparr>\<rparr>)"

fun lc_exec :: "(nat \<Rightarrow> byte) \<Rightarrow> loop_act \<Rightarrow> loop_conns \<Rightarrow> loop_conns res option" where
  "lc_exec junk (Call i p a) s =
     (if off_loop a \<and> ext (reactor s) i = XIdle
      then Some (res_bind (conn_exec junk a (conns s p)) (\<lambda>d. Inr (post_tasks i p (tasks d) (set_conn p d s)))) else None)"
| "lc_exec junk (Own p a) s =
     (case lpc (reactor s) of
        LHandle w \<Rightarrow> if on_loop a then Some (res_bind (conn_exec junk a (conns s p)) (\<lambda>d. Inr (set_conn p d s))) else None
      | _ \<Rightarrow> None)"
| "lc_exec junk (Task w r) s =
     (case batch (reactor s) of
        [] \<Rightarrow> None
      | (p, t) # _ \<Rightarrow> (case rexec RunTask (reactor s) of
          None \<Rightarrow> None
        | Some R \<Rightarrow> Some (res_bind (run_task junk w r ((conns s p)\<lparr>tasks := [t]\<rparr>)) (\<lambda>d. Inr (set_conn p d (s\<lparr>reactor := R\<rparr>))))))"
| "lc_exec junk (Loop a) s =
     (if own_action a then map_option (\<lambda>R. Inr (s\<lparr>reactor := R\<rparr>)) (rexec a (reactor s)) else None)"

text \<open>A step that is not possible in its state, or after the process has aborted, is \<open>None\<close>.\<close>

definition lc_act :: "(nat \<Rightarrow> byte) \<Rightarrow> loop_act \<Rightarrow> loop_conns \<Rightarrow> loop_conns res option" where
  "lc_act junk a s = (if aborted (reactor s) then None else lc_exec junk a s)"

abbreviation lc_run :: "(nat \<Rightarrow> byte) \<Rightarrow> loop_act list \<Rightarrow> loop_conns \<Rightarrow> loop_conns res option" where
  "lc_run junk \<equiv> steps (lc_act junk)"

section \<open>What one connection sees\<close>

definition queued :: "nat \<Rightarrow> (nat \<times> conn_task) Reactor \<Rightarrow> conn_task list" where
  "queued p R = map snd (filter (\<lambda>f. fst f = p) (batch R @ functorList R))"

definition view :: "nat \<Rightarrow> loop_conns \<Rightarrow> NetConnection" where
  "view p s = (conns s p)\<lparr>tasks := queued p (reactor s)\<rparr>"

fun seen :: "nat \<Rightarrow> loop_act \<Rightarrow> loop_conns \<Rightarrow> conn_op list" where
  "seen p (Call i q a) s = (if q = p then [a] else [])"
| "seen p (Own q a) s = (if q = p then [a] else [])"
| "seen p (Task w r) s = (case batch (reactor s) of (q, t) # _ \<Rightarrow> if q = p then [DoTask w r] else [] | [] \<Rightarrow> [])"
| "seen p (Loop a) s = []"

fun conn_ops :: "(nat \<Rightarrow> byte) \<Rightarrow> nat \<Rightarrow> loop_act list \<Rightarrow> loop_conns \<Rightarrow> conn_op list" where
  "conn_ops junk p [] s = []"
| "conn_ops junk p (a # as) s =
     seen p a s @ (case lc_act junk a s of Some (Inr t) \<Rightarrow> conn_ops junk p as t | _ \<Rightarrow> [])"

section \<open>Tasks that are waiting do not matter to the other operations\<close>

definition ahead :: "conn_task list \<Rightarrow> NetConnection \<Rightarrow> NetConnection" where
  "ahead ts c = c\<lparr>tasks := ts @ tasks c\<rparr>"

lemma ahead_fields [simp]:
  "event (ahead ts c) = event c" "onRead (ahead ts c) = onRead c" "onWrite (ahead ts c) = onWrite c"
  "readBuffer (ahead ts c) = readBuffer c" "writeBuffer (ahead ts c) = writeBuffer c" "state (ahead ts c) = state c"
  "connCallbackFunc (ahead ts c) = connCallbackFunc c" "msgRecvFunc (ahead ts c) = msgRecvFunc c"
  "writeCompleteFunc (ahead ts c) = writeCompleteFunc c" "closeFunc (ahead ts c) = closeFunc c"
  "tasks (ahead ts c) = ts @ tasks c" "out (ahead ts c) = out c"
  by (simp_all add: ahead_def)

lemma map_sum_res_bind: "map_sum id f (res_bind r g) = res_bind r (\<lambda>x. map_sum id f (g x))"
  by (rule map_sum_bind)

lemma ahead_updates:
  "(ahead ts c)\<lparr>event := e\<rparr> = ahead ts (c\<lparr>event := e\<rparr>)" "(ahead ts c)\<lparr>state := st\<rparr> = ahead ts (c\<lparr>state := st\<rparr>)"
  "(ahead ts c)\<lparr>readBuffer := b\<rparr> = ahead ts (c\<lparr>readBuffer := b\<rparr>)"
  "(ahead ts c)\<lparr>writeBuffer := b\<rparr> = ahead ts (c\<lparr>writeBuffer := b\<rparr>)"
  "emit xs (ahead ts c) = ahead ts (emit xs c)" "set_event h (ahead ts c) = ahead ts (set_event h c)"
  by (simp_all add: ahead_def emit_def set_event_def)

lemma handleClose_ahead: "handleClose (ahead ts c) = map_sum id (ahead ts) (handleClose c)"
  by (simp add: handleClose_def with_event_def Let_def ahead_updates split: option.split)

lemma handleError_ahead: "handleError (ahead ts c) = map_sum id (ahead ts) (handleError c)"
  by (simp add: handleError_def with_event_def split: option.split)

lemma handleRead_ahead: "handleRead junk r (ahead ts c) = map_sum id (ahead ts) (handleRead junk r c)"
  by (auto simp: handleRead_def with_event_def Let_def ahead_updates map_sum_res_bind handleClose_ahead handleError_ahead
      split: option.split prod.split intro!: arg_cong [where f = "res_bind _"])

lemma c_assert_map: "map_sum id f (c_assert b r) = c_assert b (map_sum id f r)"
  by (simp add: c_assert_def)

lemma handleWrite_ahead: "handleWrite w (ahead ts c) = map_sum id (ahead ts) (handleWrite w c)"
  by (auto simp: handleWrite_def with_event_def Let_def ahead_updates map_sum_res_bind c_assert_map
      split: option.split sum.split intro!: arg_cong [where f = "c_assert _"] arg_cong [where f = "res_bind _"])

lemma sendInReactor_ahead: "sendInReactor junk w m (ahead ts c) = map_sum id (ahead ts) (sendInReactor junk w m c)"
  by (auto simp: sendInReactor_def with_event_def Let_def ahead_updates map_sum_res_bind
      split: option.splits sum.splits intro!: arg_cong [where f = "res_bind _"])

lemma shutdownInReactor_ahead: "shutdownInReactor r (ahead ts c) = map_sum id (ahead ts) (shutdownInReactor r c)"
  by (simp add: shutdownInReactor_def with_event_def ahead_updates map_sum_res_bind split: option.split)

lemma connEstablished_ahead: "connEstablished (ahead ts c) = map_sum id (ahead ts) (connEstablished c)"
  by (simp add: connEstablished_def with_event_def Let_def ahead_updates split: option.split)

lemma guarded_ahead:
  assumes "\<And>c. f (ahead ts c) = map_sum id (ahead ts) (f c)" and "\<And>c. alive (ahead ts c) = alive c"
  shows "guarded b i f alive (ahead ts c) = map_sum id (ahead ts) (guarded b i f alive c)"
  using assms by (simp add: guarded_def)

lemma bind_ahead:
  assumes "r' = map_sum id (ahead ts) r" and "\<And>c. k (ahead ts c) = map_sum id (ahead ts) (k c)"
  shows "res_bind r' k = map_sum id (ahead ts) (res_bind r k)"
  using assms by (cases r) simp_all

lemma handEvent_ahead:
  assumes "\<And>x c. run x (ahead ts c) = map_sum id (ahead ts) (run x c)" and "\<And>c. alive (ahead ts c) = alive c"
  shows "handEvent h run alive (ahead ts c) = map_sum id (ahead ts) (handEvent h run alive c)"
  unfolding handEvent_def by (intro bind_ahead guarded_ahead assms) (simp add: assms)

lemma conn_event_ahead: "conn_event junk revs r w (ahead ts c) = map_sum id (ahead ts) (conn_event junk revs r w c)"
proof (cases "event c")
  case (Some e)
  let ?run = "\<lambda>call c. case call of ReadCall \<Rightarrow> conn_handler junk r w (onRead c) c
      | WriteCall \<Rightarrow> conn_handler junk r w (onWrite c) c | _ \<Rightarrow> Inr c"
  have "?run x (ahead ts c) = map_sum id (ahead ts) (?run x c)" for x c
    by (simp add: conn_handler_def handleRead_ahead handleWrite_ahead handleClose_ahead handleError_ahead
        split: ev_call.split handler_fn.split)
  from handEvent_ahead [where run = ?run, OF this] Some show ?thesis by (simp add: conn_event_def with_event_def)
qed (simp add: conn_event_def with_event_def)

text \<open>Every operation but the one that takes a task leaves the waiting tasks alone and puts its own behind them.\<close>

lemma conn_exec_ahead:
  assumes "on_loop a \<or> off_loop a"
  shows "conn_exec junk a (ahead ts c) = map_sum id (ahead ts) (conn_exec junk a c)"
  using assms by (cases a)
    (simp_all add: send_def forceClose_def shutdown_def Let_def connEstablished_ahead sendInReactor_ahead conn_event_ahead
       handleClose_ahead shutdownInReactor_ahead ahead_updates)

lemma run_task_ahead:
  "run_task junk w r (c\<lparr>tasks := t # ts\<rparr>) = map_sum id (ahead ts) (run_task junk w r (c\<lparr>tasks := [t]\<rparr>))"
proof -
  have c: "c\<lparr>tasks := ts\<rparr> = ahead ts (c\<lparr>tasks := []\<rparr>)" by (simp add: ahead_def)
  show ?thesis
    by (simp add: run_task_def c Let_def connEstablished_ahead sendInReactor_ahead handleClose_ahead shutdownInReactor_ahead
        split: conn_task.split)
qed

text \<open>What an operation leaves in the list of a connection that holds no tasks.\<close>

lemma no_tasks:
  "handleClose c = Inr d \<Longrightarrow> tasks d = tasks c" "handleError c = Inr d \<Longrightarrow> tasks d = tasks c"
  "connEstablished c = Inr d \<Longrightarrow> tasks d = tasks c" "shutdownInReactor r c = Inr d \<Longrightarrow> tasks d = tasks c"
  "sendInReactor junk w m c = Inr d \<Longrightarrow> tasks d = tasks c" "handleWrite w c = Inr d \<Longrightarrow> tasks d = tasks c"
  by (auto simp: handleClose_def handleError_def connEstablished_def shutdownInReactor_def sendInReactor_def handleWrite_def
      with_event_def Let_def res_bind_eq_Inr split: option.splits sum.splits if_splits)

lemma no_tasks_read: "handleRead junk r c = Inr d \<Longrightarrow> tasks d = tasks c"
  by (auto simp: handleRead_def with_event_def Let_def res_bind_eq_Inr dest!: no_tasks split: option.splits if_splits)

lemma no_tasks_handler: "conn_handler junk r w f c = Inr d \<Longrightarrow> tasks d = tasks c"
  by (cases f) (auto simp: conn_handler_def dest: no_tasks no_tasks_read)

lemma no_tasks_guarded:
  "guarded b i f alive c = Inr d \<Longrightarrow> (\<And>c d. f c = Inr d \<Longrightarrow> tasks d = tasks c) \<Longrightarrow> tasks d = tasks c"
  by (auto simp: guarded_def split: if_splits)

lemma no_tasks_event: "conn_event junk revs r w c = Inr d \<Longrightarrow> tasks d = tasks c"
  unfolding conn_event_def with_event_def handEvent_def
  by (auto simp: res_bind_eq_Inr split: option.splits if_splits ev_call.splits dest!: no_tasks_guarded intro: no_tasks_handler)

lemma on_loop_tasks:
  assumes "on_loop a" and "conn_exec junk a c = Inr d"
  shows "tasks d = tasks c"
  using assms by (cases a)
    (auto simp: send_def forceClose_def shutdown_def Let_def dest: no_tasks no_tasks_event split: if_splits dest!: no_tasks)

lemma off_loop_tasks:
  assumes "off_loop a" and "conn_exec junk a c = Inr d" and "tasks c = []"
  shows "tasks d = [] \<or> (\<exists>t. tasks d = [t])"
  using assms by (cases a) (auto simp: send_def forceClose_def shutdown_def Let_def split: if_splits)

lemma run_task_tasks: "run_task junk w r (c\<lparr>tasks := [t]\<rparr>) = Inr d \<Longrightarrow> tasks d = []"
  by (cases t) (auto simp: run_task_def dest!: no_tasks)

section \<open>The refinement\<close>

definition lc_inv :: "loop_conns \<Rightarrow> bool" where
  "lc_inv s \<longleftrightarrow> loop_inv (reactor s) \<and> (\<forall>p. tasks (conns s p) = [])"

definition start_loop :: "(nat \<Rightarrow> NetConnection) \<Rightarrow> loop_conns" where
  "start_loop cs = \<lparr>reactor = new_Reactor, conns = cs\<rparr>"

lemma lc_inv_start: "(\<And>p. tasks (cs p) = []) \<Longrightarrow> lc_inv (start_loop cs)"
  by (simp add: lc_inv_def start_loop_def)

lemma view_start: "(\<And>p. tasks (cs p) = []) \<Longrightarrow> view p (start_loop cs) = cs p"
  by (simp add: view_def start_loop_def queued_def new_Reactor_def)

lemma view_ahead: "tasks (conns s p) = [] \<Longrightarrow> view p s = ahead (queued p (reactor s)) (conns s p)"
  by (simp add: view_def ahead_def)

lemma conns_set_conn [simp]: "conns (set_conn p d s) = (conns s)(p := d\<lparr>tasks := []\<rparr>)" "reactor (set_conn p d s) = reactor s"
  by (simp_all add: set_conn_def)

lemma conns_post_tasks [simp]: "conns (post_tasks i p ts s) = conns s"
  by (simp add: post_tasks_def split: list.split)

lemma queued_post:
  assumes "ts = [] \<or> (\<exists>t. ts = [t])"
  shows "queued q (reactor (post_tasks i p ts s)) = queued q (reactor s) @ (if q = p then ts else [])"
  using assms by (auto simp: post_tasks_def queued_def push_task_def)

lemma post_tasks_inv:
  assumes "loop_inv (reactor s)" and "ext (reactor s) i = XIdle" and "\<not> aborted (reactor s)"
  shows "loop_inv (reactor (post_tasks i p ts s))"
proof (cases ts)
  case (Cons t us)
  have "rexec (Post i (p, t)) (reactor s) = Some (reactor (post_tasks i p ts s))"
    using Cons assms(2) by (simp add: post_tasks_def)
  from exec_inv [OF assms(1) this assms(3)] show ?thesis .
qed (use assms in \<open>simp add: post_tasks_def\<close>)

lemma own_action_queued:
  assumes "own_action a" and "rexec a R = Some R'" and "loop_inv R"
  shows "batch R' @ functorList R' = batch R @ functorList R"
proof -
  have "lpc R \<noteq> LRun \<Longrightarrow> batch R = []" using assms(3) by (simp add: loop_inv_def)
  with assms(1,2) show ?thesis
    by (cases a) (auto simp: eventfdWrite_def eventfdRead_def split: if_splits loop_pc.splits)
qed

lemma conn_run_single:
  "conn_exec junk a c = Inr d \<Longrightarrow> \<exists>ms. conn_run junk [a] c = Inr (ms, d)"
  "conn_exec junk a c = Inl e \<Longrightarrow> conn_run junk [a] c = Inl e"
  by simp_all

text \<open>
  One step of the system is one step of one connection, with the same outcome, or a step that no connection sees.
\<close>

lemma call_off_step:
  assumes "lc_inv s" and "lc_act junk (Call i q a) s = Some r"
  shows "case r of Inr t \<Rightarrow> lc_inv t \<and> (\<forall>p. \<exists>ms. conn_run junk (seen p (Call i q a) s) (view p s) = Inr (ms, view p t))
     | Inl e \<Rightarrow> conn_run junk (seen q (Call i q a) s) (view q s) = Inl e"
proof -
  from assms have en: "off_loop a" "ext (reactor s) i = XIdle" "\<not> aborted (reactor s)" and inv: "loop_inv (reactor s)" "\<And>p. tasks (conns s p) = []"
    and r: "r = res_bind (conn_exec junk a (conns s q)) (\<lambda>d. Inr (post_tasks i q (tasks d) (set_conn q d s)))"
    by (auto simp: lc_act_def lc_inv_def split: if_splits)
  have ah: "conn_exec junk a (view q s) = map_sum id (ahead (queued q (reactor s))) (conn_exec junk a (conns s q))"
    using conn_exec_ahead [of a] en(1) view_ahead [OF inv(2)] by simp
  show ?thesis
  proof (cases "conn_exec junk a (conns s q)")
    case (Inl e)
    with ah r conn_run_single(2) show ?thesis by simp
  next
    case (Inr d)
    let ?t = "post_tasks i q (tasks d) (set_conn q d s)"
    have ts: "tasks d = [] \<or> (\<exists>t. tasks d = [t])" by (rule off_loop_tasks [OF en(1) Inr inv(2)])
    have "lc_inv ?t" using post_tasks_inv [of "set_conn q d s" i q "tasks d"] inv en by (auto simp: lc_inv_def)
    moreover have "view q ?t = ahead (queued q (reactor s)) d"
      using queued_post [OF ts, of q i q "set_conn q d s"] by (simp add: view_def ahead_def)
    moreover have "view p ?t = view p s" if "p \<noteq> q" for p
      using queued_post [OF ts, of p i q "set_conn q d s"] that by (simp add: view_def)
    ultimately show ?thesis using r Inr ah conn_run_single(1) by simp
  qed
qed

lemma call_own_step:
  assumes "lc_inv s" and "lc_act junk (Own q a) s = Some r"
  shows "case r of Inr t \<Rightarrow> lc_inv t \<and> (\<forall>p. \<exists>ms. conn_run junk (seen p (Own q a) s) (view p s) = Inr (ms, view p t))
     | Inl e \<Rightarrow> conn_run junk (seen q (Own q a) s) (view q s) = Inl e"
proof -
  from assms have en: "on_loop a" and inv: "loop_inv (reactor s)" "\<And>p. tasks (conns s p) = []"
    and r: "r = res_bind (conn_exec junk a (conns s q)) (\<lambda>d. Inr (set_conn q d s))"
    by (auto simp: lc_act_def lc_inv_def split: if_splits loop_pc.splits)
  have ah: "conn_exec junk a (view q s) = map_sum id (ahead (queued q (reactor s))) (conn_exec junk a (conns s q))"
    using conn_exec_ahead [of a] en view_ahead [OF inv(2)] by simp
  show ?thesis
  proof (cases "conn_exec junk a (conns s q)")
    case (Inl e)
    with ah r conn_run_single(2) show ?thesis by simp
  next
    case (Inr d)
    have "tasks d = []" using on_loop_tasks [OF en Inr] inv(2) by simp
    then have "view q (set_conn q d s) = ahead (queued q (reactor s)) d" by (simp add: view_def ahead_def)
    moreover have "view p (set_conn q d s) = view p s" if "p \<noteq> q" for p using that by (simp add: view_def)
    moreover have "lc_inv (set_conn q d s)" using inv by (simp add: lc_inv_def)
    ultimately show ?thesis using r Inr ah conn_run_single(1) by simp
  qed
qed

lemma run_next_step:
  assumes "lc_inv s" and "lc_act junk (Task w k) s = Some r"
  shows "case r of Inr t \<Rightarrow> lc_inv t \<and> (\<forall>p. \<exists>ms. conn_run junk (seen p (Task w k) s) (view p s) = Inr (ms, view p t))
     | Inl e \<Rightarrow> \<exists>q. conn_run junk (seen q (Task w k) s) (view q s) = Inl e"
proof -
  from assms(2) obtain q t fs R where b: "batch (reactor s) = (q, t) # fs" "rexec RunTask (reactor s) = Some R" "\<not> aborted (reactor s)"
    and r: "r = res_bind (run_task junk w k ((conns s q)\<lparr>tasks := [t]\<rparr>)) (\<lambda>d. Inr (set_conn q d (s\<lparr>reactor := R\<rparr>)))"
    by (auto simp: lc_act_def split: if_splits list.splits option.splits)
  from assms(1) have inv: "loop_inv (reactor s)" "\<And>p. tasks (conns s p) = []" by (simp_all add: lc_inv_def)
  have R: "batch R = fs" "functorList R = functorList (reactor s)" "loop_inv R"
    using b exec_inv [OF inv(1) b(2,3)] by (auto split: if_splits)
  have q: "queued p (reactor s) = (if p = q then t # queued p R else queued p R)" for p
    using b R by (simp add: queued_def)
  have "view q s = (conns s q)\<lparr>tasks := t # queued q R\<rparr>" unfolding view_def q by simp
  then have ah: "conn_exec junk (DoTask w k) (view q s) =
      map_sum id (ahead (queued q R)) (run_task junk w k ((conns s q)\<lparr>tasks := [t]\<rparr>))"
    by (simp only: conn_exec.simps) (rule run_task_ahead)
  show ?thesis
  proof (cases "run_task junk w k ((conns s q)\<lparr>tasks := [t]\<rparr>)")
    case (Inl e)
    with ah r b(1) conn_run_single(2) [of junk "DoTask w k"] show ?thesis by (auto intro: exI [of _ q])
  next
    case (Inr d)
    let ?t = "set_conn q d (s\<lparr>reactor := R\<rparr>)"
    have "tasks d = []" by (rule run_task_tasks [OF Inr])
    then have "view q ?t = ahead (queued q R) d" by (simp add: view_def ahead_def)
    moreover have "view p ?t = view p s" if "p \<noteq> q" for p using that q by (simp add: view_def)
    moreover have "lc_inv ?t" using inv R(3) by (simp add: lc_inv_def)
    ultimately show ?thesis using r Inr ah b(1) conn_run_single(1) [of junk "DoTask w k"] by simp
  qed
qed

lemma loop_other_step:
  assumes "lc_inv s" and "lc_act junk (Loop a) s = Some r"
  shows "\<exists>t. r = Inr t \<and> lc_inv t \<and> (\<forall>p. view p t = view p s)"
proof -
  from assms(2) obtain R where R: "own_action a" "rexec a (reactor s) = Some R" "r = Inr (s\<lparr>reactor := R\<rparr>)" "\<not> aborted (reactor s)"
    by (auto simp: lc_act_def split: if_splits)
  from assms(1) have inv: "loop_inv (reactor s)" "\<And>p. tasks (conns s p) = []" by (simp_all add: lc_inv_def)
  have "queued p R = queued p (reactor s)" for p unfolding queued_def own_action_queued [OF R(1,2) inv(1)] ..
  then have "lc_inv (s\<lparr>reactor := R\<rparr>) \<and> (\<forall>p. view p (s\<lparr>reactor := R\<rparr>) = view p s)"
    using exec_inv [OF inv(1) R(2,4)] inv(2) by (simp add: lc_inv_def view_def)
  with R(3) show ?thesis by blast
qed

lemma lc_step:
  assumes "lc_inv s" and "lc_act junk a s = Some r"
  shows "case r of Inr t \<Rightarrow> lc_inv t \<and> (\<forall>p. \<exists>ms. conn_run junk (seen p a s) (view p s) = Inr (ms, view p t))
     | Inl e \<Rightarrow> \<exists>q. conn_run junk (seen q a s) (view q s) = Inl e"
proof (cases a)
  case (Call i q b)
  then show ?thesis using call_off_step [OF assms(1)] assms(2) by (cases r) fastforce+
next
  case (Own q b)
  then show ?thesis using call_own_step [OF assms(1)] assms(2) by (cases r) fastforce+
next
  case (Task w k)
  then show ?thesis using run_next_step [OF assms(1)] assms(2) by blast
next
  case (Loop b)
  with assms(2) loop_other_step [OF assms(1), of junk b r] obtain t where "r = Inr t" "lc_inv t" "\<forall>p. view p t = view p s" by blast
  with Loop show ?thesis by simp
qed

lemma conn_run_append:
  "conn_run junk (as @ bs) c =
     res_bind (conn_run junk as c) (\<lambda>(ms, d). res_bind (conn_run junk bs d) (\<lambda>(ns, e). Inr (ms @ ns, e)))"
proof (induction as arbitrary: c)
  case Nil
  then show ?case by (cases "conn_run junk bs c") auto
next
  case (Cons a as)
  show ?case
  proof (cases "conn_exec junk a c")
    case (Inr d)
    with Cons.IH show ?thesis
      by (cases "conn_run junk as d") (auto simp: res_bind_assoc split: prod.split sum.split intro!: arg_cong [where f = "res_bind _"])
  qed simp
qed

lemma conn_run_then:
  assumes "conn_run junk as c = Inr (ms, d)"
  shows "(\<exists>ns. conn_run junk (as @ bs) c = Inr (ns, e)) \<longleftrightarrow> (\<exists>ns. conn_run junk bs d = Inr (ns, e))"
    and "conn_run junk (as @ bs) c = Inl f \<longleftrightarrow> conn_run junk bs d = Inl f"
  using assms by (cases "conn_run junk bs d"; auto simp: conn_run_append)+

lemma lc_run_view:
  assumes "lc_inv s"
  shows "(\<forall>t. lc_run junk as s = Some (Inr t) \<longrightarrow>
       lc_inv t \<and> (\<forall>p. \<exists>ms. conn_run junk (conn_ops junk p as s) (view p s) = Inr (ms, view p t))) \<and>
     (\<forall>e. lc_run junk as s = Some (Inl e) \<longrightarrow> (\<exists>p. conn_run junk (conn_ops junk p as s) (view p s) = Inl e))"
  using assms
proof (induction as arbitrary: s)
  case (Cons a as)
  show ?case
  proof (cases "lc_act junk a s")
    case (Some r)
    note step = lc_step [OF Cons.prems Some]
    show ?thesis
    proof (cases r)
      case (Inl e)
      with step Some show ?thesis by (auto simp: conn_run_append)
    next
      case (Inr u)
      with step have u: "lc_inv u" "\<And>p. \<exists>ms. conn_run junk (seen p a s) (view p s) = Inr (ms, view p u)" by simp_all
      have c: "conn_ops junk p (a # as) s = seen p a s @ conn_ops junk p as u" for p using Some Inr by simp
      have l: "lc_run junk (a # as) s = lc_run junk as u" using Some Inr by simp
      show ?thesis
      proof (intro conjI allI impI)
        fix t p
        assume "lc_run junk (a # as) s = Some (Inr t)"
        with Cons.IH [OF u(1)] l show "lc_inv t" by simp
        from u(2) [of p] obtain ms where m: "conn_run junk (seen p a s) (view p s) = Inr (ms, view p u)" by blast
        from \<open>lc_run junk (a # as) s = Some (Inr t)\<close> l Cons.IH [OF u(1)]
        show "\<exists>ms. conn_run junk (conn_ops junk p (a # as) s) (view p s) = Inr (ms, view p t)"
          unfolding c conn_run_then(1) [OF m] by auto
      next
        fix e
        assume "lc_run junk (a # as) s = Some (Inl e)"
        with l Cons.IH [OF u(1)] obtain p where p: "conn_run junk (conn_ops junk p as u) (view p u) = Inl e" by auto
        from u(2) [of p] obtain ms where m: "conn_run junk (seen p a s) (view p s) = Inr (ms, view p u)" by blast
        from p show "\<exists>p. conn_run junk (conn_ops junk p (a # as) s) (view p s) = Inl e"
          unfolding c conn_run_then(2) [OF m, symmetric] by blast
      qed
    qed
  qed simp
qed (auto simp: view_def)


section \<open>A round writes what was posted\<close>

text \<open>The kernel takes each frame whole.\<close>

fun whole :: "conn_task \<Rightarrow> errno + nat" where
  "whole (SendTask m) = Inr (length m)"
| "whole _ = Inr 0"

definition serve_round :: "loop_conns \<Rightarrow> loop_act list" where
  "serve_round s =
     (let fs = functorList (reactor s) in
      [Loop Return] @ (if 0 < taskWakeup (reactor s) then [Loop Wake] else []) @ [Loop Handled, Loop Check] @
      (if fs = [] then [] else [Loop Swap] @ map (\<lambda>f. Task (whole (snd f)) None) fs @ [Loop Done]))"

definition open_idle :: "NetConnection \<Rightarrow> bool" where
  "open_idle c \<longleftrightarrow> conn_inv c \<and> state c = eConnected \<and> content (writeBuffer c) = []"

lemma open_idle_tasks [simp]: "open_idle (c\<lparr>tasks := ts\<rparr>) = open_idle c"
  by (simp add: open_idle_def conn_inv_def)

definition sends_to :: "(nat \<Rightarrow> NetConnection) \<Rightarrow> nat \<times> conn_task \<Rightarrow> bool" where
  "sends_to cs f \<longleftrightarrow> open_idle (cs (fst f)) \<and> (\<exists>m. snd f = SendTask m)"

text \<open>The bytes of the messages for connection \<open>p\<close> among the tasks.\<close>

definition bytes_for :: "nat \<Rightarrow> (nat \<times> conn_task) list \<Rightarrow> byte list" where
  "bytes_for p fs = concat (map (\<lambda>(q, t). case t of SendTask m \<Rightarrow> if q = p then m else [] | _ \<Rightarrow> []) fs)"

lemma bytes_for_simps [simp]:
  "bytes_for p [] = []" "bytes_for p ((q, SendTask m) # fs) = (if q = p then m else []) @ bytes_for p fs"
  by (simp_all add: bytes_for_def)

lemma send_task:
  assumes "open_idle c"
  shows "\<exists>d. run_task junk (Inr (length m)) None (c\<lparr>tasks := [SendTask m]\<rparr>) = Inr d \<and> open_idle d \<and>
     wire_bytes (out d) = wire_bytes (out c) @ m"
proof -
  let ?c = "c\<lparr>tasks := [SendTask m]\<rparr>"
  have "conn_inv ?c" "state ?c = eConnected" "content (writeBuffer ?c) = []" "tasks ?c = map SendTask [m]"
    using assms by (simp_all add: open_idle_def conn_inv_def)
  from run_tasks_write [OF this, of junk] show ?thesis by (auto simp: open_idle_def res_bind_eq_Inr)
qed

lemma serve_batch:
  assumes "lpc (reactor s) = LRun" and "\<not> aborted (reactor s)" and "\<forall>f \<in> set (batch (reactor s)). sends_to (conns s) f"
  shows "\<exists>t. lc_run junk (map (\<lambda>f. Task (whole (snd f)) None) (batch (reactor s))) s = Some (Inr t) \<and>
     lpc (reactor t) = LRun \<and> \<not> aborted (reactor t) \<and> batch (reactor t) = [] \<and>
     functorList (reactor t) = functorList (reactor s) \<and>
     (\<forall>p. wire_bytes (out (conns t p)) = wire_bytes (out (conns s p)) @ bytes_for p (batch (reactor s)))"
  using assms
proof (induction "batch (reactor s)" arbitrary: s)
  case Nil
  then show ?case by (auto intro!: exI [of _ s])
next
  case (Cons f fs)
  have b: "batch (reactor s) = f # fs" using Cons.hyps(2) by simp
  obtain q m where f: "f = (q, SendTask m)" "open_idle (conns s q)"
    using Cons.prems(3) b by (cases f) (auto simp: sends_to_def)
  from send_task [OF f(2), of junk m] obtain d where
    d: "run_task junk (Inr (length m)) None ((conns s q)\<lparr>tasks := [SendTask m]\<rparr>) = Inr d" "open_idle d"
      "wire_bytes (out d) = wire_bytes (out (conns s q)) @ m" by blast
  let ?R = "(reactor s)\<lparr>batch := fs, ran := ran (reactor s) @ [f]\<rparr>"
  let ?u = "set_conn q d (s\<lparr>reactor := ?R\<rparr>)"
  have step: "lc_act junk (Task (whole (snd f)) None) s = Some (Inr ?u)"
    using b f Cons.prems(1,2) d(1) by (simp add: lc_act_def)
  have "\<forall>f \<in> set fs. sends_to (conns ?u) f"
    using Cons.prems(3) b d(2) by (auto simp: sends_to_def)
  with Cons.hyps(1) [of ?u] Cons.prems(1,2) obtain t where
    t: "lc_run junk (map (\<lambda>f. Task (whole (snd f)) None) fs) ?u = Some (Inr t)" "lpc (reactor t) = LRun" "\<not> aborted (reactor t)"
      "batch (reactor t) = []" "functorList (reactor t) = functorList (reactor s)"
      "\<And>p. wire_bytes (out (conns t p)) = wire_bytes (out (conns ?u p)) @ bytes_for p fs" by auto
  have "wire_bytes (out (conns t p)) = wire_bytes (out (conns s p)) @ bytes_for p (f # fs)" for p
    using t(6) [of p] d(3) f(1) by simp
  with step t show ?case unfolding b by auto
qed

lemma serve_round_writes:
  assumes "loop_inv (reactor s)" and "lpc (reactor s) = LPoll"
    and "\<forall>f \<in> set (functorList (reactor s)). sends_to (conns s) f"
  shows "\<exists>t. lc_run junk (serve_round s) s = Some (Inr t) \<and> lpc (reactor t) = LTop \<and> functorList (reactor t) = [] \<and>
     (\<forall>p. wire_bytes (out (conns t p)) = wire_bytes (out (conns s p)) @ bytes_for p (functorList (reactor s)))"
proof -
  let ?R = "reactor s"
  have R: "\<not> aborted ?R" "batch ?R = []" "\<not> btaskRunning ?R" using assms(1,2) by (simp_all add: loop_inv_def)
  let ?c = "s\<lparr>reactor := ?R\<lparr>lpc := LCheck, taskWakeup := 0\<rparr>\<rparr>"
  have head: "lc_run junk ([Loop Return] @ (if 0 < taskWakeup ?R then [Loop Wake] else []) @ [Loop Handled]) s = Some (Inr ?c)"
    using assms(2) R by (auto simp: lc_act_def eventfdRead_def)
  show ?thesis
  proof (cases "functorList ?R = []")
    case True
    then have "lc_run junk [Loop Check] ?c = Some (Inr (?c\<lparr>reactor := (reactor ?c)\<lparr>lpc := LTop\<rparr>\<rparr>))"
      using R by (simp add: lc_act_def)
    with head True show ?thesis
      using steps_append [of "lc_act junk" "[Loop Return] @ (if 0 < taskWakeup ?R then [Loop Wake] else []) @ [Loop Handled]" "[Loop Check]" s]
      by (simp add: serve_round_def Let_def)
  next
    case False
    let ?r = "s\<lparr>reactor := ?R\<lparr>taskWakeup := 0, btaskRunning := True, batch := functorList ?R, functorList := [], lpc := LRun\<rparr>\<rparr>"
    have mid: "lc_run junk [Loop Check, Loop Swap] ?c = Some (Inr ?r)" using R False by (simp add: lc_act_def)
    have "\<forall>f \<in> set (batch (reactor ?r)). sends_to (conns ?r) f" using assms(3) by simp
    with serve_batch [of ?r junk] R(1) obtain t where
      t: "lc_run junk (map (\<lambda>f. Task (whole (snd f)) None) (functorList ?R)) ?r = Some (Inr t)"
        "lpc (reactor t) = LRun" "\<not> aborted (reactor t)" "batch (reactor t) = []" "functorList (reactor t) = []"
        "\<And>p. wire_bytes (out (conns t p)) = wire_bytes (out (conns s p)) @ bytes_for p (functorList ?R)"
      by auto
    let ?z = "t\<lparr>reactor := (reactor t)\<lparr>btaskRunning := False, lpc := LTop\<rparr>\<rparr>"
    have fin: "lc_run junk [Loop Done] t = Some (Inr ?z)" using t by (simp add: lc_act_def)
    have "serve_round s = ([Loop Return] @ (if 0 < taskWakeup ?R then [Loop Wake] else []) @ [Loop Handled]) @
        [Loop Check, Loop Swap] @ map (\<lambda>f. Task (whole (snd f)) None) (functorList ?R) @ [Loop Done]"
      using False by (simp add: serve_round_def Let_def)
    then have "lc_run junk (serve_round s) s = Some (Inr ?z)"
      using steps_join [OF head steps_join [OF mid steps_join [OF t(1) fin]]] by (simp only:)
    with t show ?thesis by simp
  qed
qed


section \<open>Two threads, two connections\<close>

text \<open>
  Both connections are established on the loop thread; while it is in \<^verbatim>\<open>poll\<close>, thread 3 sends over connection 1
  and thread 4 over connection 0, and thread 3 has written the wake-up descriptor.
\<close>

definition demo_conns :: "nat \<Rightarrow> NetConnection" where
  "demo_conns p = set_callbacks True True True True (new_NetConnection (\<lambda>_. 0) (7 + int p))"

definition demo_acts :: "loop_act list" where
  "demo_acts =
     [Loop Enter, Loop Return, Own 0 Establish, Own 1 Establish, Loop Handled, Loop Check, Loop Enter,
      Call 3 1 (DoSend False (Inr 0) [1, 2]), Call 4 0 (DoSend False (Inr 0) [9]), Loop (Write 3)]"

lemma demo_established:
  "\<exists>c. connEstablished (demo_conns p) = Inr c \<and> state c = eConnected \<and> content (writeBuffer c) = [] \<and>
     tasks c = [] \<and> wire_bytes (out c) = []"
  by (simp add: demo_conns_def set_callbacks_def new_NetConnection_def connEstablished_def with_event_def Let_def)

lemma demo_no_tasks: "tasks (demo_conns p) = []"
  by (simp add: demo_conns_def set_callbacks_def new_NetConnection_def Let_def)

lemma demo_lc_run:
  "\<exists>s. lc_run (\<lambda>_. 0) demo_acts (start_loop demo_conns) = Some (Inr s) \<and> lpc (reactor s) = LPoll \<and>
     functorList (reactor s) = [(1, SendTask [1, 2]), (0, SendTask [9])] \<and> batch (reactor s) = [] \<and>
     (\<forall>p \<in> {0, 1}. state (conns s p) = eConnected \<and> content (writeBuffer (conns s p)) = [] \<and> wire_bytes (out (conns s p)) = [])"
proof -
  obtain c0 c1 where c:
    "connEstablished (demo_conns 0) = Inr c0" "state c0 = eConnected" "content (writeBuffer c0) = []" "tasks c0 = []" "wire_bytes (out c0) = []"
    "connEstablished (demo_conns 1) = Inr c1" "state c1 = eConnected" "content (writeBuffer c1) = []" "tasks c1 = []" "wire_bytes (out c1) = []"
    using demo_established [of 0] demo_established [of 1] by blast
  then show ?thesis
    by (simp add: demo_acts_def start_loop_def new_Reactor_def lc_act_def send_def set_conn_def post_tasks_def push_task_def
        eventfdWrite_def)
qed

lemma demo_ops:
  "conn_ops (\<lambda>_. 0) p demo_acts (start_loop demo_conns) =
     (if p = 0 then [Establish, DoSend False (Inr 0) [9]] else if p = 1 then [Establish, DoSend False (Inr 0) [1, 2]] else [])"
proof -
  obtain c0 c1 where
    "connEstablished (demo_conns 0) = Inr c0" "state c0 = eConnected" "tasks c0 = []"
    "connEstablished (demo_conns 1) = Inr c1" "state c1 = eConnected" "tasks c1 = []"
    using demo_established [of 0] demo_established [of 1] by blast
  then show ?thesis
    by (simp add: demo_acts_def start_loop_def new_Reactor_def lc_act_def send_def set_conn_def post_tasks_def push_task_def
        eventfdWrite_def)
qed



end
